(* ===== verification/Ichor_Prelude.thy ===== *)
theory Ichor_Prelude
  imports Main "HOL-Library.Multiset"
begin

text \<open>
  Shared vocabulary of the development: the identifiers and priorities every component uses, and
  the dense hash containers the code stores its state in.

  \<^verbatim>\<open>Ichor::unordered_map\<close> and \<^verbatim>\<open>Ichor::unordered_set\<close> are the tables of
  \<^verbatim>\<open>src/include/ankerl/unordered_dense.h\<close>. Such a table keeps its values in one vector, appends a
  new value at the end and erases a value by moving the last one into the hole. The order of
  iteration is visible to the framework (it is the order in which services are injected), so the
  containers are modelled as lists with exactly these operations. The bucket array only speeds up
  the search; \<^verbatim>\<open>Robin_Hood\<close> models it and shows that the table with its buckets is this list.
\<close>

named_theorems dense_simps \<open>look-up and membership after the operations of the dense containers\<close>
named_theorems dense_intros \<open>operations that keep the keys of a dense container distinct\<close>

type_synonym service_id = nat
type_synonym priority = nat
type_synonym type_hash = nat

section \<open>Dense containers\<close>

type_synonym ('k, 'v) dense_map = "('k \<times> 'v) list"

fun dense_erase :: "('a \<Rightarrow> bool) \<Rightarrow> 'a list \<Rightarrow> 'a list" where
  "dense_erase p [] = []"
| "dense_erase p (x # xs) =
     (if p x then (if xs = [] then [] else last xs # butlast xs) else x # dense_erase p xs)"

definition dm_contains :: "'k \<Rightarrow> ('k, 'v) dense_map \<Rightarrow> bool" where
  "dm_contains k m = (k \<in> fst ` set m)"

definition dm_find :: "'k \<Rightarrow> ('k, 'v) dense_map \<Rightarrow> 'v option" where
  "dm_find k m = map_of m k"

definition dm_emplace :: "'k \<Rightarrow> 'v \<Rightarrow> ('k, 'v) dense_map \<Rightarrow> ('k, 'v) dense_map" where
  "dm_emplace k v m = (if dm_contains k m then m else m @ [(k, v)])"

definition dm_modify :: "'k \<Rightarrow> ('v \<Rightarrow> 'v) \<Rightarrow> ('k, 'v) dense_map \<Rightarrow> ('k, 'v) dense_map" where
  "dm_modify k f m = map (\<lambda>(k', v). (k', if k' = k then f v else v)) m"

definition dm_erase :: "'k \<Rightarrow> ('k, 'v) dense_map \<Rightarrow> ('k, 'v) dense_map" where
  "dm_erase k m = dense_erase (\<lambda>e. fst e = k) m"

definition dm_ok :: "('k, 'v) dense_map \<Rightarrow> bool" where
  "dm_ok m = distinct (map fst m)"

definition ds_insert :: "'a \<Rightarrow> 'a list \<Rightarrow> 'a list" where
  "ds_insert x xs = (if x \<in> set xs then xs else xs @ [x])"

definition ds_erase :: "'a \<Rightarrow> 'a list \<Rightarrow> 'a list" where
  "ds_erase x xs = dense_erase (\<lambda>y. y = x) xs"

text \<open>\<^verbatim>\<open>erase_if\<close> goes from back to front; every erased entry is replaced by the last one.\<close>

fun erase_if :: "nat \<Rightarrow> ('a \<Rightarrow> bool) \<Rightarrow> 'a list \<Rightarrow> 'a list" where
  "erase_if 0 p xs = xs"
| "erase_if (Suc idx) p xs = erase_if idx p (if p (xs ! idx) then butlast (xs[idx := last xs]) else xs)"

section \<open>Laws of the dense containers\<close>

lemma mset_last_butlast: "xs \<noteq> [] \<Longrightarrow> add_mset (last xs) (mset (butlast xs)) = mset xs"
  by (metis append_butlast_last_id mset.simps(2) mset_append union_mset_add_mset_right
      add.right_neutral mset.simps(1))

lemma mset_dm_erase: "dm_ok m \<Longrightarrow> mset (dm_erase k m) = mset (filter (\<lambda>e. fst e \<noteq> k) m)"
proof (induction m)
  case Nil
  show ?case by (simp add: dm_erase_def)
next
  case (Cons e m)
  have ok: "dm_ok m" and new: "fst e \<notin> fst ` set m"
    using Cons.prems by (auto simp: dm_ok_def)
  show ?case
  proof (cases "fst e = k")
    case True
    then have "filter (\<lambda>e. fst e \<noteq> k) m = m"
      using new by (simp add: filter_id_conv) (metis image_eqI)
    with True show ?thesis by (simp add: dm_erase_def mset_last_butlast)
  next
    case False
    with Cons.IH [OF ok] show ?thesis by (simp add: dm_erase_def)
  qed
qed

lemma set_dm_erase [dense_simps]: "dm_ok m \<Longrightarrow> set (dm_erase k m) = {e \<in> set m. fst e \<noteq> k}"
  by (metis mset_dm_erase set_filter set_mset_mset)

lemma dm_ok_erase [dense_intros]: "dm_ok m \<Longrightarrow> dm_ok (dm_erase k m)"
proof -
  assume ok: "dm_ok m"
  then have "mset (map fst (dm_erase k m)) = mset (map fst (filter (\<lambda>e. fst e \<noteq> k) m))"
    by (simp add: mset_dm_erase)
  moreover have "distinct (map fst (filter (\<lambda>e. fst e \<noteq> k) m))"
    using ok by (simp add: dm_ok_def distinct_map_filter)
  ultimately show ?thesis
    unfolding dm_ok_def by (metis mset_eq_imp_distinct_iff)
qed

lemma dm_find_Some_iff: "dm_ok m \<Longrightarrow> dm_find k m = Some v \<longleftrightarrow> (k, v) \<in> set m"
  by (simp add: dm_find_def dm_ok_def)

lemma dm_find_None_iff [dense_simps]: "dm_find k m = None \<longleftrightarrow> \<not> dm_contains k m"
  by (simp add: dm_find_def dm_contains_def map_of_eq_None_iff)

lemma dm_find_erase [dense_simps]:
  assumes "dm_ok m"
  shows "dm_find k (dm_erase j m) = (if k = j then None else dm_find k m)"
proof (rule option.expand)
  show "(dm_find k (dm_erase j m) = None) = ((if k = j then None else dm_find k m) = None)"
    using assms by (auto simp: dm_find_None_iff dm_contains_def set_dm_erase image_iff)
next
  assume "dm_find k (dm_erase j m) \<noteq> None"
  then obtain v where v: "dm_find k (dm_erase j m) = Some v" by blast
  then have "(k, v) \<in> set m \<and> k \<noteq> j"
    using assms by (simp add: dm_find_Some_iff dm_ok_erase set_dm_erase)
  with v assms show "the (dm_find k (dm_erase j m)) = the (if k = j then None else dm_find k m)"
    by (simp add: dm_find_Some_iff [symmetric])
qed

lemma dm_find_emplace [dense_simps]:
  "dm_find k (dm_emplace j v m) = (if k = j \<and> \<not> dm_contains j m then Some v else dm_find k m)"
  by (induction m) (auto simp: dm_find_def dm_emplace_def dm_contains_def)

lemma dm_ok_emplace [dense_intros]: "dm_ok m \<Longrightarrow> dm_ok (dm_emplace k v m)"
  by (auto simp: dm_ok_def dm_emplace_def dm_contains_def)

lemma map_fst_dm_modify [simp]: "map fst (dm_modify k f m) = map fst m"
  by (auto simp: dm_modify_def)

lemma dm_contains_modify [dense_simps]: "dm_contains j (dm_modify k f m) = dm_contains j m"
  by (metis dm_contains_def list.set_map map_fst_dm_modify)

lemma dm_ok_modify [dense_intros]: "dm_ok m \<Longrightarrow> dm_ok (dm_modify k f m)"
  by (simp add: dm_ok_def)

lemma dm_find_modify [dense_simps]:
  "dm_find j (dm_modify k f m) = (if j = k then map_option f (dm_find j m) else dm_find j m)"
  by (induction m) (auto simp: dm_find_def dm_modify_def)

lemma dm_ok_Nil [simp, dense_intros]: "dm_ok []"
  by (simp add: dm_ok_def)

lemma dm_contains_emplace [dense_simps]: "dm_contains j (dm_emplace k v m) \<longleftrightarrow> j = k \<or> dm_contains j m"
  by (auto simp: dm_emplace_def dm_contains_def)

lemma dm_contains_erase [dense_simps]: "dm_ok m \<Longrightarrow> dm_contains j (dm_erase k m) \<longleftrightarrow> j \<noteq> k \<and> dm_contains j m"
  by (force simp: dm_contains_def set_dm_erase)

lemma set_ds_insert [dense_simps]: "set (ds_insert x xs) = insert x (set xs)"
  by (auto simp: ds_insert_def)

lemma distinct_ds_insert [dense_intros]: "distinct xs \<Longrightarrow> distinct (ds_insert x xs)"
  by (auto simp: ds_insert_def)

lemma mset_ds_erase: "mset (ds_erase x xs) = mset xs - {#x#}"
  by (induction xs) (auto simp: ds_erase_def mset_last_butlast)

lemma distinct_ds_erase [dense_intros]: "distinct xs \<Longrightarrow> distinct (ds_erase x xs)"
  by (metis distinct_remove1 mset_ds_erase mset_eq_imp_distinct_iff mset_remove1)

lemma set_ds_erase [dense_simps]: "distinct xs \<Longrightarrow> set (ds_erase x xs) = set xs - {x}"
  by (metis mset_ds_erase mset_remove1 set_mset_mset set_remove1_eq)

lemma ds_erase_notin [simp]: "x \<notin> set xs \<Longrightarrow> ds_erase x xs = xs"
  by (induction xs) (auto simp: ds_erase_def)

section \<open>Lists\<close>

lemma in_set_map_filter: "y \<in> set (List.map_filter f xs) \<longleftrightarrow> (\<exists>x \<in> set xs. f x = Some y)"
  by (induction xs) (auto simp: List.map_filter_simps split: option.splits)

lemma map_map_filter:
  "(\<And>x y. x \<in> set xs \<Longrightarrow> f x = Some y \<Longrightarrow> g y = h x) \<Longrightarrow>
   map g (List.map_filter f xs) = map h (filter (\<lambda>x. f x \<noteq> None) xs)"
  by (induction xs) (auto simp: List.map_filter_simps split: option.splits)

section \<open>The contract of an associative container\<close>

text \<open>
  What the framework relies on: a look-up after an emplace or an erase. The laws are discharged for
  the dense map below; the components only use them through the collections above.
\<close>

locale assoc_container =
  fixes find :: "'k \<Rightarrow> 'm \<Rightarrow> 'v option"
    and emplace :: "'k \<Rightarrow> 'v \<Rightarrow> 'm \<Rightarrow> 'm"
    and erase :: "'k \<Rightarrow> 'm \<Rightarrow> 'm"
    and ok :: "'m \<Rightarrow> bool"
  assumes find_emplace_new: "ok m \<Longrightarrow> find k m = None \<Longrightarrow> find j (emplace k v m) = (if j = k then Some v else find j m)"
    and emplace_old: "ok m \<Longrightarrow> find k m \<noteq> None \<Longrightarrow> emplace k v m = m"
    and find_erase: "ok m \<Longrightarrow> find j (erase k m) = (if j = k then None else find j m)"
    and ok_emplace: "ok m \<Longrightarrow> ok (emplace k v m)"
    and ok_erase: "ok m \<Longrightarrow> ok (erase k m)"
begin

lemma find_emplace_erase:
  assumes "ok m"
  shows "find j (emplace k v (erase k m)) = (if j = k then Some v else find j m)"
  using assms by (simp add: find_emplace_new find_erase ok_erase)

lemma find_erase_emplace_new:
  assumes "ok m" and "find k m = None"
  shows "find j (erase k (emplace k v m)) = find j m"
  using assms by (simp add: find_emplace_new find_erase ok_emplace)

lemma emplace_twice:
  assumes "ok m"
  shows "emplace k w (emplace k v m) = emplace k v m"
  using assms by (cases "find k m") (simp_all add: emplace_old find_emplace_new ok_emplace)

end

interpretation dmap: assoc_container dm_find dm_emplace dm_erase dm_ok
proof
  show "\<And>m k j v. dm_ok m \<Longrightarrow> dm_find k m = None \<Longrightarrow>
      dm_find j (dm_emplace k v m) = (if j = k then Some v else dm_find j m)"
    by (simp add: dense_simps)
  show "\<And>m k v. dm_ok m \<Longrightarrow> dm_find k m \<noteq> None \<Longrightarrow> dm_emplace k v m = m"
    by (simp add: dm_emplace_def dm_find_None_iff)
  show "\<And>m j k. dm_ok m \<Longrightarrow> dm_find j (dm_erase k m) = (if j = k then None else dm_find j m)"
    by (simp add: dense_simps)
qed (auto intro: dense_intros)

section \<open>Searching\<close>

fun find_index :: "('a \<Rightarrow> bool) \<Rightarrow> 'a list \<Rightarrow> nat option" where
  "find_index p [] = None"
| "find_index p (x # xs) = (if p x then Some 0 else map_option Suc (find_index p xs))"

lemma find_index_Some:
  "find_index p xs = Some i \<longleftrightarrow> i < length xs \<and> p (xs ! i) \<and> (\<forall>j<i. \<not> p (xs ! j))"
proof (induction xs arbitrary: i)
  case (Cons x xs)
  show ?case
  proof (cases i)
    case 0
    then show ?thesis by auto
  next
    case (Suc k)
    then show ?thesis using Cons.IH [of k] by (auto simp: All_less_Suc2)
  qed
qed simp

lemma find_index_None: "find_index p xs = None \<longleftrightarrow> (\<forall>x \<in> set xs. \<not> p x)"
  by (induction xs) auto

lemma find_index_nth: "distinct xs \<Longrightarrow> i < length xs \<Longrightarrow> find_index (\<lambda>x. x = xs ! i) xs = Some i"
  by (auto simp: find_index_Some nth_eq_iff_index_eq)

lemma erase_at:
  "butlast ((a @ x # r)[length a := last (a @ x # r)]) = a @ (if r = [] then [] else last r # butlast r)"
  by (simp add: butlast_append)

lemma mset_erase_if:
  assumes "idx \<le> length xs" and "\<forall>x \<in> set (drop idx xs). \<not> p x"
  shows "mset (erase_if idx p xs) = mset (filter (\<lambda>x. \<not> p x) xs)"
  using assms
proof (induction idx arbitrary: xs)
  case 0
  then have "filter (\<lambda>x. \<not> p x) xs = xs" by (simp add: filter_id_conv)
  then show ?case by simp
next
  case (Suc idx)
  then have "idx < length xs" by simp
  then obtain a x r where xs: "xs = a @ x # r" and a: "length a = idx" by (metis id_take_nth_drop length_take min.absorb4)
  have r: "\<forall>x \<in> set r. \<not> p x" using Suc.prems(2) a by (simp add: xs)
  have nth: "xs ! idx = x" using a by (auto simp: xs)
  show ?case
  proof (cases "p x")
    case False
    then have "erase_if (Suc idx) p xs = erase_if idx p xs" using nth by simp
    then show ?thesis using Suc.IH [of xs] r a False by (simp add: xs)
  next
    case True
    let ?tail = "if r = [] then [] else last r # butlast r"
    have tail: "mset ?tail = mset r" using mset_last_butlast [of r] by simp
    then have "set ?tail = set r" by (metis set_mset_mset)
    then have "mset (erase_if idx p (a @ ?tail)) = mset (filter (\<lambda>x. \<not> p x) (a @ ?tail))"
      using r a by (intro Suc.IH) auto
    also have "\<dots> = mset (filter (\<lambda>x. \<not> p x) xs)"
      using True tail by (simp add: xs mset_filter del: if_cancel)
    also have "erase_if idx p (a @ ?tail) = erase_if (Suc idx) p xs"
      using True nth a erase_at [of a x r] by (auto simp: xs)
    finally show ?thesis .
  qed
qed

end
