(* ===== verification/Dependency_Register.thy ===== *)
theory Dependency_Register
  imports Ichor_Prelude "HOL-Library.Word"
begin

text \<open>
  The enumerations of \<^verbatim>\<open>src/include/ichor/Enums.h\<close>, the dependency description of
  \<^verbatim>\<open>dependency_management/Dependency.h\<close> and the register of
  \<^verbatim>\<open>dependency_management/DependencyRegister.h\<close> with its searches. The register is the list of its
  registrations in iteration order. A registration's two callbacks are code of the service; a call
  to them is recorded where it is made (theory \<open>Lifecycle_Manager\<close>).
\<close>

unbundle bit_operations_syntax

section \<open>Enumerations\<close>

datatype ServiceState = UNINSTALLED | INSTALLED | INJECTING | STARTING | ACTIVE | UNINJECTING | STOPPING

datatype StartBehaviour = DONE | STARTED | STOPPED | STOP_ME

datatype DependencyChange = NOT_FOUND | FOUND | FOUND_AND_START_ME | FOUND_AND_STOP_ME

primrec state_index :: "ServiceState \<Rightarrow> nat" where
  "state_index UNINSTALLED = 0"
| "state_index INSTALLED = 1"
| "state_index INJECTING = 2"
| "state_index STARTING = 3"
| "state_index ACTIVE = 4"
| "state_index UNINJECTING = 5"
| "state_index STOPPING = 6"

lemma state_index_inj: "state_index a = state_index b \<Longrightarrow> a = b"
  by (cases a; cases b) simp_all

instantiation ServiceState :: linorder
begin

definition less_eq_ServiceState :: "ServiceState \<Rightarrow> ServiceState \<Rightarrow> bool" where
  "less_eq_ServiceState a b = (state_index a \<le> state_index b)"

definition less_ServiceState :: "ServiceState \<Rightarrow> ServiceState \<Rightarrow> bool" where
  "less_ServiceState a b = (state_index a < state_index b)"

instance
  by standard (auto simp: less_eq_ServiceState_def less_ServiceState_def state_index_inj)

end

section \<open>Dependencies\<close>

type_synonym DependencyFlags = "16 word"

definition FLAG_NONE :: DependencyFlags where
  "FLAG_NONE = 0"

definition REQUIRED :: DependencyFlags where
  "REQUIRED = 1"

definition ALLOW_MULTIPLE :: DependencyFlags where
  "ALLOW_MULTIPLE = 2"

definition has_flag :: "DependencyFlags \<Rightarrow> DependencyFlags \<Rightarrow> bool" where
  "has_flag flags f = (flags AND f = f)"

record Dependency =
  interfaceNameHash :: type_hash
  flags :: DependencyFlags
  satisfied :: nat

definition dependency_eq :: "Dependency \<Rightarrow> Dependency \<Rightarrow> bool" where
  "dependency_eq a b = (interfaceNameHash a = interfaceNameHash b \<and> flags a = flags b)"

definition u64_inc :: "nat \<Rightarrow> nat" where
  "u64_inc n = (n + 1) mod 2 ^ 64"

definition u64_dec :: "nat \<Rightarrow> nat" where
  "u64_dec n = (n + (2 ^ 64 - 1)) mod 2 ^ 64"

section \<open>Property values\<close>

text \<open>
  A value of \<^verbatim>\<open>Ichor::v1::any\<close> as the framework sees it: the hash of its type and its content. The
  filter entries of \<^verbatim>\<open>src/include/ichor/Filter.h\<close> are values a property may hold. A filter entry
  written by a user of the library is not represented.
\<close>

datatype filter_entry =
    PropertiesFilterEntry string type_hash nat bool
  | DependencyPropertiesFilterEntry type_hash string type_hash nat bool
  | ServiceIdFilterEntry service_id

datatype any_value = Any_Filter filter_entry | Any_Other type_hash nat

type_synonym Properties = "(string, any_value) dense_map"

record registration =
  reg_dep :: Dependency
  reg_props :: "Properties option"

type_synonym DependencyRegister = "registration list"

section \<open>The register\<close>

definition register_dependency ::
  "type_hash \<Rightarrow> DependencyFlags \<Rightarrow> Properties option \<Rightarrow> DependencyRegister \<Rightarrow> DependencyRegister" where
  "register_dependency h fl props reg =
     reg @ [\<lparr>reg_dep = \<lparr>interfaceNameHash = h, flags = fl, satisfied = 0\<rparr>, reg_props = props\<rparr>]"

definition register_dependency_constructor :: "type_hash \<Rightarrow> DependencyRegister \<Rightarrow> DependencyRegister" where
  "register_dependency_constructor h reg = register_dependency h REQUIRED None reg"

definition register_contains :: "DependencyRegister \<Rightarrow> Dependency \<Rightarrow> bool" where
  "register_contains reg d =
     (find_index (\<lambda>r. interfaceNameHash (reg_dep r) = interfaceNameHash d) reg \<noteq> None)"

definition dep_matches :: "type_hash \<Rightarrow> bool \<Rightarrow> Dependency \<Rightarrow> bool" where
  "dep_matches h sat dep =
     (interfaceNameHash dep = h \<and>
      (has_flag (flags dep) ALLOW_MULTIPLE \<or> (sat \<and> satisfied dep > 0) \<or> (\<not> sat \<and> satisfied dep = 0)))"

definition register_find_sat :: "DependencyRegister \<Rightarrow> type_hash \<Rightarrow> bool \<Rightarrow> nat option" where
  "register_find_sat reg h sat = find_index (\<lambda>r. dep_matches h sat (reg_dep r)) reg"

definition register_find :: "DependencyRegister \<Rightarrow> type_hash \<Rightarrow> nat option" where
  "register_find reg h = find_index (\<lambda>r. interfaceNameHash (reg_dep r) = h) reg"

definition allSatisfied :: "DependencyRegister \<Rightarrow> bool" where
  "allSatisfied reg =
     list_all (\<lambda>r. satisfied (reg_dep r) > 0 \<or> flags (reg_dep r) AND REQUIRED = FLAG_NONE) reg"

definition set_satisfied :: "nat \<Rightarrow> (nat \<Rightarrow> nat) \<Rightarrow> DependencyRegister \<Rightarrow> DependencyRegister" where
  "set_satisfied i f reg =
     (if i < length reg
      then reg[i := (reg ! i)\<lparr>reg_dep := (reg_dep (reg ! i))\<lparr>satisfied := f (satisfied (reg_dep (reg ! i)))\<rparr>\<rparr>]
      else reg)"

section \<open>Properties of the register\<close>

lemma u64_inc_bounded [simp]: "n < 2 ^ 64 - 1 \<Longrightarrow> u64_inc n = n + 1"
  by (simp add: u64_inc_def)

lemma u64_dec_pos [simp]: "0 < n \<Longrightarrow> n < 2 ^ 64 \<Longrightarrow> u64_dec n = n - 1"
proof -
  assume n: "0 < n" "n < 2 ^ 64"
  then have "n + (2 ^ 64 - 1) = (n - 1) + 2 ^ 64" by simp
  then show ?thesis using n unfolding u64_dec_def by (simp add: mod_if)
qed

lemma u64_dec_0: "u64_dec 0 = 2 ^ 64 - 1"
  by (simp add: u64_dec_def)

lemma required_or_none: "flags d AND REQUIRED = FLAG_NONE \<longleftrightarrow> \<not> has_flag (flags d) REQUIRED"
  by (simp add: has_flag_def REQUIRED_def FLAG_NONE_def and_one_eq)

lemma length_set_satisfied [simp]: "length (set_satisfied i f reg) = length reg"
  by (simp add: set_satisfied_def)

lemma allSatisfied_iff:
  "allSatisfied reg \<longleftrightarrow> (\<forall>r \<in> set reg. has_flag (flags (reg_dep r)) REQUIRED \<longrightarrow> satisfied (reg_dep r) > 0)"
  by (auto simp: allSatisfied_def list_all_iff required_or_none)

end
