(* ===== verification/Lifecycle_Manager.thy ===== *)
theory Lifecycle_Manager
  imports Dependency_Register
begin

text \<open>
  Services and their lifecycle managers: \<^verbatim>\<open>AdvancedService.h\<close>, \<^verbatim>\<open>DependencyLifecycleManager.h\<close>,
  \<^verbatim>\<open>LifecycleManager.h\<close>, \<^verbatim>\<open>InternalServiceLifecycleManager.h\<close> and
  \<^verbatim>\<open>IServiceInterestedLifecycleManager.h\<close> of \<^verbatim>\<open>src/include/ichor/dependency_management/\<close>, and the
  filters of \<^verbatim>\<open>src/include/ichor/Filter.h\<close>.

  One record holds a manager together with the service it owns; its kind says which class it is. The
  code of a service (its \<^verbatim>\<open>start\<close>, \<^verbatim>\<open>stop\<close> and the functions that receive a dependency) is not part
  of the framework. What \<^verbatim>\<open>start\<close> answers is an argument, and the calls that hand a dependency to the
  service or take it away are recorded in the order they are made. The build with hardening is
  modelled: a check that ends in \<^verbatim>\<open>std::terminate\<close> yields \<open>None\<close>.

  A coroutine is cut at its \<^verbatim>\<open>co_await\<close>s: one definition runs up to the suspension, another runs from
  there on.
\<close>

section \<open>State\<close>

datatype manager_kind = Dependency_Manager | Plain_Manager | Internal_Manager | Self_Manager

datatype injection_call = Add_Instance type_hash service_id | Remove_Instance type_hash service_id

record mgr =
  m_kind :: manager_kind
  m_id :: service_id
  m_type :: type_hash
  m_state :: ServiceState
  m_priority :: priority
  m_interfaces :: "Dependency list"
  m_registry :: DependencyRegister
  m_injected :: "service_id list"
  m_goingAway :: "service_id list"
  m_dependees :: "service_id list"
  m_properties :: Properties
  m_calls :: "injection_call list"

definition INTERNAL_EVENT_PRIORITY :: priority where
  "INTERNAL_EVENT_PRIORITY = 1000"

definition INTERNAL_DEPENDENCY_EVENT_PRIORITY :: priority where
  "INTERNAL_DEPENDENCY_EVENT_PRIORITY = 100"

definition INTERNAL_COROUTINE_EVENT_PRIORITY :: priority where
  "INTERNAL_COROUTINE_EVENT_PRIORITY = 98"

definition INTERNAL_INSERT_SERVICE_EVENT_PRIORITY :: priority where
  "INTERNAL_INSERT_SERVICE_EVENT_PRIORITY = 50"

definition SELF_SERVICE_ID :: service_id where
  "SELF_SERVICE_ID = 2 ^ 64 - 1"

definition interface_of :: "type_hash \<Rightarrow> Dependency" where
  "interface_of h = \<lparr>interfaceNameHash = h, flags = FLAG_NONE, satisfied = 0\<rparr>"

definition new_dependency_manager ::
  "service_id \<Rightarrow> type_hash \<Rightarrow> type_hash list \<Rightarrow> DependencyRegister \<Rightarrow> Properties \<Rightarrow> mgr" where
  "new_dependency_manager sid ty ifaces reg props =
     \<lparr>m_kind = Dependency_Manager, m_id = sid, m_type = ty, m_state = INSTALLED,
      m_priority = INTERNAL_EVENT_PRIORITY, m_interfaces = map interface_of ifaces,
      m_registry = reg, m_injected = [], m_goingAway = [], m_dependees = [],
      m_properties = props, m_calls = []\<rparr>"

definition new_plain_manager :: "service_id \<Rightarrow> type_hash \<Rightarrow> type_hash list \<Rightarrow> Properties \<Rightarrow> mgr" where
  "new_plain_manager sid ty ifaces props =
     (new_dependency_manager sid ty ifaces [] props)\<lparr>m_kind := Plain_Manager\<rparr>"

definition new_internal_manager :: "service_id \<Rightarrow> type_hash \<Rightarrow> mgr" where
  "new_internal_manager sid ty =
     (new_dependency_manager sid ty [ty] [] [])\<lparr>m_kind := Internal_Manager, m_state := ACTIVE\<rparr>"

definition new_self_manager :: "type_hash \<Rightarrow> mgr" where
  "new_self_manager iservice =
     (new_dependency_manager SELF_SERVICE_ID iservice [iservice] [] [])\<lparr>m_kind := Self_Manager\<rparr>"

definition isInternalManager :: "mgr \<Rightarrow> bool" where
  "isInternalManager m = (m_kind m = Internal_Manager \<or> m_kind m = Self_Manager)"

definition getDependencyRegistry :: "mgr \<Rightarrow> DependencyRegister option" where
  "getDependencyRegistry m = (if m_kind m = Dependency_Manager then Some (m_registry m) else None)"

definition isStarted :: "mgr \<Rightarrow> bool" where
  "isStarted m = (m_state m = ACTIVE)"

section \<open>Services: \<^verbatim>\<open>AdvancedService\<close>\<close>

text \<open>A start either returns \<^verbatim>\<open>DONE\<close> at once or awaits the \<^verbatim>\<open>start\<close> of the service.\<close>

datatype start_entry = Start_Returned | Start_Awaits

definition internal_start_enter :: "DependencyRegister option \<Rightarrow> mgr \<Rightarrow> start_entry \<times> mgr" where
  "internal_start_enter deps m =
     (if m_state m \<noteq> INSTALLED \<or> (case deps of None \<Rightarrow> False | Some reg \<Rightarrow> \<not> allSatisfied reg)
      then (Start_Returned, m)
      else (Start_Awaits, m\<lparr>m_state := STARTING\<rparr>))"

definition internal_start_exit :: "bool \<Rightarrow> mgr \<Rightarrow> StartBehaviour \<times> mgr" where
  "internal_start_exit outcome m =
     (if \<not> outcome then (STOPPED, m\<lparr>m_state := INSTALLED\<rparr>)
      else (DONE, m\<lparr>m_state := INJECTING\<rparr>))"

definition internal_stop_enter :: "mgr \<Rightarrow> mgr option" where
  "internal_stop_enter m =
     (if m_state m \<noteq> UNINJECTING then None else Some (m\<lparr>m_state := STOPPING\<rparr>))"

definition internal_stop_exit :: "mgr \<Rightarrow> StartBehaviour \<times> mgr" where
  "internal_stop_exit m = (DONE, m\<lparr>m_state := INSTALLED\<rparr>)"

definition setInjected :: "mgr \<Rightarrow> bool \<times> mgr" where
  "setInjected m = (if m_state m \<noteq> INJECTING then (False, m) else (True, m\<lparr>m_state := ACTIVE\<rparr>))"

definition setUninjected :: "mgr \<Rightarrow> bool \<times> mgr" where
  "setUninjected m = (if m_state m \<noteq> ACTIVE then (False, m) else (True, m\<lparr>m_state := UNINJECTING\<rparr>))"

section \<open>Starting and stopping through a manager\<close>

definition start_enter :: "mgr \<Rightarrow> (start_entry \<times> mgr) option" where
  "start_enter m =
     (case m_kind m of
        Dependency_Manager \<Rightarrow> Some (internal_start_enter (Some (m_registry m)) m)
      | Plain_Manager \<Rightarrow> Some (internal_start_enter None m)
      | Internal_Manager \<Rightarrow> Some (Start_Returned, m\<lparr>m_state := ACTIVE\<rparr>)
      | Self_Manager \<Rightarrow> None)"

definition startAfterDependencyOnline_enter :: "mgr \<Rightarrow> (start_entry \<times> mgr) option" where
  "startAfterDependencyOnline_enter m =
     (if m_kind m = Internal_Manager \<or> m_kind m = Self_Manager then None
      else Some (internal_start_enter None m))"

definition after_online_result :: "StartBehaviour \<Rightarrow> StartBehaviour" where
  "after_online_result sb = (if sb = DONE then STARTED else sb)"

definition stop_enter :: "mgr \<Rightarrow> mgr option" where
  "stop_enter m =
     (case m_kind m of
        Internal_Manager \<Rightarrow> Some (m\<lparr>m_state := INSTALLED\<rparr>)
      | Self_Manager \<Rightarrow> None
      | _ \<Rightarrow> internal_stop_enter m)"

section \<open>Handing a dependency over\<close>

definition provides :: "mgr \<Rightarrow> type_hash \<Rightarrow> bool" where
  "provides p h = list_ex (\<lambda>i. interfaceNameHash i = h) (m_interfaces p)"

definition call_instance :: "(type_hash \<Rightarrow> service_id \<Rightarrow> injection_call) \<Rightarrow> type_hash \<Rightarrow> mgr \<Rightarrow> mgr \<Rightarrow> mgr" where
  "call_instance mk h p c =
     (if provides p h then c\<lparr>m_calls := m_calls c @ [mk h (m_id p)]\<rparr> else c)"

definition insertSelfInto :: "type_hash \<Rightarrow> mgr \<Rightarrow> mgr \<Rightarrow> mgr \<times> mgr" where
  "insertSelfInto h p c =
     (case m_kind p of
        Internal_Manager \<Rightarrow>
          if h \<noteq> m_type p then (p, c)
          else (p\<lparr>m_dependees := ds_insert (m_id c) (m_dependees p)\<rparr>, call_instance Add_Instance h p c)
      | Self_Manager \<Rightarrow>
          if h \<noteq> m_type p then (p, c) else (p, call_instance Add_Instance h p c)
      | _ \<Rightarrow>
          if m_interfaces p = [] then (p, c)
          else (p\<lparr>m_dependees := ds_insert (m_id c) (m_dependees p)\<rparr>, call_instance Add_Instance h p c))"

definition removeSelfInto :: "type_hash \<Rightarrow> mgr \<Rightarrow> mgr \<Rightarrow> mgr \<times> mgr" where
  "removeSelfInto h p c =
     (case m_kind p of
        Internal_Manager \<Rightarrow>
          if h \<noteq> m_type p then (p, c)
          else (p\<lparr>m_dependees := ds_erase (m_id c) (m_dependees p)\<rparr>, call_instance Remove_Instance h p c)
      | Self_Manager \<Rightarrow>
          if h \<noteq> m_type p then (p, c) else (p, call_instance Remove_Instance h p c)
      | _ \<Rightarrow>
          if m_interfaces p = [] then (p, c)
          else (p\<lparr>m_dependees := ds_erase (m_id c) (m_dependees p)\<rparr>, call_instance Remove_Instance h p c))"

definition injectIntoSelfDoubleDispatch :: "type_hash \<Rightarrow> mgr \<Rightarrow> mgr \<Rightarrow> (mgr \<times> mgr) option" where
  "injectIntoSelfDoubleDispatch h c p =
     (case register_find (m_registry c) h of
        None \<Rightarrow> None
      | Some _ \<Rightarrow> (case insertSelfInto h p c of (p', c') \<Rightarrow> Some (c', p')))"

definition removeSelfIntoDoubleDispatch :: "type_hash \<Rightarrow> mgr \<Rightarrow> mgr \<Rightarrow> (mgr \<times> mgr) option" where
  "removeSelfIntoDoubleDispatch h c p =
     (case register_find (m_registry c) h of
        None \<Rightarrow> None
      | Some _ \<Rightarrow> (case removeSelfInto h p c of (p', c') \<Rightarrow> Some (c', p')))"

section \<open>A dependency comes online\<close>

fun online_loop :: "Dependency list \<Rightarrow> DependencyChange \<Rightarrow> mgr \<Rightarrow> mgr \<Rightarrow> (DependencyChange \<times> mgr \<times> mgr) option" where
  "online_loop [] interested c p = Some (interested, c, p)"
| "online_loop (iface # ifaces) interested c p =
     (case register_find_sat (m_registry c) (interfaceNameHash iface) False of
        None \<Rightarrow> online_loop ifaces interested c p
      | Some i \<Rightarrow>
          (let dep = reg_dep (m_registry c ! i);
               interested' = (if satisfied dep = 0 then FOUND else interested);
               c1 = c\<lparr>m_injected := ds_insert (m_id p) (m_injected c)\<rparr>
           in case injectIntoSelfDoubleDispatch (interfaceNameHash dep) c1 p of
                None \<Rightarrow> None
              | Some (c2, p') \<Rightarrow>
                  online_loop ifaces interested'
                    (c2\<lparr>m_registry := set_satisfied i u64_inc (m_registry c2)\<rparr>) p'))"

definition dependencyOnline :: "mgr \<Rightarrow> mgr \<Rightarrow> (StartBehaviour \<times> mgr \<times> mgr) option" where
  "dependencyOnline c p =
     (if m_kind c \<noteq> Dependency_Manager then Some (DONE, c, p)
      else if m_id p \<in> set (m_injected c) then Some (DONE, c, p)
      else case online_loop (m_interfaces p) NOT_FOUND c p of
             None \<Rightarrow> None
           | Some (interested, c', p') \<Rightarrow>
               Some (if interested = FOUND \<and> m_state c' \<le> INSTALLED \<and> allSatisfied (m_registry c')
                     then STARTED else DONE, c', p'))"

section \<open>A dependency goes offline\<close>

definition interestedInDependencyGoingOffline :: "mgr \<Rightarrow> mgr \<Rightarrow> nat list" where
  "interestedInDependencyGoingOffline c p =
     (if m_kind c \<noteq> Dependency_Manager then []
      else if m_id p \<notin> set (m_injected c) then []
      else if m_id p \<in> set (m_goingAway c) then []
      else List.map_filter (\<lambda>iface. register_find_sat (m_registry c) (interfaceNameHash iface) True)
             (m_interfaces p))"

datatype offline_wait = Await_Online | Await_Offline_Active | Await_Offline_Uninjecting

record offline_frame =
  of_rest :: "nat list"
  of_interested :: DependencyChange
  of_ret :: StartBehaviour

datatype offline_outcome =
    Off_Return StartBehaviour
  | Off_Suspend offline_wait bool offline_frame

datatype offline_stage = Stage_Next DependencyChange StartBehaviour | Stage_Await offline_wait bool

definition offline_after_wait :: "mgr \<Rightarrow> StartBehaviour \<Rightarrow> DependencyChange \<times> StartBehaviour" where
  "offline_after_wait c ret =
     (if m_state c = UNINJECTING then (FOUND_AND_STOP_ME, STOP_ME) else (FOUND, ret))"

definition offline_stop_check :: "bool \<Rightarrow> mgr \<Rightarrow> bool \<Rightarrow> DependencyChange \<Rightarrow> StartBehaviour \<Rightarrow> offline_stage" where
  "offline_stop_check hasWaiter c requiredDepWentAway interested ret =
     (if requiredDepWentAway \<and> interested \<noteq> FOUND_AND_STOP_ME \<and> (m_state c = ACTIVE \<or> m_state c = UNINJECTING)
      then if m_state c = ACTIVE then Stage_Await Await_Offline_Active (\<not> hasWaiter)
           else if hasWaiter then Stage_Await Await_Offline_Uninjecting False
           else (case offline_after_wait c ret of (i, r) \<Rightarrow> Stage_Next i r)
      else Stage_Next (if interested \<noteq> FOUND_AND_STOP_ME then FOUND else interested) ret)"

fun offline_loop :: "bool \<Rightarrow> nat list \<Rightarrow> DependencyChange \<Rightarrow> StartBehaviour \<Rightarrow> mgr \<Rightarrow> (offline_outcome \<times> mgr) option" where
  "offline_loop hasWaiter [] interested ret c = Some (Off_Return ret, c)"
| "offline_loop hasWaiter (i # is) interested ret c =
     (let c1 = c\<lparr>m_registry := set_satisfied i u64_dec (m_registry c)\<rparr>;
          dep = reg_dep (m_registry c1 ! i);
          requiredDepWentAway = (has_flag (flags dep) REQUIRED \<and> satisfied dep = 0)
      in if satisfied dep = 2 ^ 64 - 1 then None
         else if requiredDepWentAway \<and> (m_state c1 = STARTING \<or> m_state c1 = INJECTING)
         then Some (Off_Suspend Await_Online False \<lparr>of_rest = is, of_interested = interested, of_ret = ret\<rparr>, c1)
         else case offline_stop_check hasWaiter c1 requiredDepWentAway interested ret of
                Stage_Next interested' ret' \<Rightarrow> offline_loop hasWaiter is interested' ret' c1
              | Stage_Await w push \<Rightarrow>
                  Some (Off_Suspend w push \<lparr>of_rest = is, of_interested = interested, of_ret = ret\<rparr>, c1))"

definition dependencyOffline :: "bool \<Rightarrow> mgr \<Rightarrow> mgr \<Rightarrow> nat list \<Rightarrow> (offline_outcome \<times> mgr) option" where
  "dependencyOffline hasWaiter c p deps =
     (if m_kind c \<noteq> Dependency_Manager then None
      else offline_loop hasWaiter deps NOT_FOUND DONE
             (c\<lparr>m_goingAway := ds_insert (m_id p) (m_goingAway c)\<rparr>))"

definition dependencyOffline_resume ::
  "bool \<Rightarrow> mgr \<Rightarrow> offline_wait \<Rightarrow> offline_frame \<Rightarrow> (offline_outcome \<times> mgr) option" where
  "dependencyOffline_resume hasWaiter c w fr =
     (case w of
        Await_Online \<Rightarrow>
          if m_state c \<noteq> ACTIVE then None
          else (case offline_stop_check hasWaiter c True (of_interested fr) (of_ret fr) of
                  Stage_Next i r \<Rightarrow> offline_loop hasWaiter (of_rest fr) i r c
                | Stage_Await w' push \<Rightarrow> Some (Off_Suspend w' push fr, c))
      | Await_Offline_Active \<Rightarrow>
          if m_dependees c \<noteq> [] then None
          else (case offline_after_wait c (of_ret fr) of
                  (i, r) \<Rightarrow> offline_loop hasWaiter (of_rest fr) i r c)
      | Await_Offline_Uninjecting \<Rightarrow>
          (case offline_after_wait c (of_ret fr) of
             (i, r) \<Rightarrow> offline_loop hasWaiter (of_rest fr) i r c))"

fun finish_loop :: "nat list \<Rightarrow> mgr \<Rightarrow> mgr \<Rightarrow> (mgr \<times> mgr) option" where
  "finish_loop [] c p = Some (c, p)"
| "finish_loop (i # is) c p =
     (case removeSelfIntoDoubleDispatch (interfaceNameHash (reg_dep (m_registry c ! i))) c p of
        None \<Rightarrow> None
      | Some (c', p') \<Rightarrow> finish_loop is c' p')"

definition finishDependencyOffline :: "mgr \<Rightarrow> mgr \<Rightarrow> nat list \<Rightarrow> (mgr \<times> mgr) option" where
  "finishDependencyOffline c p deps =
     (if m_kind c \<noteq> Dependency_Manager then None
      else case finish_loop deps c p of
             None \<Rightarrow> None
           | Some (c', p') \<Rightarrow>
               Some (c'\<lparr>m_goingAway := ds_erase (m_id p) (m_goingAway c'),
                        m_injected := ds_erase (m_id p) (m_injected c')\<rparr>, p'))"

section \<open>Filters\<close>

definition any_matches :: "any_value option \<Rightarrow> type_hash \<Rightarrow> nat \<Rightarrow> bool \<Rightarrow> bool" where
  "any_matches propVal ty val missingOk =
     (case propVal of
        Some (Any_Other ty' v) \<Rightarrow> if ty' \<noteq> ty then missingOk else v = val
      | _ \<Rightarrow> missingOk)"

fun filter_compareTo :: "filter_entry \<Rightarrow> mgr \<Rightarrow> bool" where
  "filter_compareTo (PropertiesFilterEntry key ty val missingOk) m =
     any_matches (dm_find key (m_properties m)) ty val missingOk"
| "filter_compareTo (DependencyPropertiesFilterEntry depT key ty val missingOk) m =
     (case getDependencyRegistry m of
        None \<Rightarrow> missingOk
      | Some reg \<Rightarrow>
          (case register_find reg depT of
             None \<Rightarrow> missingOk
           | Some i \<Rightarrow>
               (case reg_props (reg ! i) of
                  None \<Rightarrow> missingOk
                | Some props \<Rightarrow> any_matches (dm_find key props) ty val missingOk)))"
| "filter_compareTo (ServiceIdFilterEntry sid) m = (m_id m = sid)"

section \<open>The lifecycle as a state machine\<close>

inductive lifecycle_edge :: "ServiceState \<Rightarrow> ServiceState \<Rightarrow> bool" where
  edge_start: "lifecycle_edge INSTALLED STARTING"
| edge_started: "lifecycle_edge STARTING INJECTING"
| edge_start_failed: "lifecycle_edge STARTING INSTALLED"
| edge_injected: "lifecycle_edge INJECTING ACTIVE"
| edge_uninject: "lifecycle_edge ACTIVE UNINJECTING"
| edge_stop: "lifecycle_edge UNINJECTING STOPPING"
| edge_stopped: "lifecycle_edge STOPPING INSTALLED"

inductive_cases edge_into_active: "lifecycle_edge s ACTIVE"
inductive_cases edge_into_stopping: "lifecycle_edge s STOPPING"

text \<open>
  The contract the dependency manager relies on when it injects and uninjects a service, and its
  extension by starting and stopping. \<^verbatim>\<open>start\<close> and \<^verbatim>\<open>stop\<close> appear as the two halves around their
  suspension; the second halves are only ever entered from the state the first halves leave.
\<close>

locale injectable =
  fixes state :: "'m \<Rightarrow> ServiceState"
    and set_injected :: "'m \<Rightarrow> bool \<times> 'm"
    and set_uninjected :: "'m \<Rightarrow> bool \<times> 'm"
  assumes injected_law: "set_injected m = (b, m') \<Longrightarrow>
      (b \<longleftrightarrow> state m = INJECTING) \<and> (if b then state m' = ACTIVE else m' = m)"
    and uninjected_law: "set_uninjected m = (b, m') \<Longrightarrow>
      (b \<longleftrightarrow> state m = ACTIVE) \<and> (if b then state m' = UNINJECTING else m' = m)"
begin

lemma injected_edge: "set_injected m = (True, m') \<Longrightarrow> lifecycle_edge (state m) (state m')"
  using injected_law [of m True m'] by (auto intro: lifecycle_edge.intros)

lemma uninjected_edge: "set_uninjected m = (True, m') \<Longrightarrow> lifecycle_edge (state m) (state m')"
  using uninjected_law [of m True m'] by (auto intro: lifecycle_edge.intros)

lemma injected_once: "set_injected m = (b, m') \<Longrightarrow> set_injected m' = (c, m'') \<Longrightarrow> c = False"
  using injected_law [of m b m'] injected_law [of m' c m''] by (cases b) auto

end

locale startable = injectable +
  fixes start_in :: "'m \<Rightarrow> start_entry \<times> 'm"
    and start_out :: "bool \<Rightarrow> 'm \<Rightarrow> StartBehaviour \<times> 'm"
    and stop_in :: "'m \<Rightarrow> 'm option"
    and stop_out :: "'m \<Rightarrow> StartBehaviour \<times> 'm"
  assumes start_in_law: "start_in m = (e, m') \<Longrightarrow>
      (if e = Start_Awaits then state m = INSTALLED \<and> state m' = STARTING else m' = m)"
    and start_out_law: "start_out ok m = (sb, m') \<Longrightarrow>
      (if ok then sb = DONE \<and> state m' = INJECTING else sb = STOPPED \<and> state m' = INSTALLED)"
    and stop_in_law: "stop_in m = Some m' \<Longrightarrow> state m = UNINJECTING \<and> state m' = STOPPING"
    and stop_out_law: "stop_out m = (sb, m') \<Longrightarrow> sb = DONE \<and> state m' = INSTALLED"
begin

lemma start_edges:
  assumes "start_in m = (Start_Awaits, m1)" and "start_out ok m1' = (sb, m2)" and "state m1' = state m1"
  shows "lifecycle_edge (state m) (state m1)" and "lifecycle_edge (state m1') (state m2)"
  using start_in_law [OF assms(1)] start_out_law [OF assms(2)] assms(3)
  by (auto intro: lifecycle_edge.intros split: if_splits)

lemma stop_edges:
  assumes "stop_in m = Some m1" and "stop_out m1' = (sb, m2)" and "state m1' = state m1"
  shows "lifecycle_edge (state m) (state m1)" and "lifecycle_edge (state m1') (state m2)"
  using stop_in_law [OF assms(1)] stop_out_law [OF assms(2)] assms(3)
  by (auto intro: lifecycle_edge.intros)

lemma full_cycle:
  assumes "start_in m0 = (Start_Awaits, m1)" and "start_out True m1 = (sb, m2)"
    and "set_injected m2 = (b, m3)" and "set_uninjected m3 = (b', m4)" and "stop_in m4 = Some m5"
    and "stop_out m5 = (sb', m6)"
  shows "b \<and> b' \<and> state m3 = ACTIVE \<and> state m6 = state m0"
  using start_in_law [OF assms(1)] start_out_law [OF assms(2)] injected_law [OF assms(3)]
    uninjected_law [OF assms(4)] stop_out_law [OF assms(6)]
  by auto

end

interpretation injection: injectable m_state setInjected setUninjected
proof
  show "\<And>m b m'. setInjected m = (b, m') \<Longrightarrow>
      (b \<longleftrightarrow> m_state m = INJECTING) \<and> (if b then m_state m' = ACTIVE else m' = m)"
    by (simp add: setInjected_def split: if_splits)
  show "\<And>m b m'. setUninjected m = (b, m') \<Longrightarrow>
      (b \<longleftrightarrow> m_state m = ACTIVE) \<and> (if b then m_state m' = UNINJECTING else m' = m)"
    by (simp add: setUninjected_def split: if_splits)
qed

interpretation service: startable m_state setInjected setUninjected
  "internal_start_enter deps" internal_start_exit internal_stop_enter internal_stop_exit for deps
proof
  show "\<And>m e m'. internal_start_enter deps m = (e, m') \<Longrightarrow>
      (if e = Start_Awaits then m_state m = INSTALLED \<and> m_state m' = STARTING else m' = m)"
    by (simp add: internal_start_enter_def split: if_splits)
  show "\<And>ok m sb m'. internal_start_exit ok m = (sb, m') \<Longrightarrow>
      (if ok then sb = DONE \<and> m_state m' = INJECTING else sb = STOPPED \<and> m_state m' = INSTALLED)"
    by (simp add: internal_start_exit_def split: if_splits)
  show "\<And>m m'. internal_stop_enter m = Some m' \<Longrightarrow> m_state m = UNINJECTING \<and> m_state m' = STOPPING"
    by (auto simp: internal_stop_enter_def split: if_splits)
  show "\<And>m sb m'. internal_stop_exit m = (sb, m') \<Longrightarrow> sb = DONE \<and> m_state m' = INSTALLED"
    by (simp add: internal_stop_exit_def)
qed

section \<open>What injection does to the register\<close>

definition reg_hash :: "registration \<Rightarrow> type_hash" where
  "reg_hash r = interfaceNameHash (reg_dep r)"

definition reg_distinct :: "DependencyRegister \<Rightarrow> bool" where
  "reg_distinct reg = distinct (map reg_hash reg)"

definition accepts :: "registration \<Rightarrow> bool" where
  "accepts r = (has_flag (flags (reg_dep r)) ALLOW_MULTIPLE \<or> satisfied (reg_dep r) = 0)"

definition bump :: "(nat \<Rightarrow> nat) \<Rightarrow> registration \<Rightarrow> registration" where
  "bump f r = r\<lparr>reg_dep := (reg_dep r)\<lparr>satisfied := f (satisfied (reg_dep r))\<rparr>\<rparr>"

definition bump_where :: "(registration \<Rightarrow> bool) \<Rightarrow> (nat \<Rightarrow> nat) \<Rightarrow> DependencyRegister \<Rightarrow> DependencyRegister" where
  "bump_where P f reg = map (\<lambda>r. if P r then bump f r else r) reg"

definition interface_hashes :: "mgr \<Rightarrow> type_hash set" where
  "interface_hashes p = interfaceNameHash ` set (m_interfaces p)"

lemma bump_simps [simp]:
  "reg_hash (bump f r) = reg_hash r"
  "flags (reg_dep (bump f r)) = flags (reg_dep r)"
  "satisfied (reg_dep (bump f r)) = f (satisfied (reg_dep r))"
  "reg_props (bump f r) = reg_props r"
  by (simp_all add: bump_def reg_hash_def)

lemma set_satisfied_bump:
  "set_satisfied i f reg = (if i < length reg then reg[i := bump f (reg ! i)] else reg)"
  by (simp add: set_satisfied_def bump_def)

lemma reg_distinct_nth:
  "reg_distinct reg \<Longrightarrow> i < length reg \<Longrightarrow> j < length reg \<Longrightarrow> reg_hash (reg ! i) = reg_hash (reg ! j) \<longleftrightarrow> i = j"
  by (simp add: reg_distinct_def distinct_conv_nth) metis

lemma map_reg_hash_bump_where [simp]: "map reg_hash (bump_where P f reg) = map reg_hash reg"
  by (simp add: bump_where_def)

lemma reg_distinct_bump_where [simp]: "reg_distinct (bump_where P f reg) = reg_distinct reg"
  by (simp add: reg_distinct_def)

lemma set_satisfied_bump_where:
  assumes "reg_distinct reg" and "i < length reg" and "P (reg ! i)" and "reg_hash (reg ! i) = h"
  shows "set_satisfied i f reg = bump_where (\<lambda>r. reg_hash r = h \<and> P r) f reg"
  using assms reg_distinct_nth [OF assms(1)]
  by (intro nth_equalityI) (auto simp: set_satisfied_bump bump_where_def nth_list_update)

lemma find_sat_False:
  "register_find_sat reg h False = Some i \<Longrightarrow> i < length reg \<and> reg_hash (reg ! i) = h \<and> accepts (reg ! i)"
  by (auto simp: register_find_sat_def find_index_Some dep_matches_def reg_hash_def accepts_def)

lemma find_sat_False_None:
  "register_find_sat reg h False = None \<longleftrightarrow> (\<forall>r \<in> set reg. \<not> (reg_hash r = h \<and> accepts r))"
  by (auto simp: register_find_sat_def find_index_None dep_matches_def reg_hash_def accepts_def)

lemma bump_where_none: "(\<And>r. r \<in> set reg \<Longrightarrow> \<not> P r) \<Longrightarrow> bump_where P f reg = reg"
  by (simp add: bump_where_def map_idI)

lemma bump_where_cong: "(\<And>r. r \<in> set reg \<Longrightarrow> P r = Q r) \<Longrightarrow> bump_where P f reg = bump_where Q f reg"
  by (simp add: bump_where_def)

lemma register_find_hash: "i < length reg \<Longrightarrow> \<exists>j. register_find reg (reg_hash (reg ! i)) = Some j"
  by (cases "register_find reg (reg_hash (reg ! i))")
    (auto simp: register_find_def find_index_None reg_hash_def)

lemma mgr_same_fields [simp]:
  "(m :: mgr)\<lparr>m_dependees := m_dependees m\<rparr> = m" "(m :: mgr)\<lparr>m_calls := m_calls m\<rparr> = m"
  by simp_all

lemma mgr_update_inj [simp]:
  "(m :: mgr)\<lparr>m_dependees := a\<rparr> = m\<lparr>m_dependees := b\<rparr> \<longleftrightarrow> a = b"
  "(m :: mgr)\<lparr>m_calls := cs\<rparr> = m\<lparr>m_calls := ds\<rparr> \<longleftrightarrow> cs = ds"
  by (cases m, simp)+

lemma insertSelfInto_fields:
  assumes "insertSelfInto h p c = (p', c')"
  shows "p' = p\<lparr>m_dependees := m_dependees p'\<rparr> \<and> c' = c\<lparr>m_calls := m_calls c'\<rparr>"
  using assms
  by (auto simp: insertSelfInto_def call_instance_def split: manager_kind.splits if_splits)

definition hands_over :: "mgr \<Rightarrow> bool" where
  "hands_over p = ((m_kind p = Dependency_Manager \<or> m_kind p = Plain_Manager) \<and> m_interfaces p \<noteq> [])"

lemma insertSelfInto_hands_over:
  "hands_over p \<Longrightarrow> provides p h \<Longrightarrow>
   insertSelfInto h p c = (p\<lparr>m_dependees := ds_insert (m_id c) (m_dependees p)\<rparr>,
                           c\<lparr>m_calls := m_calls c @ [Add_Instance h (m_id p)]\<rparr>)"
  by (auto simp: insertSelfInto_def hands_over_def call_instance_def)

lemma inject_total:
  assumes "i < length (m_registry c)" and "reg_hash (m_registry c ! i) = h"
  obtains ds cs where "injectIntoSelfDoubleDispatch h c p = Some (c\<lparr>m_calls := cs\<rparr>, p\<lparr>m_dependees := ds\<rparr>)"
    and "hands_over p \<Longrightarrow> provides p h \<Longrightarrow>
         ds = ds_insert (m_id c) (m_dependees p) \<and> cs = m_calls c @ [Add_Instance h (m_id p)]"
proof -
  obtain j where "register_find (m_registry c) h = Some j"
    using register_find_hash assms by metis
  moreover obtain p' c' where "insertSelfInto h p c = (p', c')" by fastforce
  moreover from this obtain ds cs where "p' = p\<lparr>m_dependees := ds\<rparr>" "c' = c\<lparr>m_calls := cs\<rparr>"
    using insertSelfInto_fields by metis
  ultimately show thesis
    by (intro that [of cs ds]) (auto simp: injectIntoSelfDoubleDispatch_def insertSelfInto_hands_over)
qed

text \<open>The registrations an interface list reaches, and the closed form of the loop over them.\<close>

definition reached :: "Dependency list \<Rightarrow> registration \<Rightarrow> bool" where
  "reached ifs r = (reg_hash r \<in> interfaceNameHash ` set ifs \<and> accepts r)"

definition newly :: "Dependency list \<Rightarrow> registration \<Rightarrow> bool" where
  "newly ifs r = (reg_hash r \<in> interfaceNameHash ` set ifs \<and> satisfied (reg_dep r) = 0)"

definition online_calls :: "Dependency list \<Rightarrow> DependencyRegister \<Rightarrow> service_id \<Rightarrow> injection_call list" where
  "online_calls ifs reg pid =
     map (\<lambda>f. Add_Instance (interfaceNameHash f) pid)
       (filter (\<lambda>f. list_ex (\<lambda>r. reg_hash r = interfaceNameHash f \<and> accepts r) reg) ifs)"

definition online_post :: "Dependency list \<Rightarrow> DependencyChange \<Rightarrow> mgr \<Rightarrow> mgr \<Rightarrow> DependencyChange \<times> mgr \<times> mgr \<Rightarrow> bool" where
  "online_post ifs start c p res =
     (case res of (i, c', p') \<Rightarrow>
        i = (if list_ex (newly ifs) (m_registry c) then FOUND else start) \<and>
        c' = c\<lparr>m_registry := bump_where (reached ifs) u64_inc (m_registry c),
               m_injected := (if list_ex (reached ifs) (m_registry c)
                              then ds_insert (m_id p) (m_injected c) else m_injected c),
               m_calls := m_calls c'\<rparr> \<and>
        p' = p\<lparr>m_dependees := m_dependees p'\<rparr>)"

definition online_handover :: "Dependency list \<Rightarrow> mgr \<Rightarrow> mgr \<Rightarrow> DependencyChange \<times> mgr \<times> mgr \<Rightarrow> bool" where
  "online_handover ifs c p res =
     (case res of (i, c', p') \<Rightarrow>
        hands_over p \<and> list_all (\<lambda>f. provides p (interfaceNameHash f)) ifs \<longrightarrow>
        m_dependees p' = (if list_ex (reached ifs) (m_registry c)
                          then ds_insert (m_id c) (m_dependees p) else m_dependees p) \<and>
        m_calls c' = m_calls c @ online_calls ifs (m_registry c) (m_id p))"

lemma ds_insert_idem [simp]: "ds_insert x (ds_insert x xs) = ds_insert x xs"
  by (simp add: ds_insert_def)

lemma reached_Cons_other:
  "reg_hash r \<noteq> interfaceNameHash f \<Longrightarrow> reached (f # ifs) r = reached ifs r"
  "reg_hash r \<noteq> interfaceNameHash f \<Longrightarrow> newly (f # ifs) r = newly ifs r"
  by (auto simp: reached_def newly_def)

lemma reached_step:
  assumes "interfaceNameHash f \<notin> interfaceNameHash ` set ifs"
  shows "bump_where (reached ifs) g (bump_where (\<lambda>r. reg_hash r = interfaceNameHash f \<and> accepts r) g reg)
       = bump_where (reached (f # ifs)) g reg"
    and "list_ex (newly ifs) (bump_where (\<lambda>r. reg_hash r = interfaceNameHash f \<and> accepts r) g reg)
       = list_ex (newly ifs) reg"
  using assms by (auto simp: bump_where_def reached_def newly_def list_ex_iff)

lemma online_calls_step:
  assumes "interfaceNameHash f \<notin> interfaceNameHash ` set ifs"
  shows "online_calls ifs (bump_where (\<lambda>r. reg_hash r = interfaceNameHash f \<and> accepts r) g reg) pid
       = online_calls ifs reg pid"
proof -
  let ?P = "\<lambda>r. reg_hash r = interfaceNameHash f \<and> accepts r"
  have "list_ex (\<lambda>r. reg_hash r = interfaceNameHash k \<and> accepts r) (bump_where ?P g reg)
        = list_ex (\<lambda>r. reg_hash r = interfaceNameHash k \<and> accepts r) reg" if "k \<in> set ifs" for k
  proof -
    have "interfaceNameHash k \<noteq> interfaceNameHash f" using that assms by (metis image_eqI)
    then have "(reg_hash (if ?P r then bump g r else r) = interfaceNameHash k \<and> accepts (if ?P r then bump g r else r))
      = (reg_hash r = interfaceNameHash k \<and> accepts r)" for r
      by simp
    then show ?thesis by (induction reg) (simp_all add: bump_where_def)
  qed
  then show ?thesis by (simp add: online_calls_def cong: filter_cong)
qed

lemma newly_Cons_at:
  assumes "reg_distinct reg" and "i < length reg" and "reg_hash (reg ! i) = interfaceNameHash f"
  shows "list_ex (newly (f # ifs)) reg \<longleftrightarrow> satisfied (reg_dep (reg ! i)) = 0 \<or> list_ex (newly ifs) reg"
proof -
  have "r = reg ! i" if "r \<in> set reg" "reg_hash r = interfaceNameHash f" for r
    using that assms reg_distinct_nth [OF assms(1)] by (metis in_set_conv_nth)
  then show ?thesis using assms nth_mem [OF assms(2)]
    by (auto simp: list_ex_iff newly_def)
qed

lemma online_loop_post:
  assumes "reg_distinct (m_registry c)" and "distinct (map interfaceNameHash ifs)"
  shows "\<exists>res. online_loop ifs start c p = Some res \<and> online_post ifs start c p res \<and> online_handover ifs c p res"
  using assms
proof (induction ifs arbitrary: start c p)
  case Nil
  have "\<not> list_ex (reached []) reg \<and> \<not> list_ex (newly []) reg" for reg
    by (simp add: reached_def newly_def list_ex_iff)
  then show ?case
    by (simp add: online_post_def online_handover_def online_calls_def bump_where_none reached_def)
next
  case (Cons f ifs)
  let ?h = "interfaceNameHash f" let ?reg = "m_registry c"
  have fresh: "?h \<notin> interfaceNameHash ` set ifs" and ds: "distinct (map interfaceNameHash ifs)"
    using Cons.prems(2) by auto
  show ?case
  proof (cases "register_find_sat ?reg ?h False")
    case None
    then have no: "\<forall>r \<in> set ?reg. \<not> (reg_hash r = ?h \<and> accepts r)" by (simp add: find_sat_False_None)
    then have same: "\<forall>r \<in> set ?reg. reached (f # ifs) r = reached ifs r \<and> newly (f # ifs) r = newly ifs r"
      by (auto simp: reached_def newly_def accepts_def)
    then have "online_post (f # ifs) start c p = online_post ifs start c p"
      by (simp add: online_post_def list_ex_iff fun_eq_iff cong: bump_where_cong)
    moreover have "online_handover ifs c p res \<Longrightarrow> online_handover (f # ifs) c p res" for res
      using no same by (auto simp: online_handover_def online_calls_def list_ex_iff split: prod.splits)
    ultimately show ?thesis using Cons.IH [OF Cons.prems(1) ds] None by fastforce
  next
    case (Some i)
    then have i: "i < length ?reg" "reg_hash (?reg ! i) = ?h" "accepts (?reg ! i)"
      using find_sat_False by blast+
    let ?c1 = "c\<lparr>m_injected := ds_insert (m_id p) (m_injected c)\<rparr>"
    obtain ds cs where inj: "injectIntoSelfDoubleDispatch ?h ?c1 p = Some (?c1\<lparr>m_calls := cs\<rparr>, p\<lparr>m_dependees := ds\<rparr>)"
      and ho: "hands_over p \<Longrightarrow> provides p ?h \<Longrightarrow>
         ds = ds_insert (m_id ?c1) (m_dependees p) \<and> cs = m_calls ?c1 @ [Add_Instance ?h (m_id p)]"
      by (rule inject_total [of i ?c1 ?h p]) (use i in simp_all)
    define reg1 where "reg1 = bump_where (\<lambda>r. reg_hash r = ?h \<and> accepts r) u64_inc ?reg"
    have reg1: "set_satisfied i u64_inc ?reg = reg1"
      unfolding reg1_def using i Cons.prems(1) by (intro set_satisfied_bump_where)
    define c3 where "c3 = ?c1\<lparr>m_calls := cs, m_registry := reg1\<rparr>"
    define st where "st = (if satisfied (reg_dep (?reg ! i)) = 0 then FOUND else start)"
    have run: "online_loop (f # ifs) start c p = online_loop ifs st c3 (p\<lparr>m_dependees := ds\<rparr>)"
      using Some inj i reg1 by (simp add: c3_def st_def reg_hash_def Let_def)
    have "reg_distinct (m_registry c3)" using Cons.prems(1) by (simp add: c3_def reg1_def)
    then obtain res where res: "online_loop ifs st c3 (p\<lparr>m_dependees := ds\<rparr>) = Some res"
      "online_post ifs st c3 (p\<lparr>m_dependees := ds\<rparr>) res"
      "online_handover ifs c3 (p\<lparr>m_dependees := ds\<rparr>) res" using Cons.IH ds by blast
    have ex: "list_ex (reached (f # ifs)) ?reg"
      using i nth_mem [OF i(1)] by (auto simp: list_ex_iff reached_def)
    have calls: "online_calls (f # ifs) ?reg pid = Add_Instance ?h pid # online_calls ifs reg1 pid" for pid
      using i nth_mem [OF i(1)] online_calls_step [OF fresh, of u64_inc ?reg pid]
      by (auto simp: online_calls_def reg1_def list_ex_iff)
    have "online_post (f # ifs) start c p res"
      using res(2) ex newly_Cons_at [OF Cons.prems(1) i(1,2)] reached_step [OF fresh]
      by (auto simp: online_post_def c3_def reg1_def st_def split: prod.splits if_splits)
    moreover have "online_handover (f # ifs) c p res"
    proof -
      have "hands_over (p\<lparr>m_dependees := ds\<rparr>) = hands_over p" "provides (p\<lparr>m_dependees := ds\<rparr>) = provides p"
        by (simp_all add: hands_over_def provides_def fun_eq_iff)
      then show ?thesis using res(3) ex ho calls
        by (cases res) (simp add: online_handover_def c3_def)
    qed
    ultimately show ?thesis using run res(1) by simp
  qed
qed

end
