(* ===== verification/Injection_Properties.thy ===== *)
theory Injection_Properties
  imports Lifecycle_Manager
begin

text \<open>
  What injecting a dependency and taking it away do to a consumer: the bookkeeping of
  \<^verbatim>\<open>DependencyLifecycleManager\<close>. The main facts are the exact effect of \<^verbatim>\<open>dependencyOnline\<close> on the
  register, that \<^verbatim>\<open>dependencyOffline\<close> followed by \<^verbatim>\<open>finishDependencyOffline\<close> undoes it, and an
  execution in which the count of an interface loses track of the services that provide it.
\<close>

section \<open>Going offline without a suspension\<close>

definition at_hashes :: "nat list \<Rightarrow> DependencyRegister \<Rightarrow> registration \<Rightarrow> bool" where
  "at_hashes is reg r = (reg_hash r \<in> (\<lambda>i. reg_hash (reg ! i)) ` set is)"

definition quietly :: "mgr \<Rightarrow> registration \<Rightarrow> bool" where
  "quietly c r = (0 < satisfied (reg_dep r) \<and> satisfied (reg_dep r) < 2 ^ 64 \<and>
                  (has_flag (flags (reg_dep r)) REQUIRED \<longrightarrow> m_state c = INSTALLED))"

lemma offline_loop_quiet:
  assumes "reg_distinct (m_registry c)" and "distinct is"
    and "\<forall>i \<in> set is. i < length (m_registry c) \<and> quietly c (m_registry c ! i)"
  shows "offline_loop hw is interested ret c =
    Some (Off_Return ret, c\<lparr>m_registry := bump_where (at_hashes is (m_registry c)) u64_dec (m_registry c)\<rparr>)"
  using assms
proof (induction "is" arbitrary: interested c)
  case Nil
  then show ?case by (simp add: at_hashes_def bump_where_none)
next
  case (Cons i js)
  let ?reg = "m_registry c" let ?r = "?reg ! i"
  let ?reg1 = "bump_where (\<lambda>r. reg_hash r = reg_hash ?r \<and> True) u64_dec ?reg"
  let ?c1 = "c\<lparr>m_registry := ?reg1\<rparr>"
  have i: "i < length ?reg" "quietly c ?r" using Cons.prems(3) by auto
  have reg1: "set_satisfied i u64_dec ?reg = ?reg1"
    using i Cons.prems(1) by (intro set_satisfied_bump_where) auto
  have nth: "?reg1 ! j = (if j = i then bump u64_dec ?r else ?reg ! j)" if "j < length ?reg" for j
    using that i reg_distinct_nth [OF Cons.prems(1), of j i] by (simp add: bump_where_def)
  have dep: "satisfied (reg_dep (?reg1 ! i)) = satisfied (reg_dep ?r) - 1"
    "flags (reg_dep (?reg1 ! i)) = flags (reg_dep ?r)"
    using i nth [OF i(1)] by (simp_all add: quietly_def)
  have len: "length ?reg1 = length ?reg" by (simp add: bump_where_def)
  have rest: "\<forall>j \<in> set js. j < length (m_registry ?c1) \<and> quietly ?c1 (m_registry ?c1 ! j)"
    using Cons.prems(2,3) nth len by (auto simp: quietly_def)
  have "offline_loop hw (i # js) interested ret c =
      offline_loop hw js (if interested \<noteq> FOUND_AND_STOP_ME then FOUND else interested) ret ?c1"
    using i dep reg1 by (auto simp: Let_def quietly_def offline_stop_check_def)
  also have "\<dots> = Some (Off_Return ret, ?c1\<lparr>m_registry := bump_where (at_hashes js ?reg1) u64_dec ?reg1\<rparr>)"
    using Cons.IH [OF _ _ rest] Cons.prems(1,2) by simp
  also have "bump_where (at_hashes js ?reg1) u64_dec ?reg1 = bump_where (at_hashes (i # js) ?reg) u64_dec ?reg"
  proof -
    have hashes: "reg_hash (?reg1 ! j) = reg_hash (?reg ! j)" if "j \<in> set js" for j
      using that Cons.prems(3) nth by auto
    have "reg_hash ?r \<notin> (\<lambda>j. reg_hash (?reg ! j)) ` set js"
      using Cons.prems(2,3) reg_distinct_nth [OF Cons.prems(1) i(1)] by auto
    then show ?thesis using hashes
      by (auto simp: bump_where_def at_hashes_def)
  qed
  finally show ?case by simp
qed

lemma ds_erase_append [simp]: "x \<notin> set xs \<Longrightarrow> ds_erase x (xs @ [x]) = xs"
  by (induction xs) (auto simp: ds_erase_def)

lemma ds_erase_insert [simp]: "x \<notin> set xs \<Longrightarrow> ds_erase x (ds_insert x xs) = xs"
  by (simp add: ds_insert_def)

lemma ds_erase_twice: "distinct xs \<Longrightarrow> ds_erase x (ds_erase x xs) = ds_erase x xs"
  by (simp add: dense_simps)

lemma removeSelfInto_fields:
  obtains cs ds where "removeSelfInto h p c = (p\<lparr>m_dependees := ds\<rparr>, c\<lparr>m_calls := cs\<rparr>)"
    and "ds = m_dependees p \<or> ds = ds_erase (m_id c) (m_dependees p)"
    and "hands_over p \<Longrightarrow> ds = ds_erase (m_id c) (m_dependees p)"
proof -
  let ?r = "removeSelfInto h p c"
  have "?r = (p\<lparr>m_dependees := m_dependees (fst ?r)\<rparr>, c\<lparr>m_calls := m_calls (snd ?r)\<rparr>)"
    by (auto simp: removeSelfInto_def call_instance_def split: manager_kind.splits)
  moreover have "m_dependees (fst ?r) = m_dependees p \<or> m_dependees (fst ?r) = ds_erase (m_id c) (m_dependees p)"
    "hands_over p \<Longrightarrow> m_dependees (fst ?r) = ds_erase (m_id c) (m_dependees p)"
    by (auto simp: removeSelfInto_def hands_over_def split: manager_kind.splits)
  ultimately show thesis using that by blast
qed

lemma hands_over_update [simp]: "hands_over (p\<lparr>m_dependees := ds\<rparr>) = hands_over p"
  by (simp add: hands_over_def)

lemma finish_loop_total:
  assumes "\<forall>i \<in> set is. i < length (m_registry c)" and "distinct (m_dependees p)"
  shows "\<exists>cs ds. finish_loop is c p = Some (c\<lparr>m_calls := cs\<rparr>, p\<lparr>m_dependees := ds\<rparr>) \<and>
    (hands_over p \<longrightarrow> ds = (if is = [] then m_dependees p else ds_erase (m_id c) (m_dependees p)))"
  using assms
proof (induction "is" arbitrary: c p)
  case Nil
  have "finish_loop [] c p = Some (c\<lparr>m_calls := m_calls c\<rparr>, p\<lparr>m_dependees := m_dependees p\<rparr>)" by simp
  then show ?case by (metis (full_types))
next
  case (Cons i js)
  let ?h = "interfaceNameHash (reg_dep (m_registry c ! i))"
  obtain j where j: "register_find (m_registry c) ?h = Some j"
    using register_find_hash [of i "m_registry c"] Cons.prems(1) by (auto simp: reg_hash_def)
  obtain cs ds where rm: "removeSelfInto ?h p c = (p\<lparr>m_dependees := ds\<rparr>, c\<lparr>m_calls := cs\<rparr>)"
    and ds: "ds = m_dependees p \<or> ds = ds_erase (m_id c) (m_dependees p)"
      "hands_over p \<Longrightarrow> ds = ds_erase (m_id c) (m_dependees p)"
    using removeSelfInto_fields [of ?h p c] by blast
  have "distinct ds" using ds(1) Cons.prems(2) by (auto intro: dense_intros)
  then obtain cs' ds' where
    r: "finish_loop js (c\<lparr>m_calls := cs\<rparr>) (p\<lparr>m_dependees := ds\<rparr>) = Some (c\<lparr>m_calls := cs'\<rparr>, p\<lparr>m_dependees := ds'\<rparr>)"
    "hands_over p \<longrightarrow> ds' = (if js = [] then ds else ds_erase (m_id c) ds)"
    using Cons.IH [of "c\<lparr>m_calls := cs\<rparr>" "p\<lparr>m_dependees := ds\<rparr>"] Cons.prems by auto
  have "finish_loop (i # js) c p = Some (c\<lparr>m_calls := cs'\<rparr>, p\<lparr>m_dependees := ds'\<rparr>)"
    using j rm r(1) by (simp add: removeSelfIntoDoubleDispatch_def)
  moreover have "hands_over p \<longrightarrow> ds' = ds_erase (m_id c) (m_dependees p)"
    using r(2) ds(2) Cons.prems(2) by (auto simp: ds_erase_twice)
  ultimately show ?case by auto
qed

section \<open>Injecting and taking away again\<close>

lemma find_sat_unique:
  assumes "reg_distinct reg"
  shows "register_find_sat reg h sat = Some i \<longleftrightarrow> i < length reg \<and> dep_matches h sat (reg_dep (reg ! i))"
proof
  assume "i < length reg \<and> dep_matches h sat (reg_dep (reg ! i))"
  moreover from this have "j = i" if "j < length reg" "dep_matches h sat (reg_dep (reg ! j))" for j
    using that reg_distinct_nth [OF assms, of i j] by (simp add: dep_matches_def reg_hash_def)
  ultimately show "register_find_sat reg h sat = Some i"
    unfolding register_find_sat_def find_index_Some by (metis less_trans nat_neq_iff)
qed (auto simp: register_find_sat_def find_index_Some)

lemma leaving_deps:
  assumes "reg_distinct reg" and "distinct (map interfaceNameHash ifs)"
    and "\<forall>r \<in> set reg. reg_hash r \<in> interfaceNameHash ` set ifs \<longrightarrow> 0 < satisfied (reg_dep r)"
  defines "deps \<equiv> List.map_filter (\<lambda>f. register_find_sat reg (interfaceNameHash f) True) ifs"
  shows "distinct deps" and "\<forall>i \<in> set deps. i < length reg \<and> 0 < satisfied (reg_dep (reg ! i))"
    and "r \<in> set reg \<Longrightarrow> at_hashes deps reg r \<longleftrightarrow> reg_hash r \<in> interfaceNameHash ` set ifs"
proof -
  let ?H = "interfaceNameHash ` set ifs"
  have pos: "0 < satisfied (reg_dep (reg ! i))" if "i < length reg" "reg_hash (reg ! i) \<in> ?H" for i
    using assms(3) nth_mem that by blast
  have deps_iff: "i \<in> set deps \<longleftrightarrow> (\<exists>f \<in> set ifs. i < length reg \<and> dep_matches (interfaceNameHash f) True (reg_dep (reg ! i)))" for i
    by (simp add: deps_def in_set_map_filter find_sat_unique [OF assms(1)])
  have mem: "i \<in> set deps \<longleftrightarrow> i < length reg \<and> reg_hash (reg ! i) \<in> ?H" for i
  proof
    assume "i \<in> set deps"
    then show "i < length reg \<and> reg_hash (reg ! i) \<in> ?H"
      by (auto simp: deps_iff dep_matches_def reg_hash_def)
  next
    assume i: "i < length reg \<and> reg_hash (reg ! i) \<in> ?H"
    then obtain f where "f \<in> set ifs" "interfaceNameHash (reg_dep (reg ! i)) = interfaceNameHash f"
      by (auto simp: reg_hash_def)
    then show "i \<in> set deps" using i pos [of i] unfolding deps_iff dep_matches_def by blast
  qed
  show "\<forall>i \<in> set deps. i < length reg \<and> 0 < satisfied (reg_dep (reg ! i))"
    using mem pos by blast
  show "at_hashes deps reg r \<longleftrightarrow> reg_hash r \<in> ?H" if "r \<in> set reg"
  proof -
    obtain k where k: "k < length reg" "r = reg ! k" using \<open>r \<in> set reg\<close> unfolding in_set_conv_nth by blast
    show ?thesis
    proof
      assume "at_hashes deps reg r"
      then obtain i where "i \<in> set deps" "reg_hash r = reg_hash (reg ! i)"
        unfolding at_hashes_def by blast
      then show "reg_hash r \<in> ?H" using mem [of i] by simp
    next
      assume "reg_hash r \<in> ?H"
      then have "k \<in> set deps" using mem [of k] k by simp
      then show "at_hashes deps reg r" using k(2) unfolding at_hashes_def by blast
    qed
  qed
  have "map (\<lambda>i. reg_hash (reg ! i)) deps =
      map interfaceNameHash (filter (\<lambda>f. register_find_sat reg (interfaceNameHash f) True \<noteq> None) ifs)"
    unfolding deps_def
    by (rule map_map_filter) (simp add: find_sat_unique [OF assms(1)] dep_matches_def reg_hash_def)
  then have "distinct (map (\<lambda>i. reg_hash (reg ! i)) deps)"
    using assms(2) by (simp add: distinct_map_filter)
  then show "distinct deps" by (simp add: distinct_map)
qed

definition exclusive_offer :: "mgr \<Rightarrow> mgr \<Rightarrow> bool" where
  "exclusive_offer c p =
     (distinct (map interfaceNameHash (m_interfaces p)) \<and> reg_distinct (m_registry c) \<and>
      list_all (\<lambda>r. reg_hash r \<in> interface_hashes p \<longrightarrow> accepts r \<and> satisfied (reg_dep r) < 2 ^ 64 - 1)
        (m_registry c))"

lemma provides_all: "list_all (\<lambda>f. provides p (interfaceNameHash f)) (m_interfaces p)"
  by (auto simp: list_all_iff provides_def list_ex_iff)

lemma bump_inverse:
  "satisfied (reg_dep r) < 2 ^ 64 - 1 \<Longrightarrow> bump u64_dec (bump u64_inc r) = r"
  by (simp add: bump_def)

lemma offline_undoes_online:
  assumes "m_kind c1 = Dependency_Manager" and "m_state c1 = INSTALLED" and "hands_over p1"
    and "reg_distinct reg" and "distinct (map interfaceNameHash (m_interfaces p1))"
    and "\<forall>r \<in> set reg. reg_hash r \<in> interface_hashes p1 \<longrightarrow> accepts r \<and> satisfied (reg_dep r) < 2 ^ 64 - 1"
    and "m_registry c1 = bump_where (reached (m_interfaces p1)) u64_inc reg"
    and "m_id p1 \<in> set (m_injected c1)" and "m_id p1 \<notin> set (m_goingAway c1)"
    and "distinct (m_dependees p1)" and "list_ex (reached (m_interfaces p1)) reg"
  defines "deps \<equiv> interestedInDependencyGoingOffline c1 p1"
  shows "\<exists>cs. dependencyOffline hw c1 p1 deps =
      Some (Off_Return DONE, c1\<lparr>m_goingAway := ds_insert (m_id p1) (m_goingAway c1), m_registry := reg\<rparr>) \<and>
    finishDependencyOffline (c1\<lparr>m_goingAway := ds_insert (m_id p1) (m_goingAway c1), m_registry := reg\<rparr>) p1 deps =
      Some (c1\<lparr>m_goingAway := m_goingAway c1, m_registry := reg, m_calls := cs,
               m_injected := ds_erase (m_id p1) (m_injected c1)\<rparr>,
            p1\<lparr>m_dependees := ds_erase (m_id c1) (m_dependees p1)\<rparr>)"
proof -
  let ?ifs = "m_interfaces p1" let ?H = "interfaceNameHash ` set ?ifs"
  let ?reg1 = "bump_where (reached ?ifs) u64_inc reg"
  have hit: "reached ?ifs r \<longleftrightarrow> reg_hash r \<in> ?H" if "r \<in> set reg" for r
    using assms(6) that by (auto simp: reached_def interface_hashes_def)
  have reg1: "?reg1 = bump_where (\<lambda>r. reg_hash r \<in> ?H) u64_inc reg"
    using hit by (rule bump_where_cong)
  have pos: "0 < satisfied (reg_dep r) \<and> satisfied (reg_dep r) < 2 ^ 64" if "r \<in> set ?reg1" "reg_hash r \<in> ?H" for r
    using that assms(6) unfolding reg1 by (auto simp: bump_where_def interface_hashes_def split: if_splits)
  have deps: "deps = List.map_filter (\<lambda>f. register_find_sat ?reg1 (interfaceNameHash f) True) ?ifs"
    using assms(1,7-9) by (simp add: deps_def interestedInDependencyGoingOffline_def)
  have rd1: "reg_distinct ?reg1" using assms(4) by simp
  have "\<forall>r \<in> set ?reg1. reg_hash r \<in> ?H \<longrightarrow> 0 < satisfied (reg_dep r)" using pos by blast
  note l = leaving_deps [OF rd1 assms(5) this, folded deps]
  let ?g = "c1\<lparr>m_goingAway := ds_insert (m_id p1) (m_goingAway c1)\<rparr>"
  have bound: "satisfied (reg_dep (?reg1 ! i)) < 2 ^ 64" if "i \<in> set deps" for i
  proof -
    have "at_hashes deps ?reg1 (?reg1 ! i)" "?reg1 ! i \<in> set ?reg1"
      using that l(2) by (auto simp: at_hashes_def)
    then show ?thesis using pos l(3) by blast
  qed
  have "\<forall>i \<in> set deps. i < length (m_registry ?g) \<and> quietly ?g (m_registry ?g ! i)"
    using l(2) bound assms(2,7) by (simp add: quietly_def)
  then have run: "dependencyOffline hw c1 p1 deps = Some (Off_Return DONE,
      ?g\<lparr>m_registry := bump_where (at_hashes deps ?reg1) u64_dec ?reg1\<rparr>)"
    using offline_loop_quiet [of ?g deps hw NOT_FOUND DONE] l(1) rd1 assms(1,7)
    by (simp add: dependencyOffline_def)
  have "bump_where (at_hashes deps ?reg1) u64_dec ?reg1 = bump_where (\<lambda>r. reg_hash r \<in> ?H) u64_dec ?reg1"
    using l(3) by (rule bump_where_cong)
  also have "\<dots> = reg"
    using assms(6) unfolding reg1
    by (auto simp: bump_where_def interface_hashes_def bump_inverse intro!: map_idI)
  finally have undo: "bump_where (at_hashes deps ?reg1) u64_dec ?reg1 = reg" .
  have ne: "deps \<noteq> []"
  proof -
    obtain r where "r \<in> set reg" "reg_hash r \<in> ?H" using assms(11) hit by (auto simp: list_ex_iff)
    then have "bump u64_inc r \<in> set ?reg1" "reg_hash (bump u64_inc r) \<in> ?H"
      unfolding reg1 by (force simp: bump_where_def)+
    then show ?thesis using l(3) by (force simp: at_hashes_def)
  qed
  have "\<forall>i \<in> set deps. i < length (m_registry (?g\<lparr>m_registry := reg\<rparr>))"
    using l(2) by (auto simp: bump_where_def)
  then obtain cs where "finish_loop deps (?g\<lparr>m_registry := reg\<rparr>) p1 =
      Some (?g\<lparr>m_registry := reg, m_calls := cs\<rparr>, p1\<lparr>m_dependees := ds_erase (m_id c1) (m_dependees p1)\<rparr>)"
    using finish_loop_total [of deps "?g\<lparr>m_registry := reg\<rparr>" p1] assms(3,10) ne by auto
  then show ?thesis using run undo assms(1,9)
    by (intro exI [of _ cs]) (simp add: finishDependencyOffline_def)
qed


text \<open>A consumer with one required dependency and a service that provides it.\<close>

definition ex_consumer :: mgr where
  "ex_consumer = new_dependency_manager 5 50 [] (register_dependency 7 REQUIRED None []) []"

definition ex_provider :: mgr where
  "ex_provider = new_plain_manager 6 60 [7] []"

lemmas online_eval = dependencyOnline_def register_find_sat_def register_find_def dep_matches_def
  has_flag_def REQUIRED_def ALLOW_MULTIPLE_def FLAG_NONE_def injectIntoSelfDoubleDispatch_def
  insertSelfInto_def call_instance_def provides_def ds_insert_def set_satisfied_def allSatisfied_def
  less_eq_ServiceState_def

lemmas ex_defs = ex_consumer_def ex_provider_def new_dependency_manager_def new_plain_manager_def
  register_dependency_def interface_of_def

lemma ex_online:
  "dependencyOnline ex_consumer ex_provider =
   Some (STARTED,
     ex_consumer\<lparr>m_registry := [\<lparr>reg_dep = \<lparr>interfaceNameHash = 7, flags = REQUIRED, satisfied = 1\<rparr>, reg_props = None\<rparr>],
                 m_injected := [6], m_calls := [Add_Instance 7 6]\<rparr>,
     ex_provider\<lparr>m_dependees := [5]\<rparr>)"
  by (simp add: ex_defs online_eval)

lemma ex_hyps:
  "m_kind ex_consumer = Dependency_Manager" "m_state ex_consumer = INSTALLED" "hands_over ex_provider"
  "exclusive_offer ex_consumer ex_provider" "m_id ex_provider \<notin> set (m_injected ex_consumer)"
  "m_id ex_provider \<notin> set (m_goingAway ex_consumer)" "m_id ex_consumer \<notin> set (m_dependees ex_provider)"
  "distinct (m_dependees ex_provider)" "reg_distinct (m_registry ex_consumer)"
  "distinct (map interfaceNameHash (m_interfaces ex_provider))"
  by (simp_all add: ex_defs hands_over_def exclusive_offer_def reg_distinct_def accepts_def)




section \<open>Two providers that share an interface\<close>

text \<open>
  A consumer that takes any number of services for interface 1 and requires interface 2; service 11
  provides interface 2, service 12 provides both.
\<close>

definition sh_consumer :: mgr where
  "sh_consumer = new_dependency_manager 10 50 []
     (register_dependency 2 REQUIRED None (register_dependency 1 ALLOW_MULTIPLE None [])) []"

definition sh_first :: mgr where
  "sh_first = new_plain_manager 11 61 [2] []"

definition sh_second :: mgr where
  "sh_second = new_plain_manager 12 62 [1, 2] []"

definition sh_register :: "nat \<Rightarrow> nat \<Rightarrow> DependencyRegister" where
  "sh_register a b =
     [\<lparr>reg_dep = \<lparr>interfaceNameHash = 1, flags = ALLOW_MULTIPLE, satisfied = a\<rparr>, reg_props = None\<rparr>,
      \<lparr>reg_dep = \<lparr>interfaceNameHash = 2, flags = REQUIRED, satisfied = b\<rparr>, reg_props = None\<rparr>]"

lemmas sh_defs = sh_consumer_def sh_first_def sh_second_def sh_register_def new_dependency_manager_def
  new_plain_manager_def register_dependency_def interface_of_def

lemmas offline_eval = dependencyOffline_def interestedInDependencyGoingOffline_def List.map_filter_simps
  offline_stop_check_def finishDependencyOffline_def removeSelfIntoDoubleDispatch_def removeSelfInto_def
  ds_erase_def

lemma sh_online_first:
  "dependencyOnline sh_consumer sh_first =
   Some (STARTED, sh_consumer\<lparr>m_registry := sh_register 0 1, m_injected := [11], m_calls := [Add_Instance 2 11]\<rparr>,
         sh_first\<lparr>m_dependees := [10]\<rparr>)"
  by (simp add: sh_defs online_eval)

lemma sh_online_second:
  "dependencyOnline (sh_consumer\<lparr>m_registry := sh_register 0 1, m_injected := [11], m_calls := cs\<rparr>) sh_second =
   Some (STARTED, sh_consumer\<lparr>m_registry := sh_register 1 1, m_injected := [11, 12], m_calls := cs @ [Add_Instance 1 12]\<rparr>,
         sh_second\<lparr>m_dependees := [10]\<rparr>)"
  by (simp add: sh_defs online_eval)

lemma sh_leaving:
  "interestedInDependencyGoingOffline
     (sh_consumer\<lparr>m_registry := sh_register 1 1, m_injected := [11, 12], m_calls := cs\<rparr>)
     (sh_second\<lparr>m_dependees := [10]\<rparr>) = [0, 1]"
  by (simp add: sh_defs online_eval offline_eval)

lemma sh_offline:
  "dependencyOffline False (sh_consumer\<lparr>m_registry := sh_register 1 1, m_injected := [11, 12], m_calls := cs\<rparr>)
     (sh_second\<lparr>m_dependees := [10]\<rparr>) [0, 1] =
   Some (Off_Return DONE, sh_consumer\<lparr>m_registry := sh_register 0 0, m_injected := [11, 12], m_goingAway := [12], m_calls := cs\<rparr>)"
  by (simp add: sh_defs online_eval offline_eval)

lemma sh_finish:
  "finishDependencyOffline (sh_consumer\<lparr>m_registry := sh_register 0 0, m_injected := [11, 12], m_goingAway := [12], m_calls := cs\<rparr>)
     (sh_second\<lparr>m_dependees := [10]\<rparr>) [0, 1] =
   Some (sh_consumer\<lparr>m_registry := sh_register 0 0, m_injected := [11],
           m_calls := cs @ [Remove_Instance 1 12, Remove_Instance 2 12]\<rparr>, sh_second)"
  by (simp add: sh_defs online_eval offline_eval)


end
