(* ===== verification/Manager_State.thy ===== *)
theory Manager_State
  imports Lifecycle_Manager "HOL-Library.Monad_Syntax"
begin

text \<open>
  The events of \<^verbatim>\<open>src/include/ichor/events/\<close>, the state of \<^verbatim>\<open>Ichor::DependencyManager\<close>
  (\<^verbatim>\<open>src/include/ichor/DependencyManager.h\<close>) and the operations a service may call on it.

  Services are code outside the framework. Whenever the manager runs such code it asks an environment
  for a reply: how the code ends (it finishes, it fails, or it suspends) and which operations of the
  manager it calls meanwhile. The environment may depend on the whole state. A coroutine that is
  suspended is a generator of \<^verbatim>\<open>_scopedGenerators\<close>, whose body says where it continues.

  As in \<open>Lifecycle_Manager\<close>, \<open>None\<close> is \<^verbatim>\<open>std::terminate\<close> in the build with hardening.
\<close>

section \<open>Events\<close>

datatype event_type =
    T_All | T_Online | T_Offline | T_Request | T_UndoRequest | T_Quit | T_Insert | T_Stop | T_Start
  | T_Remove | T_DoWork | T_RemoveHandler | T_RemoveInterceptor | T_AddTracker | T_RemoveTracker
  | T_Continuable | T_ContinuableStart | T_ContinuableOffline | T_RunFunction | T_RunFunctionAsync
  | T_User nat

type_synonym promise_id = nat

datatype payload =
    DependencyOnlineEvent
  | DependencyOfflineEvent (removeOriginatingServiceAfterStop: bool)
  | DependencyRequestEvent Dependency "Properties option"
  | DependencyUndoRequestEvent Dependency "Properties option"
  | QuitEvent
  | InsertServiceEvent mgr
  | StopServiceEvent service_id bool
  | StartServiceEvent service_id
  | RemoveServiceEvent service_id
  | DoWorkEvent
  | RemoveEventHandlerEvent service_id event_type
  | RemoveEventInterceptorEvent nat event_type
  | AddTrackerEvent type_hash
  | RemoveTrackerEvent type_hash
  | ContinuableEvent promise_id
  | ContinuableStartEvent promise_id
  | ContinuableDependencyOfflineEvent service_id bool "nat list"
  | RunFunctionEvent nat
  | RunFunctionEventAsync nat
  | UserEvent nat

record event =
  ev_id :: nat
  ev_origin :: service_id
  ev_priority :: priority
  ev_payload :: payload

fun payload_type :: "payload \<Rightarrow> event_type" where
  "payload_type DependencyOnlineEvent = T_Online"
| "payload_type (DependencyOfflineEvent r) = T_Offline"
| "payload_type (DependencyRequestEvent d p) = T_Request"
| "payload_type (DependencyUndoRequestEvent d p) = T_UndoRequest"
| "payload_type QuitEvent = T_Quit"
| "payload_type (InsertServiceEvent m) = T_Insert"
| "payload_type (StopServiceEvent s r) = T_Stop"
| "payload_type (StartServiceEvent s) = T_Start"
| "payload_type (RemoveServiceEvent s) = T_Remove"
| "payload_type DoWorkEvent = T_DoWork"
| "payload_type (RemoveEventHandlerEvent s t) = T_RemoveHandler"
| "payload_type (RemoveEventInterceptorEvent i t) = T_RemoveInterceptor"
| "payload_type (AddTrackerEvent h) = T_AddTracker"
| "payload_type (RemoveTrackerEvent h) = T_RemoveTracker"
| "payload_type (ContinuableEvent p) = T_Continuable"
| "payload_type (ContinuableStartEvent p) = T_ContinuableStart"
| "payload_type (ContinuableDependencyOfflineEvent s r d) = T_ContinuableOffline"
| "payload_type (RunFunctionEvent f) = T_RunFunction"
| "payload_type (RunFunctionEventAsync f) = T_RunFunctionAsync"
| "payload_type (UserEvent t) = (if t = 0 then T_All else T_User t)"

definition get_type :: "event \<Rightarrow> event_type" where
  "get_type e = payload_type (ev_payload e)"

section \<open>State\<close>

record interceptor =
  ic_id :: nat
  ic_service :: service_id

record callback =
  cb_service :: service_id
  cb_filter :: "service_id option"

datatype waiter = W_Generator promise_id | W_External nat

record waiting_stop =
  ws_origin :: service_id
  ws_priority :: priority
  ws_remove :: bool
  ws_deps :: "nat list"

datatype gen_body =
    GB_Start service_id
  | GB_StartAfter service_id
  | GB_Stop service_id
  | GB_Offline service_id offline_wait offline_frame
  | GB_Ichor
  | GB_DoneStart StartBehaviour
  | GB_DoneIchor

record scoped_generator =
  sg_service :: service_id
  sg_priority :: priority
  sg_ref :: promise_id
  sg_event :: event
  sg_body :: gen_body

record event_waiter =
  ew_service :: service_id
  ew_type :: event_type
  ew_events :: "(event_type \<times> waiter) list"

record dm =
  dm_services :: "(service_id, mgr) dense_map"
  dm_trackers :: "(type_hash, service_id list) dense_map"
  dm_callbacks :: "(event_type, callback list) dense_map"
  dm_interceptors :: "(event_type, interceptor list) dense_map"
  dm_generators :: "(promise_id, scoped_generator) dense_map"
  dm_eventWaiters :: "(nat, event_waiter) dense_map"
  dm_depWaiters :: "(service_id, event_waiter) dense_map"
  dm_pendingCoroutine :: "(service_id, waiting_stop) dense_map"
  dm_pendingDeps :: "(service_id, waiting_stop list) dense_map"
  dm_started :: bool
  dm_quitEventReceived :: bool
  dm_quitDone :: bool
  dm_queueQuit :: bool
  dm_interceptorCounter :: nat
  dm_eventCounter :: nat
  dm_promiseCounter :: nat
  dm_serviceCounter :: nat
  dm_pushed :: "event list"
  dm_allCopy :: "interceptor list"
  dm_evtCopy :: "interceptor list"
  dm_moved :: bool
  dm_handlers :: nat

definition get_mgr :: "dm \<Rightarrow> service_id \<Rightarrow> mgr option" where
  "get_mgr st sid = dm_find sid (dm_services st)"

definition put_mgr :: "service_id \<Rightarrow> mgr \<Rightarrow> dm \<Rightarrow> dm" where
  "put_mgr sid m st = st\<lparr>dm_services := dm_modify sid (\<lambda>_. m) (dm_services st)\<rparr>"

text \<open>
  An operation on a consumer and a provider changes both. The provider only ever has its dependees
  changed, so when the two are the same object the changes are those of the consumer and that one.
\<close>

definition put_pair :: "service_id \<Rightarrow> mgr \<Rightarrow> service_id \<Rightarrow> mgr \<Rightarrow> dm \<Rightarrow> dm" where
  "put_pair cid c pid p st =
     (if cid = pid then put_mgr cid (c\<lparr>m_dependees := m_dependees p\<rparr>) st
      else put_mgr pid p (put_mgr cid c st))"

definition push_event :: "service_id \<Rightarrow> priority \<Rightarrow> payload \<Rightarrow> dm \<Rightarrow> dm" where
  "push_event orig prio p st =
     st\<lparr>dm_pushed := dm_pushed st @
          [\<lparr>ev_id = dm_eventCounter st, ev_origin = orig, ev_priority = prio, ev_payload = p\<rparr>],
        dm_eventCounter := dm_eventCounter st + 1\<rparr>"

definition next_event_id :: "dm \<Rightarrow> nat \<times> dm" where
  "next_event_id st = (dm_eventCounter st, st\<lparr>dm_eventCounter := dm_eventCounter st + 1\<rparr>)"

definition next_promise :: "dm \<Rightarrow> promise_id \<times> dm" where
  "next_promise st = (dm_promiseCounter st, st\<lparr>dm_promiseCounter := dm_promiseCounter st + 1\<rparr>)"

definition new_manager :: "type_hash \<Rightarrow> service_id \<Rightarrow> dm" where
  "new_manager dmHash sid =
     \<lparr>dm_services = [(sid, new_internal_manager sid dmHash)], dm_trackers = [], dm_callbacks = [],
      dm_interceptors = [], dm_generators = [], dm_eventWaiters = [], dm_depWaiters = [],
      dm_pendingCoroutine = [], dm_pendingDeps = [], dm_started = False, dm_quitEventReceived = False,
      dm_quitDone = False, dm_queueQuit = False, dm_interceptorCounter = 1, dm_eventCounter = 0,
      dm_promiseCounter = 1, dm_serviceCounter = sid + 1, dm_pushed = [], dm_allCopy = [],
      dm_evtCopy = [], dm_moved = False, dm_handlers = 1\<rparr>"

definition addInternalServiceManager :: "service_id \<Rightarrow> mgr \<Rightarrow> dm \<Rightarrow> dm" where
  "addInternalServiceManager sid m st = st\<lparr>dm_services := dm_emplace sid m (dm_services st)\<rparr>"

definition dm_start :: "bool \<Rightarrow> dm \<Rightarrow> dm option" where
  "dm_start threadHasManager st =
     (if threadHasManager then None else Some (st\<lparr>dm_quitEventReceived := False, dm_started := True\<rparr>))"

section \<open>Operations offered to services\<close>

text \<open>A global interceptor is one that is registered for the service id 0.\<close>

definition append_at :: "'k \<Rightarrow> 'v \<Rightarrow> ('k, 'v list) dense_map \<Rightarrow> ('k, 'v list) dense_map" where
  "append_at k v m =
     (if dm_contains k m then dm_modify k (\<lambda>vs. vs @ [v]) m else dm_emplace k [v] m)"

definition registerEventHandler :: "service_id \<Rightarrow> event_type \<Rightarrow> service_id option \<Rightarrow> dm \<Rightarrow> dm" where
  "registerEventHandler sid t target st =
     st\<lparr>dm_callbacks := append_at t \<lparr>cb_service = sid, cb_filter = target\<rparr> (dm_callbacks st)\<rparr>"

definition registerEventInterceptor :: "service_id \<Rightarrow> event_type \<Rightarrow> dm \<Rightarrow> dm" where
  "registerEventInterceptor sid t st =
     st\<lparr>dm_interceptorCounter := dm_interceptorCounter st + 1,
        dm_interceptors := append_at t \<lparr>ic_id = dm_interceptorCounter st, ic_service = sid\<rparr> (dm_interceptors st)\<rparr>"

definition registerDependencyTracker :: "service_id \<Rightarrow> type_hash \<Rightarrow> dm \<Rightarrow> dm option" where
  "registerDependencyTracker sid h st =
     (case get_mgr st sid of
        None \<Rightarrow> None
      | Some m \<Rightarrow>
          if m_state m < STARTING \<or> m_state m > ACTIVE then None
          else Some (push_event sid (min INTERNAL_INSERT_SERVICE_EVENT_PRIORITY (m_priority m)) (AddTrackerEvent h)
                 (st\<lparr>dm_trackers := append_at h sid (dm_trackers st)\<rparr>)))"

definition setServicePriority :: "service_id \<Rightarrow> priority \<Rightarrow> dm \<Rightarrow> dm" where
  "setServicePriority sid prio st =
     st\<lparr>dm_services := dm_modify sid (\<lambda>m. m\<lparr>m_priority := prio\<rparr>) (dm_services st)\<rparr>"

fun push_requests :: "service_id \<Rightarrow> priority \<Rightarrow> DependencyRegister \<Rightarrow> dm \<Rightarrow> dm" where
  "push_requests sid prio [] st = st"
| "push_requests sid prio (r # reg) st =
     push_requests sid prio reg (push_event sid prio (DependencyRequestEvent (reg_dep r) (reg_props r)) st)"

definition startImmediately :: "DependencyRegister \<Rightarrow> bool" where
  "startImmediately reg = list_all (\<lambda>r. \<not> has_flag (flags (reg_dep r)) REQUIRED) reg"

definition internalCreateServiceManager ::
  "type_hash \<Rightarrow> type_hash list \<Rightarrow> DependencyRegister option \<Rightarrow> Properties \<Rightarrow> priority \<Rightarrow> dm \<Rightarrow> (service_id \<times> dm) option" where
  "internalCreateServiceManager ty ifaces oreg props prio st =
     (let sid = dm_serviceCounter st;
          st0 = st\<lparr>dm_serviceCounter := sid + 1\<rparr>;
          evprio = min INTERNAL_DEPENDENCY_EVENT_PRIORITY prio;
          m = (case oreg of
                 Some reg \<Rightarrow> new_dependency_manager sid ty ifaces reg props
               | None \<Rightarrow> new_plain_manager sid ty ifaces props)\<lparr>m_priority := prio\<rparr>;
          st1 = push_event sid (min INTERNAL_INSERT_SERVICE_EVENT_PRIORITY prio) (InsertServiceEvent m) st0
      in if dm_contains sid (dm_services st) then None
         else case oreg of
                Some reg \<Rightarrow>
                  (let st2 = push_requests sid evprio reg st1
                   in Some (sid, if startImmediately reg then push_event sid evprio (StartServiceEvent sid) st2 else st2))
              | None \<Rightarrow> Some (sid, push_event sid evprio (StartServiceEvent sid) st1))"

definition waitForService :: "service_id \<Rightarrow> event_type \<Rightarrow> waiter \<Rightarrow> dm \<Rightarrow> dm" where
  "waitForService sid t w st =
     st\<lparr>dm_depWaiters :=
          (if dm_contains sid (dm_depWaiters st)
           then dm_modify sid (\<lambda>ew. ew\<lparr>ew_events := ew_events ew @ [(t, w)]\<rparr>) (dm_depWaiters st)
           else dm_emplace sid \<lparr>ew_service = sid, ew_type = t, ew_events = [(t, w)]\<rparr> (dm_depWaiters st))\<rparr>"

definition hasDependencyWaiter :: "service_id \<Rightarrow> event_type \<Rightarrow> dm \<Rightarrow> bool" where
  "hasDependencyWaiter sid t st =
     (case dm_find sid (dm_depWaiters st) of
        None \<Rightarrow> False
      | Some ew \<Rightarrow> list_ex (\<lambda>(t', w). t' = t) (ew_events ew))"

datatype wait_result = Wait_Quitting | Wait_Ready | Wait_Suspended

definition waitForServiceStarted :: "service_id \<Rightarrow> nat \<Rightarrow> dm \<Rightarrow> (wait_result \<times> dm) option" where
  "waitForServiceStarted sid tok st =
     (case get_mgr st sid of
        None \<Rightarrow> None
      | Some m \<Rightarrow>
          Some (if dm_quitEventReceived st then (Wait_Quitting, st)
                else if m_state m = ACTIVE then (Wait_Ready, st)
                else (Wait_Suspended, waitForService sid T_Start (W_External tok) st)))"

definition waitForServiceStopped :: "service_id \<Rightarrow> nat \<Rightarrow> dm \<Rightarrow> (wait_result \<times> dm) option" where
  "waitForServiceStopped sid tok st =
     (case get_mgr st sid of
        None \<Rightarrow> None
      | Some m \<Rightarrow>
          Some (if dm_quitEventReceived st then (Wait_Quitting, st)
                else if m_state m = ACTIVE then (Wait_Ready, st)
                else (Wait_Suspended, waitForService sid T_Stop (W_External tok) st)))"

definition pushPrioritisedEventAsync :: "service_id \<Rightarrow> priority \<Rightarrow> bool \<Rightarrow> payload \<Rightarrow> nat \<Rightarrow> dm \<Rightarrow> dm option" where
  "pushPrioritisedEventAsync orig prio coalesce p tok st =
     (if orig \<noteq> 0 \<and> \<not> dm_contains orig (dm_services st) then None
      else case (if coalesce
                 then find (\<lambda>e. ew_service (snd e) = orig \<and> ew_type (snd e) = payload_type p) (dm_eventWaiters st)
                 else None) of
        Some (eid, _) \<Rightarrow>
          Some (st\<lparr>dm_eventWaiters := dm_modify eid
                     (\<lambda>ew. ew\<lparr>ew_events := ew_events ew @ [(payload_type p, W_External tok)]\<rparr>) (dm_eventWaiters st)\<rparr>)
      | None \<Rightarrow>
          (let eid = dm_eventCounter st;
               st1 = push_event orig prio p st
           in Some (st1\<lparr>dm_eventWaiters := dm_emplace eid
                          \<lparr>ew_service = orig, ew_type = payload_type p,
                           ew_events = [(payload_type p, W_External tok)]\<rparr> (dm_eventWaiters st1)\<rparr>)))"

section \<open>The code of the services\<close>

datatype action =
    A_Push service_id priority payload
  | A_PushAsync service_id priority bool payload nat
  | A_CreateService type_hash "type_hash list" "DependencyRegister option" Properties priority
  | A_RegisterHandler service_id event_type "service_id option"
  | A_RegisterInterceptor service_id event_type
  | A_RegisterTracker service_id type_hash
  | A_SetPriority service_id priority
  | A_WaitStarted service_id nat
  | A_WaitStopped service_id nat

fun apply_action :: "action \<Rightarrow> dm \<Rightarrow> dm option" where
  "apply_action (A_Push orig prio p) st = Some (push_event orig prio p st)"
| "apply_action (A_PushAsync orig prio c p tok) st = pushPrioritisedEventAsync orig prio c p tok st"
| "apply_action (A_CreateService ty ifs reg props prio) st =
     map_option snd (internalCreateServiceManager ty ifs reg props prio st)"
| "apply_action (A_RegisterHandler sid t target) st = Some (registerEventHandler sid t target st)"
| "apply_action (A_RegisterInterceptor sid t) st = Some (registerEventInterceptor sid t st)"
| "apply_action (A_RegisterTracker sid h) st = registerDependencyTracker sid h st"
| "apply_action (A_SetPriority sid prio) st = Some (setServicePriority sid prio st)"
| "apply_action (A_WaitStarted sid tok) st = map_option snd (waitForServiceStarted sid tok st)"
| "apply_action (A_WaitStopped sid tok) st = map_option snd (waitForServiceStopped sid tok st)"

fun apply_actions :: "action list \<Rightarrow> dm \<Rightarrow> dm option" where
  "apply_actions [] st = Some st"
| "apply_actions (a # as) st = Option.bind (apply_action a st) (apply_actions as)"

datatype user_call =
    U_Start service_id
  | U_Stop service_id
  | U_Request service_id event
  | U_UndoRequest service_id event
  | U_Handle service_id event
  | U_Function nat
  | U_FunctionAsync nat
  | U_Continue promise_id
  | U_PreIntercept nat event
  | U_PostIntercept nat event bool
  | U_Resume nat

datatype outcome = O_Finished bool | O_Suspended

type_synonym env = "user_call \<Rightarrow> dm \<Rightarrow> outcome \<times> action list"

definition user :: "env \<Rightarrow> user_call \<Rightarrow> dm \<Rightarrow> (outcome \<times> dm) option" where
  "user env c st =
     (case env c st of (out, as) \<Rightarrow> map_option (\<lambda>st'. (out, st')) (apply_actions as st))"

end
