(* ===== verification/Event_Processing.thy ===== *)
theory Event_Processing
  imports Manager_State
begin

text \<open>
  The event processing of \<^verbatim>\<open>src/src/ichor/DependencyManager.cpp\<close>: one definition per event type of
  \<^verbatim>\<open>DependencyManager::processEvent\<close>, the helpers they share, \<^verbatim>\<open>processEvent\<close> itself, the
  continuation of a suspended coroutine, and the queries on the manager.

  The local variables of \<^verbatim>\<open>processEvent\<close> that the helpers change through references (the copies of the
  interceptors, whether the event was moved into \<^verbatim>\<open>_scopedGenerators\<close>, and the number of handlers)
  are fields of the state.
\<close>

section \<open>Waiters and completion\<close>

fun resume_all :: "env \<Rightarrow> waiter list \<Rightarrow> dm \<Rightarrow> dm option" where
  "resume_all env [] st = Some st"
| "resume_all env (W_External tok # ws) st =
     do { (out, st1) \<leftarrow> user env (U_Resume tok) st; resume_all env ws st1 }"
| "resume_all env (W_Generator pid # ws) st = resume_all env ws st"

definition handleEventCompletion :: "env \<Rightarrow> event \<Rightarrow> dm \<Rightarrow> dm option" where
  "handleEventCompletion env evt st =
     (case dm_find (ev_id evt) (dm_eventWaiters st) of
        None \<Rightarrow> Some st
      | Some ew \<Rightarrow>
          do { st1 \<leftarrow> resume_all env (map snd (ew_events ew)) st;
               Some (st1\<lparr>dm_eventWaiters := dm_erase (ev_id evt) (dm_eventWaiters st1)\<rparr>) })"

definition existingCoroutineFor :: "service_id \<Rightarrow> dm \<Rightarrow> bool" where
  "existingCoroutineFor sid st = list_ex (\<lambda>(pid, g). sg_service g = sid) (dm_generators st)"

definition store_generator :: "promise_id \<Rightarrow> scoped_generator \<Rightarrow> dm \<Rightarrow> dm" where
  "store_generator pid g st = st\<lparr>dm_generators := dm_emplace pid g (dm_generators st)\<rparr>"

definition set_body :: "promise_id \<Rightarrow> gen_body \<Rightarrow> dm \<Rightarrow> dm" where
  "set_body pid b st = st\<lparr>dm_generators := dm_modify pid (\<lambda>g. g\<lparr>sg_body := b\<rparr>) (dm_generators st)\<rparr>"

definition finish_start_generator :: "promise_id \<Rightarrow> scoped_generator \<Rightarrow> StartBehaviour \<Rightarrow> dm \<Rightarrow> dm" where
  "finish_start_generator pid g sb st =
     push_event (sg_service g) (sg_priority g) (ContinuableStartEvent pid) (set_body pid (GB_DoneStart sb) st)"

primrec wait_type :: "offline_wait \<Rightarrow> event_type" where
  "wait_type Await_Online = T_Online"
| "wait_type Await_Offline_Active = T_Offline"
| "wait_type Await_Offline_Uninjecting = T_Offline"

definition suspend_offline :: "service_id \<Rightarrow> promise_id \<Rightarrow> offline_wait \<Rightarrow> bool \<Rightarrow> dm \<Rightarrow> dm" where
  "suspend_offline cid pid w push st =
     waitForService cid (wait_type w) (W_Generator pid)
       (if push then push_event cid (INTERNAL_DEPENDENCY_EVENT_PRIORITY - 1) (DependencyOfflineEvent False) st else st)"

definition resume_offline :: "promise_id \<Rightarrow> dm \<Rightarrow> dm option" where
  "resume_offline pid st =
     (case dm_find pid (dm_generators st) of
        None \<Rightarrow> Some st
      | Some g \<Rightarrow>
          (case sg_body g of
             GB_Offline cid w fr \<Rightarrow>
               do { c \<leftarrow> get_mgr st cid;
                    (out, c') \<leftarrow> dependencyOffline_resume (hasDependencyWaiter cid T_Offline st) c w fr;
                    let st1 = put_mgr cid c' st in
                    (case out of
                       Off_Return sb \<Rightarrow> Some (finish_start_generator pid g sb st1)
                     | Off_Suspend w' push fr' \<Rightarrow>
                         Some (set_body pid (GB_Offline cid w' fr') (suspend_offline cid pid w' push st1))) }
           | _ \<Rightarrow> Some st))"

fun set_waiters :: "env \<Rightarrow> waiter list \<Rightarrow> dm \<Rightarrow> dm option" where
  "set_waiters env [] st = Some st"
| "set_waiters env (W_External tok # ws) st =
     do { (out, st1) \<leftarrow> user env (U_Resume tok) st; set_waiters env ws st1 }"
| "set_waiters env (W_Generator pid # ws) st =
     do { st1 \<leftarrow> resume_offline pid st; set_waiters env ws st1 }"

definition due_waiters :: "event_type \<Rightarrow> event_waiter \<Rightarrow> waiter list" where
  "due_waiters t ew = map snd (filter (\<lambda>(t', w). t' = t) (ew_events ew))"

definition kept_waiters :: "event_type \<Rightarrow> event_waiter \<Rightarrow> (event_type \<times> waiter) list" where
  "kept_waiters t ew = filter (\<lambda>(t', w). t' \<noteq> t) (ew_events ew)"

definition finish_waiters :: "service_id \<Rightarrow> event_type \<Rightarrow> event_waiter \<Rightarrow> dm \<Rightarrow> dm" where
  "finish_waiters sid t ew st =
     st\<lparr>dm_depWaiters := dm_modify sid (\<lambda>_. ew\<lparr>ew_events := kept_waiters t ew\<rparr>) (dm_depWaiters st)\<rparr>"

fun finishWaitingService_loop :: "nat \<Rightarrow> env \<Rightarrow> service_id \<Rightarrow> event_type \<Rightarrow> dm \<Rightarrow> dm option" where
  "finishWaitingService_loop 0 env sid t st = None"
| "finishWaitingService_loop (Suc n) env sid t st =
     (case dm_find sid (dm_depWaiters st) of
        None \<Rightarrow> None
      | Some ew \<Rightarrow>
          (let st1 = finish_waiters sid t ew st
           in if due_waiters t ew = []
              then Some (if kept_waiters t ew = [] then st1\<lparr>dm_depWaiters := dm_erase sid (dm_depWaiters st1)\<rparr> else st1)
              else do { st2 \<leftarrow> set_waiters env (due_waiters t ew) st1; finishWaitingService_loop n env sid t st2 }))"

text \<open>
  Resuming the waiters may make a coroutine wait again. It then has fewer dependencies left, or waits
  for its service to go offline instead of online, which bounds the rounds of the loop.
\<close>

fun body_rest :: "gen_body \<Rightarrow> nat" where
  "body_rest (GB_Offline cid w fr) = 2 * length (of_rest fr) + (if w = Await_Online then 1 else 0)"
| "body_rest b = 0"

definition wait_fuel :: "dm \<Rightarrow> nat" where
  "wait_fuel st = Suc (Suc (sum_list (map (\<lambda>(pid, g). body_rest (sg_body g)) (dm_generators st))))"

definition finishWaitingService :: "env \<Rightarrow> service_id \<Rightarrow> event_type \<Rightarrow> dm \<Rightarrow> dm option" where
  "finishWaitingService env sid t st =
     (case dm_find sid (dm_depWaiters st) of
        None \<Rightarrow> Some st
      | Some ew \<Rightarrow> finishWaitingService_loop (wait_fuel st) env sid t st)"

section \<open>Registrations and removal\<close>

function prune :: "('v \<Rightarrow> bool) \<Rightarrow> ('k, 'v list) dense_map \<Rightarrow> ('k, 'v list) dense_map" where
  "prune p [] = []"
| "prune p ((k, vs) # m) =
     (if filter (\<lambda>v. \<not> p v) vs = []
      then prune p (if m = [] then [] else last m # butlast m)
      else (k, filter (\<lambda>v. \<not> p v) vs) # prune p m)"
  by pat_completeness auto
termination
  by (relation "measure (\<lambda>(p, m). length m)") auto

definition clearServiceRegistrations :: "service_id \<Rightarrow> dm \<Rightarrow> dm" where
  "clearServiceRegistrations sid st =
     st\<lparr>dm_trackers := prune (\<lambda>s. s = sid) (dm_trackers st),
        dm_callbacks := prune (\<lambda>c. cb_service c = sid) (dm_callbacks st),
        dm_interceptors := prune (\<lambda>i. ic_service i = sid) (dm_interceptors st),
        dm_allCopy := filter (\<lambda>i. ic_service i \<noteq> sid) (dm_allCopy st),
        dm_evtCopy := filter (\<lambda>i. ic_service i \<noteq> sid) (dm_evtCopy st)\<rparr>"

definition blocks_removal :: "service_id \<Rightarrow> scoped_generator \<Rightarrow> bool" where
  "blocks_removal sid g =
     (case ev_payload (sg_event g) of
        StartServiceEvent s \<Rightarrow> ev_origin (sg_event g) = sid \<or> s = sid
      | ContinuableDependencyOfflineEvent s r d \<Rightarrow> s = sid
      | DependencyOfflineEvent r \<Rightarrow> False
      | StopServiceEvent s r \<Rightarrow> False
      | _ \<Rightarrow> ev_origin (sg_event g) = sid)"

fun pre_intercept :: "env \<Rightarrow> event \<Rightarrow> interceptor list \<Rightarrow> bool \<Rightarrow> dm \<Rightarrow> (bool \<times> dm) option" where
  "pre_intercept env evt [] allow st = Some (allow, st)"
| "pre_intercept env evt (i # is) allow st =
     do { (out, st1) \<leftarrow> user env (U_PreIntercept (ic_id i) evt) st;
          pre_intercept env evt is (allow \<and> out \<noteq> O_Finished False) st1 }"

fun post_intercept :: "env \<Rightarrow> event \<Rightarrow> bool \<Rightarrow> interceptor list \<Rightarrow> dm \<Rightarrow> dm option" where
  "post_intercept env evt processed [] st = Some st"
| "post_intercept env evt processed (i # is) st =
     do { (out, st1) \<leftarrow> user env (U_PostIntercept (ic_id i) evt processed) st;
          post_intercept env evt processed is st1 }"

fun untrack_all :: "env \<Rightarrow> event \<Rightarrow> service_id list \<Rightarrow> nat \<Rightarrow> dm \<Rightarrow> (nat \<times> dm) option" where
  "untrack_all env evt [] n st = Some (n, st)"
| "untrack_all env evt (tsid # ts) n st =
     do { t \<leftarrow> get_mgr st tsid;
          if m_state t \<ge> UNINJECTING \<or> m_state t \<le> INSTALLED then untrack_all env evt ts n st
          else (case next_promise st of (pid, st1) \<Rightarrow>
            do { (out, st2) \<leftarrow> user env (U_UndoRequest tsid evt) st1;
                 case out of
                   O_Suspended \<Rightarrow>
                     (case next_event_id st2 of (eid, st3) \<Rightarrow>
                        untrack_all env evt ts (n + 1)
                          (store_generator pid
                             \<lparr>sg_service = tsid, sg_priority = ev_priority evt, sg_ref = pid,
                              sg_event = evt\<lparr>ev_id := eid, ev_origin := tsid\<rparr>, sg_body = GB_Ichor\<rparr> st3))
                 | O_Finished b \<Rightarrow> untrack_all env evt ts (n + 1) st2 }) }"

definition undo_event :: "service_id \<Rightarrow> nat \<Rightarrow> registration \<Rightarrow> event" where
  "undo_event sid eid r =
     \<lparr>ev_id = eid, ev_origin = sid, ev_priority = INTERNAL_DEPENDENCY_EVENT_PRIORITY,
      ev_payload = DependencyUndoRequestEvent (reg_dep r) (reg_props r)\<rparr>"

definition undo_request :: "env \<Rightarrow> event \<Rightarrow> type_hash \<Rightarrow> dm \<Rightarrow> dm option" where
  "undo_request env evt h st =
     do { (_, st1) \<leftarrow> pre_intercept env evt (dm_allCopy st) True st;
          (_, st2) \<leftarrow> pre_intercept env evt (dm_evtCopy st) True st1;
          (n, st3) \<leftarrow> (case dm_find h (dm_trackers st2) of
                         None \<Rightarrow> Some (0, st2)
                       | Some ts \<Rightarrow> untrack_all env evt ts 0 st2);
          st4 \<leftarrow> post_intercept env evt (n > 0) (dm_allCopy st) st3;
          post_intercept env evt (n > 0) (dm_evtCopy st) st4 }"

fun undo_requests :: "env \<Rightarrow> service_id \<Rightarrow> DependencyRegister \<Rightarrow> dm \<Rightarrow> dm option" where
  "undo_requests env sid [] st = Some st"
| "undo_requests env sid (r # reg) st =
     (case next_event_id st of (eid, st0) \<Rightarrow>
        do { st1 \<leftarrow> undo_request env (undo_event sid eid r) (interfaceNameHash (reg_dep r)) st0;
             undo_requests env sid reg st1 })"

definition removeInternalService :: "env \<Rightarrow> service_id \<Rightarrow> dm \<Rightarrow> dm option" where
  "removeInternalService env sid st =
     do { m \<leftarrow> get_mgr st sid;
          if m_dependees m \<noteq> [] \<or> m_injected m \<noteq> [] \<or>
             list_ex (\<lambda>(pid, g). blocks_removal sid g) (dm_generators st)
          then None
          else do { st1 \<leftarrow> undo_requests env sid (case getDependencyRegistry m of None \<Rightarrow> [] | Some reg \<Rightarrow> reg) st;
                    Some (st1\<lparr>dm_trackers := prune (\<lambda>s. s = sid) (dm_trackers st1),
                              dm_services := dm_erase sid (dm_services st1)\<rparr>) } }"

definition allServicesStopped :: "dm \<Rightarrow> bool" where
  "allServicesStopped st =
     list_all (\<lambda>(sid, m). isInternalManager m \<or> m_state m = INSTALLED) (dm_services st)"

definition checkIfCanQuit :: "dm \<Rightarrow> dm option" where
  "checkIfCanQuit st =
     (if dm_quitEventReceived st \<and> \<not> dm_quitDone st \<and> dm_generators st = [] \<and> allServicesStopped st
      then if dm_eventWaiters st \<noteq> [] \<or> dm_depWaiters st \<noteq> [] then None
           else Some (st\<lparr>dm_queueQuit := True, dm_services := [], dm_allCopy := [], dm_evtCopy := [],
                         dm_quitDone := True\<rparr>)
      else Some st)"

section \<open>Starting and stopping\<close>

definition set_priority_of :: "mgr \<Rightarrow> priority" where
  "set_priority_of m = min (m_priority m) INTERNAL_DEPENDENCY_EVENT_PRIORITY"

text \<open>
  \<open>run_start_after\<close> runs \<^verbatim>\<open>startAfterDependencyOnline\<close> of a service. When the start suspends, the
  generator is stored with a new \<^verbatim>\<open>DependencyOnlineEvent\<close>; when it is done, that event is pushed.
\<close>

definition run_start_after :: "env \<Rightarrow> service_id \<Rightarrow> priority \<Rightarrow> dm \<Rightarrow> dm option" where
  "run_start_after env sid evtPrio st =
     do { m \<leftarrow> get_mgr st sid;
          (entry, m1) \<leftarrow> startAfterDependencyOnline_enter m;
          let onlinePrio = min INTERNAL_DEPENDENCY_EVENT_PRIORITY evtPrio in
          (case next_promise (put_mgr sid m1 st) of (pid, st1) \<Rightarrow>
             (case entry of
                Start_Returned \<Rightarrow> Some (push_event sid onlinePrio DependencyOnlineEvent st1)
              | Start_Awaits \<Rightarrow>
                  do { (out, st2) \<leftarrow> user env (U_Start sid) st1;
                       case out of
                         O_Suspended \<Rightarrow>
                           (case next_event_id st2 of (eid, st3) \<Rightarrow>
                              Some (store_generator pid
                                \<lparr>sg_service = sid, sg_priority = set_priority_of m, sg_ref = pid,
                                 sg_event = \<lparr>ev_id = eid, ev_origin = sid, ev_priority = onlinePrio,
                                             ev_payload = DependencyOnlineEvent\<rparr>,
                                 sg_body = GB_StartAfter sid\<rparr> st3))
                       | O_Finished ok \<Rightarrow>
                           do { m2 \<leftarrow> get_mgr st2 sid;
                                case internal_start_exit ok m2 of (sb, m3) \<Rightarrow>
                                  let st3 = put_mgr sid m3 st2 in
                                  Some (if after_online_result sb = STARTED
                                        then push_event sid onlinePrio DependencyOnlineEvent st3 else st3) } })) }"

definition stop_if_quitting :: "service_id \<Rightarrow> priority \<Rightarrow> dm \<Rightarrow> dm" where
  "stop_if_quitting sid evtPrio st =
     (if dm_quitEventReceived st
      then push_event sid (min INTERNAL_DEPENDENCY_EVENT_PRIORITY evtPrio) (StopServiceEvent sid True) st
      else st)"

section \<open>\<^verbatim>\<open>DependencyOnlineEvent\<close>\<close>

definition read_filter :: "mgr \<Rightarrow> filter_entry option option" where
  "read_filter m =
     (case dm_find ''Filter'' (m_properties m) of
        None \<Rightarrow> Some None
      | Some (Any_Filter f) \<Rightarrow> Some (Some f)
      | Some (Any_Other ty v) \<Rightarrow> None)"

definition passes :: "filter_entry option \<Rightarrow> mgr \<Rightarrow> bool" where
  "passes f m = (case f of None \<Rightarrow> True | Some e \<Rightarrow> filter_compareTo e m)"

definition inject_into :: "env \<Rightarrow> service_id \<Rightarrow> service_id \<Rightarrow> priority \<Rightarrow> dm \<Rightarrow> dm option" where
  "inject_into env cid provider evtPrio st =
     do { c \<leftarrow> get_mgr st cid;
          p \<leftarrow> get_mgr st provider;
          (sb, c', p') \<leftarrow> dependencyOnline c p;
          let st1 = put_pair cid c' provider p' st in
          if sb = DONE then Some st1 else run_start_after env cid evtPrio st1 }"

fun online_each :: "env \<Rightarrow> service_id \<Rightarrow> filter_entry option \<Rightarrow> priority \<Rightarrow> service_id list \<Rightarrow> dm \<Rightarrow> dm option" where
  "online_each env provider f evtPrio [] st = Some st"
| "online_each env provider f evtPrio (cid # cids) st =
     do { c \<leftarrow> get_mgr st cid;
          if cid = provider \<or> \<not> passes f c then online_each env provider f evtPrio cids st
          else do { st1 \<leftarrow> inject_into env cid provider evtPrio st;
                    online_each env provider f evtPrio cids st1 } }"

definition handle_online :: "env \<Rightarrow> event \<Rightarrow> dm \<Rightarrow> dm option" where
  "handle_online env evt st =
     (case get_mgr st (ev_origin evt) of
        None \<Rightarrow> Some st
      | Some m \<Rightarrow>
          (case setInjected m of (ok, m1) \<Rightarrow>
             if \<not> ok then Some st
             else do { st1 \<leftarrow> finishWaitingService env (ev_origin evt) T_Online (put_mgr (ev_origin evt) m1 st);
                       m2 \<leftarrow> get_mgr st1 (ev_origin evt);
                       st2 \<leftarrow> (if m_interfaces m2 = [] then Some st1
                              else do { f \<leftarrow> read_filter m2;
                                        online_each env (ev_origin evt) f (ev_priority evt)
                                          (map fst (dm_services st1)) st1 });
                       Some (stop_if_quitting (ev_origin evt) (ev_priority evt) st2) }))"

section \<open>\<^verbatim>\<open>DependencyOfflineEvent\<close>\<close>

definition add_pending_dep :: "service_id \<Rightarrow> waiting_stop \<Rightarrow> dm \<Rightarrow> dm" where
  "add_pending_dep sid w st = st\<lparr>dm_pendingDeps := append_at sid w (dm_pendingDeps st)\<rparr>"

definition no_pending_dep :: "service_id \<Rightarrow> dm \<Rightarrow> bool" where
  "no_pending_dep sid st = (case dm_find sid (dm_pendingDeps st) of None \<Rightarrow> True | Some ws \<Rightarrow> ws = [])"

definition offline_dependee :: "service_id \<Rightarrow> bool \<Rightarrow> service_id \<Rightarrow> dm \<Rightarrow> dm option" where
  "offline_dependee provider removeAfter cid st =
     do { c \<leftarrow> get_mgr st cid;
          p \<leftarrow> get_mgr st provider;
          let prio = set_priority_of c; deps = interestedInDependencyGoingOffline c p in
          if deps = [] then Some st
          else do { (out, c') \<leftarrow> dependencyOffline (hasDependencyWaiter cid T_Offline st) c p deps;
                    case next_promise (put_mgr cid c' st) of (pid, st1) \<Rightarrow>
                    (case out of
                       Off_Suspend w push fr \<Rightarrow>
                         (case next_event_id (suspend_offline cid pid w push st1) of (eid, st2) \<Rightarrow>
                            Some (store_generator pid
                              \<lparr>sg_service = cid, sg_priority = prio, sg_ref = pid,
                               sg_event = \<lparr>ev_id = eid, ev_origin = cid, ev_priority = prio,
                                           ev_payload = ContinuableDependencyOfflineEvent provider removeAfter deps\<rparr>,
                               sg_body = GB_Offline cid w fr\<rparr> st2))
                     | Off_Return STOP_ME \<Rightarrow>
                         Some (add_pending_dep cid
                           \<lparr>ws_origin = provider, ws_priority = prio, ws_remove = removeAfter, ws_deps = deps\<rparr>
                           (if no_pending_dep cid st1
                            then push_event provider prio (StopServiceEvent cid removeAfter) st1 else st1))
                     | Off_Return DONE \<Rightarrow>
                         do { p1 \<leftarrow> get_mgr st1 provider;
                              (c2, p2) \<leftarrow> finishDependencyOffline c' p1 deps;
                              Some (put_pair cid c2 provider p2 st1) }
                     | Off_Return STOPPED \<Rightarrow> None
                     | Off_Return STARTED \<Rightarrow> Some st1) } }"

fun offline_each :: "service_id \<Rightarrow> bool \<Rightarrow> service_id list \<Rightarrow> dm \<Rightarrow> dm option" where
  "offline_each provider removeAfter [] st = Some st"
| "offline_each provider removeAfter (cid # cids) st =
     do { st1 \<leftarrow> offline_dependee provider removeAfter cid st; offline_each provider removeAfter cids st1 }"

definition handle_offline :: "env \<Rightarrow> event \<Rightarrow> bool \<Rightarrow> dm \<Rightarrow> dm option" where
  "handle_offline env evt removeAfter st =
     (case get_mgr st (ev_origin evt) of
        None \<Rightarrow> Some st
      | Some m \<Rightarrow>
          (case setUninjected m of (ok, m1) \<Rightarrow>
             if \<not> ok then Some st
             else do { st1 \<leftarrow> offline_each (ev_origin evt) removeAfter (m_dependees m1) (put_mgr (ev_origin evt) m1 st);
                       m2 \<leftarrow> get_mgr st1 (ev_origin evt);
                       if m_dependees m2 \<noteq> [] then Some st1
                       else do { st2 \<leftarrow> finishWaitingService env (ev_origin evt) T_Offline st1;
                                 Some (push_event (ev_origin evt)
                                   (min (ev_priority evt) INTERNAL_DEPENDENCY_EVENT_PRIORITY)
                                   (StopServiceEvent (ev_origin evt) removeAfter) st2) } }))"

section \<open>Requests and trackers\<close>

definition run_ichor :: "env \<Rightarrow> user_call \<Rightarrow> service_id \<Rightarrow> priority \<Rightarrow> promise_id option \<Rightarrow> event \<Rightarrow> dm
    \<Rightarrow> (promise_id option \<times> dm) option" where
  "run_ichor env call sid prio ref evt st =
     (case next_promise st of (pid, st1) \<Rightarrow>
        do { (out, st2) \<leftarrow> user env call st1;
             case out of
               O_Finished b \<Rightarrow> Some (ref, st2)
             | O_Suspended \<Rightarrow>
                 (let r = (case ref of None \<Rightarrow> pid | Some r \<Rightarrow> r)
                  in Some (Some r, store_generator pid
                       \<lparr>sg_service = sid, sg_priority = prio, sg_ref = r, sg_event = evt, sg_body = GB_Ichor\<rparr> st2)) })"

fun request_each :: "env \<Rightarrow> event \<Rightarrow> service_id list \<Rightarrow> promise_id option \<Rightarrow> dm \<Rightarrow> dm option" where
  "request_each env evt [] ref st = Some (st\<lparr>dm_moved := dm_moved st \<or> ref \<noteq> None\<rparr>)"
| "request_each env evt (tsid # ts) ref st =
     do { (ref', st1) \<leftarrow> run_ichor env (U_Request tsid evt) tsid (ev_priority evt) ref evt st;
          request_each env evt ts ref' st1 }"

definition handle_request :: "env \<Rightarrow> event \<Rightarrow> Dependency \<Rightarrow> dm \<Rightarrow> dm option" where
  "handle_request env evt dep st =
     (case dm_find (interfaceNameHash dep) (dm_trackers st) of
        None \<Rightarrow> Some st
      | Some ts \<Rightarrow> request_each env evt ts None st)"

definition open_requests :: "type_hash \<Rightarrow> dm \<Rightarrow> event list" where
  "open_requests h st =
     concat (map (\<lambda>(sid, m).
       (case getDependencyRegistry m of
          None \<Rightarrow> []
        | Some reg \<Rightarrow>
            map (\<lambda>r. \<lparr>ev_id = 0, ev_origin = m_id m, ev_priority = set_priority_of m,
                       ev_payload = DependencyRequestEvent (reg_dep r) (reg_props r)\<rparr>)
              (filter (\<lambda>r. interfaceNameHash (reg_dep r) = h) reg))) (dm_services st))"

fun track_each :: "env \<Rightarrow> service_id \<Rightarrow> priority \<Rightarrow> event list \<Rightarrow> dm \<Rightarrow> dm option" where
  "track_each env tsid prio [] st = Some st"
| "track_each env tsid prio (req # reqs) st =
     do { (_, st1) \<leftarrow> run_ichor env (U_Request tsid req) tsid prio None req st;
          track_each env tsid prio reqs st1 }"

definition handle_add_tracker :: "env \<Rightarrow> event \<Rightarrow> type_hash \<Rightarrow> dm \<Rightarrow> dm option" where
  "handle_add_tracker env evt h st =
     (case dm_find h (dm_trackers st) of
        None \<Rightarrow> Some st
      | Some ts \<Rightarrow>
          if ev_origin evt \<in> set ts
          then track_each env (ev_origin evt) (ev_priority evt) (open_requests h st) st
          else Some st)"

definition handle_remove_tracker :: "event \<Rightarrow> type_hash \<Rightarrow> dm \<Rightarrow> dm" where
  "handle_remove_tracker evt h st =
     (case dm_find h (dm_trackers st) of
        None \<Rightarrow> st
      | Some ts \<Rightarrow>
          (let ts' = filter (\<lambda>s. s \<noteq> ev_origin evt) ts
           in st\<lparr>dm_trackers := (if ts' = [] then dm_erase h (dm_trackers st)
                                 else dm_modify h (\<lambda>_. ts') (dm_trackers st))\<rparr>))"

definition handle_remove_handler :: "service_id \<Rightarrow> event_type \<Rightarrow> dm \<Rightarrow> dm" where
  "handle_remove_handler sid t st =
     st\<lparr>dm_callbacks := dm_modify t (filter (\<lambda>c. cb_service c \<noteq> sid)) (dm_callbacks st)\<rparr>"

definition handle_remove_interceptor :: "nat \<Rightarrow> event_type \<Rightarrow> dm \<Rightarrow> dm" where
  "handle_remove_interceptor iid t st =
     st\<lparr>dm_interceptors := dm_modify t (filter (\<lambda>i. ic_id i \<noteq> iid)) (dm_interceptors st)\<rparr>"

section \<open>\<^verbatim>\<open>QuitEvent\<close> and \<^verbatim>\<open>InsertServiceEvent\<close>\<close>

fun push_stops :: "service_id \<Rightarrow> priority \<Rightarrow> service_id list \<Rightarrow> dm \<Rightarrow> dm" where
  "push_stops orig prio [] st = st"
| "push_stops orig prio (sid # sids) st =
     push_stops orig prio sids (push_event orig prio (StopServiceEvent sid True) st)"

definition quit_service :: "event \<Rightarrow> service_id \<times> mgr \<Rightarrow> dm \<Rightarrow> dm" where
  "quit_service evt e st =
     (let m = snd e in
      if m_state m = ACTIVE \<and> \<not> isInternalManager m
      then push_stops (ev_origin evt) (max (m_priority m) INTERNAL_DEPENDENCY_EVENT_PRIORITY)
             (m_dependees m @ [m_id m]) st
      else st)"

definition handle_quit :: "event \<Rightarrow> dm \<Rightarrow> dm option" where
  "handle_quit evt st =
     (let st1 = st\<lparr>dm_quitEventReceived := True\<rparr>
      in checkIfCanQuit (fold (quit_service evt) (dm_services st1) st1))"

fun insert_each :: "env \<Rightarrow> service_id \<Rightarrow> priority \<Rightarrow> service_id list \<Rightarrow> dm \<Rightarrow> dm option" where
  "insert_each env cid evtPrio [] st = Some st"
| "insert_each env cid evtPrio (pid # pids) st =
     do { p \<leftarrow> get_mgr st pid;
          c \<leftarrow> get_mgr st cid;
          if m_state p \<noteq> ACTIVE \<or> m_interfaces p = [] then insert_each env cid evtPrio pids st
          else do { f \<leftarrow> read_filter p;
                    if \<not> passes f c then insert_each env cid evtPrio pids st
                    else do { st1 \<leftarrow> inject_into env cid pid evtPrio st;
                              insert_each env cid evtPrio pids st1 } } }"

definition handle_insert :: "env \<Rightarrow> type_hash \<Rightarrow> event \<Rightarrow> mgr \<Rightarrow> dm \<Rightarrow> dm option" where
  "handle_insert env iservice evt m st =
     (let cid = ev_origin evt;
          st1 = st\<lparr>dm_services := dm_emplace cid m (dm_services st)\<rparr>
      in do { c \<leftarrow> get_mgr st1 cid;
              (sb, c', _) \<leftarrow> dependencyOnline c (new_self_manager iservice);
              st2 \<leftarrow> (if sb = STARTED then run_start_after env cid (ev_priority evt) (put_mgr cid c' st1)
                     else Some (put_mgr cid c' st1));
              c2 \<leftarrow> get_mgr st2 cid;
              case getDependencyRegistry c2 of
                None \<Rightarrow> Some st2
              | Some reg \<Rightarrow>
                  if reg = [] then Some st2
                  else insert_each env cid (ev_priority evt) (map fst (dm_services st2)) st2 })"

section \<open>\<^verbatim>\<open>StopServiceEvent\<close>\<close>

fun finish_pending :: "service_id \<Rightarrow> priority \<Rightarrow> waiting_stop list \<Rightarrow> dm \<Rightarrow> dm option" where
  "finish_pending sid evtPrio [] st = Some st"
| "finish_pending sid evtPrio (w # ws) st =
     do { p \<leftarrow> get_mgr st (ws_origin w);
          c \<leftarrow> get_mgr st sid;
          (c', p') \<leftarrow> finishDependencyOffline c p (ws_deps w);
          let st1 = put_pair sid c' (ws_origin w) p' st in
          finish_pending sid evtPrio ws
            (if m_dependees p' = []
             then push_event sid (min INTERNAL_COROUTINE_EVENT_PRIORITY evtPrio)
                    (StopServiceEvent (ws_origin w) (ws_remove w)) st1
             else st1) }"

definition erase_dependee :: "service_id \<Rightarrow> service_id \<Rightarrow> dm \<Rightarrow> dm" where
  "erase_dependee sid dep st =
     st\<lparr>dm_services := dm_modify dep (\<lambda>m. m\<lparr>m_dependees := ds_erase sid (m_dependees m)\<rparr>) (dm_services st)\<rparr>"

definition detach :: "service_id \<Rightarrow> service_id list \<Rightarrow> dm \<Rightarrow> dm" where
  "detach sid deps st =
     (let st1 = fold (erase_dependee sid) deps st
      in st1\<lparr>dm_services := dm_modify sid (\<lambda>m. m\<lparr>m_injected := []\<rparr>) (dm_services st1)\<rparr>)"

definition finish_stop :: "env \<Rightarrow> service_id \<Rightarrow> bool \<Rightarrow> priority \<Rightarrow> dm \<Rightarrow> dm option" where
  "finish_stop env sid removeAfter evtPrio st =
     do { st1 \<leftarrow> (case dm_find sid (dm_pendingDeps st) of
                  None \<Rightarrow> Some st
                | Some ws \<Rightarrow>
                    map_option (\<lambda>s. s\<lparr>dm_pendingDeps := dm_erase sid (dm_pendingDeps s)\<rparr>)
                      (finish_pending sid evtPrio ws st));
          m \<leftarrow> get_mgr st1 sid;
          let st2 = clearServiceRegistrations sid (detach sid (m_injected m) st1) in
          if removeAfter then removeInternalService env sid st2 else Some st2 }"

definition run_stop :: "env \<Rightarrow> event \<Rightarrow> service_id \<Rightarrow> bool \<Rightarrow> dm \<Rightarrow> dm option" where
  "run_stop env evt sid removeAfter st =
     do { m \<leftarrow> get_mgr st sid;
          m1 \<leftarrow> stop_enter m;
          case next_promise (put_mgr sid m1 st) of (pid, st1) \<Rightarrow>
          do { (out, st2) \<leftarrow> (if m_kind m = Internal_Manager then Some (O_Finished True, st1)
                             else user env (U_Stop sid) st1);
               case out of
                 O_Suspended \<Rightarrow>
                   Some (store_generator pid
                     \<lparr>sg_service = sid, sg_priority = set_priority_of m, sg_ref = pid, sg_event = evt,
                      sg_body = GB_Stop sid\<rparr> (st2\<lparr>dm_moved := True\<rparr>))
               | O_Finished b \<Rightarrow>
                   do { m2 \<leftarrow> get_mgr st2 sid;
                        let m3 = (if m_kind m = Internal_Manager then m2 else snd (internal_stop_exit m2)) in
                        if m_state m3 \<noteq> INSTALLED then None
                        else do { st3 \<leftarrow> finish_stop env sid removeAfter (ev_priority evt) (put_mgr sid m3 st2);
                                  checkIfCanQuit st3 } } } }"

definition handle_stop :: "env \<Rightarrow> event \<Rightarrow> service_id \<Rightarrow> bool \<Rightarrow> dm \<Rightarrow> dm option" where
  "handle_stop env evt sid removeAfter st =
     (case get_mgr st sid of
        None \<Rightarrow> Some st
      | Some m \<Rightarrow>
          if m_state m = INSTALLED \<or> m_state m = STOPPING then Some st
          else if dm_contains sid (dm_depWaiters st) \<and> (m_dependees m \<noteq> [] \<or> m_state m \<noteq> UNINJECTING)
          then Some st
          else do { st1 \<leftarrow> (if dm_contains sid (dm_depWaiters st)
                           then finishWaitingService env sid T_Offline st else Some st);
                    m1 \<leftarrow> get_mgr st1 sid;
                    if existingCoroutineFor sid st1
                    then Some (st1\<lparr>dm_pendingCoroutine := dm_emplace sid
                           \<lparr>ws_origin = ev_origin evt, ws_priority = ev_priority evt, ws_remove = removeAfter, ws_deps = []\<rparr>
                           (dm_pendingCoroutine st1)\<rparr>)
                    else if m_dependees m1 = [] \<and> m_state m1 = UNINJECTING
                    then run_stop env evt sid removeAfter st1
                    else if m_state m1 \<noteq> UNINJECTING
                    then Some (push_event sid (ev_priority evt) (DependencyOfflineEvent removeAfter) st1)
                    else Some st1 })"

section \<open>\<^verbatim>\<open>StartServiceEvent\<close> and \<^verbatim>\<open>RemoveServiceEvent\<close>\<close>

definition handle_start :: "env \<Rightarrow> event \<Rightarrow> service_id \<Rightarrow> dm \<Rightarrow> dm option" where
  "handle_start env evt sid st =
     (case get_mgr st sid of
        None \<Rightarrow> Some st
      | Some m \<Rightarrow>
          if m_state m = ACTIVE \<or> m_state m = STARTING \<or> m_state m = INJECTING then Some st
          else do { (entry, m1) \<leftarrow> start_enter m;
                    case next_promise (put_mgr sid m1 st) of (pid, st1) \<Rightarrow>
                    do { (out, st2) \<leftarrow> (if entry = Start_Awaits then user env (U_Start sid) st1
                                       else Some (O_Finished True, st1));
                         case out of
                           O_Suspended \<Rightarrow>
                             Some (store_generator pid
                               \<lparr>sg_service = sid, sg_priority = set_priority_of m, sg_ref = pid, sg_event = evt,
                                sg_body = GB_Start sid\<rparr> (st2\<lparr>dm_moved := True\<rparr>))
                         | O_Finished ok \<Rightarrow>
                             do { m2 \<leftarrow> get_mgr st2 sid;
                                  let m3 = (if entry = Start_Awaits then snd (internal_start_exit ok m2) else m2);
                                      st3 = put_mgr sid m3 st2 in
                                  Some (if m_state m3 = INSTALLED then st3
                                        else stop_if_quitting sid (ev_priority evt)
                                               (push_event sid (min INTERNAL_DEPENDENCY_EVENT_PRIORITY (ev_priority evt))
                                                  DependencyOnlineEvent st3)) } } })"

definition handle_remove_service :: "env \<Rightarrow> service_id \<Rightarrow> dm \<Rightarrow> dm option" where
  "handle_remove_service env sid st =
     (case get_mgr st sid of
        None \<Rightarrow> Some st
      | Some m \<Rightarrow>
          if m_state m \<noteq> INSTALLED \<or> m_dependees m \<noteq> [] \<or> m_injected m \<noteq> [] then Some st
          else removeInternalService env sid st)"

section \<open>Continuations\<close>

definition use_count :: "promise_id \<Rightarrow> dm \<Rightarrow> nat" where
  "use_count ref st = length (filter (\<lambda>(pid, g). sg_ref g = ref) (dm_generators st))"

definition erase_generator :: "promise_id \<Rightarrow> dm \<Rightarrow> dm" where
  "erase_generator pid st = st\<lparr>dm_generators := dm_erase pid (dm_generators st)\<rparr>"

definition requeue_stop :: "service_id \<Rightarrow> dm \<Rightarrow> dm" where
  "requeue_stop sid st =
     (case dm_find sid (dm_pendingCoroutine st) of
        None \<Rightarrow> st
      | Some w \<Rightarrow>
          push_event (ws_origin w) (min INTERNAL_DEPENDENCY_EVENT_PRIORITY (ws_priority w))
            (StopServiceEvent sid (ws_remove w)) st)"

definition complete_ichor :: "env \<Rightarrow> promise_id \<Rightarrow> scoped_generator \<Rightarrow> dm \<Rightarrow> dm option" where
  "complete_ichor env pid g st =
     do { st1 \<leftarrow> (if use_count (sg_ref g) st = 1 then handleEventCompletion env (sg_event g) st else Some st);
          Some (erase_generator pid (requeue_stop (sg_service g) st1)) }"

definition handle_continuable :: "env \<Rightarrow> promise_id \<Rightarrow> dm \<Rightarrow> dm option" where
  "handle_continuable env pid st =
     (case dm_find pid (dm_generators st) of
        None \<Rightarrow> Some st
      | Some g \<Rightarrow>
          do { st1 \<leftarrow> (if sg_body g = GB_DoneIchor then complete_ichor env pid g st
                      else do { (out, st1) \<leftarrow> user env (U_Continue pid) st;
                                if out = O_Suspended then Some st1 else complete_ichor env pid g st1 });
               checkIfCanQuit st1 })"

definition continue_start :: "env \<Rightarrow> event \<Rightarrow> event \<Rightarrow> service_id \<Rightarrow> dm \<Rightarrow> dm option" where
  "continue_start env evt orig sid st =
     handleEventCompletion env orig
       (stop_if_quitting sid (ev_priority evt)
          (push_event sid (min INTERNAL_COROUTINE_EVENT_PRIORITY (ev_priority evt)) DependencyOnlineEvent st))"

definition continue_stop :: "env \<Rightarrow> promise_id \<Rightarrow> event \<Rightarrow> service_id \<Rightarrow> bool \<Rightarrow> dm \<Rightarrow> dm option" where
  "continue_stop env pid orig sid removeAfter st =
     do { m \<leftarrow> get_mgr st sid;
          if m_state m \<noteq> INSTALLED \<or> m_dependees m \<noteq> [] then None
          else do { st1 \<leftarrow> finish_stop env sid removeAfter (ev_priority orig) st;
                    st2 \<leftarrow> handleEventCompletion env orig st1;
                    checkIfCanQuit (erase_generator pid st2) } }"

definition continue_online :: "env \<Rightarrow> event \<Rightarrow> event \<Rightarrow> StartBehaviour \<Rightarrow> dm \<Rightarrow> dm option" where
  "continue_online env evt orig ret st =
     handleEventCompletion env orig
       (if ret = STARTED
        then push_event (ev_origin orig) (min INTERNAL_COROUTINE_EVENT_PRIORITY (ev_priority evt)) DependencyOnlineEvent st
        else st)"

definition continue_offline ::
  "env \<Rightarrow> event \<Rightarrow> event \<Rightarrow> StartBehaviour \<Rightarrow> service_id \<Rightarrow> bool \<Rightarrow> nat list \<Rightarrow> dm \<Rightarrow> dm option" where
  "continue_offline env evt orig ret provider removeAfter deps st =
     do { p \<leftarrow> get_mgr st provider;
          c \<leftarrow> get_mgr st (ev_origin orig);
          st1 \<leftarrow> (if ret = STOP_ME
                 then Some (add_pending_dep (ev_origin orig)
                        \<lparr>ws_origin = provider, ws_priority = ev_priority evt, ws_remove = removeAfter, ws_deps = deps\<rparr>
                        (if no_pending_dep (ev_origin orig) st \<or> (m_state c = UNINJECTING \<and> m_dependees c = [])
                         then push_event (ev_origin evt) (ev_priority evt) (StopServiceEvent (ev_origin orig) removeAfter) st
                         else st))
                 else do { (c', p') \<leftarrow> finishDependencyOffline c p deps;
                           let st1 = put_pair (ev_origin orig) c' provider p' st in
                           if m_dependees p' = []
                           then finishWaitingService env provider T_Offline
                                  (push_event provider (min INTERNAL_COROUTINE_EVENT_PRIORITY (ev_priority evt))
                                     (StopServiceEvent provider removeAfter) st1)
                           else Some st1 });
          handleEventCompletion env orig st1 }"

definition handle_continuable_start :: "env \<Rightarrow> event \<Rightarrow> promise_id \<Rightarrow> dm \<Rightarrow> dm option" where
  "handle_continuable_start env evt pid st =
     (case dm_find pid (dm_generators st) of
        None \<Rightarrow> Some st
      | Some g \<Rightarrow>
          (case sg_body g of
             GB_DoneStart ret \<Rightarrow>
               (case ev_payload (sg_event g) of
                  StartServiceEvent sid \<Rightarrow>
                    map_option (erase_generator pid) (continue_start env evt (sg_event g) sid st)
                | StopServiceEvent sid r \<Rightarrow> continue_stop env pid (sg_event g) sid r st
                | DependencyOnlineEvent \<Rightarrow>
                    map_option (erase_generator pid) (continue_online env evt (sg_event g) ret st)
                | ContinuableDependencyOfflineEvent provider r deps \<Rightarrow>
                    map_option (erase_generator pid) (continue_offline env evt (sg_event g) ret provider r deps st)
                | _ \<Rightarrow> None)
           | _ \<Rightarrow> Some st))"

section \<open>Functions and events of the services\<close>

definition stale :: "event \<Rightarrow> dm \<Rightarrow> bool" where
  "stale evt st =
     (ev_origin evt \<noteq> 0 \<and>
      (case get_mgr st (ev_origin evt) of None \<Rightarrow> True | Some m \<Rightarrow> m_state m = INSTALLED))"

definition handle_run_function :: "env \<Rightarrow> event \<Rightarrow> nat \<Rightarrow> dm \<Rightarrow> dm option" where
  "handle_run_function env evt fn st =
     (if stale evt st then Some st else map_option snd (user env (U_Function fn) st))"

definition handle_run_function_async :: "env \<Rightarrow> event \<Rightarrow> nat \<Rightarrow> dm \<Rightarrow> dm option" where
  "handle_run_function_async env evt fn st =
     (if stale evt st then Some st
      else do { (ref, st1) \<leftarrow> run_ichor env (U_FunctionAsync fn) (ev_origin evt) (ev_priority evt) None evt st;
                Some (st1\<lparr>dm_moved := (ref \<noteq> None)\<rparr>) })"

fun broadcast_each :: "env \<Rightarrow> event \<Rightarrow> callback list \<Rightarrow> promise_id option \<Rightarrow> dm \<Rightarrow> dm option" where
  "broadcast_each env evt [] ref st = Some (st\<lparr>dm_moved := (ref \<noteq> None)\<rparr>)"
| "broadcast_each env evt (cb # cbs) ref st =
     (case get_mgr st (cb_service cb) of
        None \<Rightarrow> broadcast_each env evt cbs ref st
      | Some m \<Rightarrow>
          if (m_state m \<noteq> ACTIVE \<and> m_state m \<noteq> INJECTING) \<or>
             (cb_filter cb \<noteq> None \<and> cb_filter cb \<noteq> Some (ev_origin evt))
          then broadcast_each env evt cbs ref st
          else do { (ref', st1) \<leftarrow> run_ichor env (U_Handle (cb_service cb) evt) (cb_service cb) (m_priority m) ref evt st;
                    broadcast_each env evt cbs ref' st1 })"

definition broadcastEvent :: "env \<Rightarrow> event \<Rightarrow> dm \<Rightarrow> dm option" where
  "broadcastEvent env evt st =
     (case dm_find (get_type evt) (dm_callbacks st) of
        None \<Rightarrow> Some (st\<lparr>dm_handlers := 0\<rparr>)
      | Some cbs \<Rightarrow>
          do { st1 \<leftarrow> broadcast_each env evt cbs None st; Some (st1\<lparr>dm_handlers := length cbs\<rparr>) })"

section \<open>\<^verbatim>\<open>processEvent\<close>\<close>

definition dispatch :: "env \<Rightarrow> type_hash \<Rightarrow> event \<Rightarrow> dm \<Rightarrow> dm option" where
  "dispatch env iservice evt st =
     (case ev_payload evt of
        DependencyOnlineEvent \<Rightarrow> handle_online env evt st
      | DependencyOfflineEvent r \<Rightarrow> handle_offline env evt r st
      | DependencyRequestEvent dep props \<Rightarrow> handle_request env evt dep st
      | QuitEvent \<Rightarrow> handle_quit evt st
      | InsertServiceEvent m \<Rightarrow> handle_insert env iservice evt m st
      | StopServiceEvent sid r \<Rightarrow> handle_stop env evt sid r st
      | StartServiceEvent sid \<Rightarrow> handle_start env evt sid st
      | RemoveServiceEvent sid \<Rightarrow> handle_remove_service env sid st
      | RemoveEventHandlerEvent sid t \<Rightarrow> Some (handle_remove_handler sid t st)
      | RemoveEventInterceptorEvent iid t \<Rightarrow> Some (handle_remove_interceptor iid t st)
      | AddTrackerEvent h \<Rightarrow> handle_add_tracker env evt h st
      | RemoveTrackerEvent h \<Rightarrow> Some (handle_remove_tracker evt h st)
      | ContinuableEvent pid \<Rightarrow> handle_continuable env pid st
      | ContinuableStartEvent pid \<Rightarrow> handle_continuable_start env evt pid st
      | RunFunctionEvent fn \<Rightarrow> handle_run_function env evt fn st
      | RunFunctionEventAsync fn \<Rightarrow> handle_run_function_async env evt fn st
      | _ \<Rightarrow> broadcastEvent env evt st)"

definition interceptors_for :: "event_type \<Rightarrow> dm \<Rightarrow> interceptor list" where
  "interceptors_for t st = (case dm_find t (dm_interceptors st) of None \<Rightarrow> [] | Some is \<Rightarrow> is)"

definition processEvent :: "env \<Rightarrow> type_hash \<Rightarrow> event \<Rightarrow> dm \<Rightarrow> dm option" where
  "processEvent env iservice evt st =
     (if dm_quitDone st then Some st
      else if get_type evt = T_All then None
      else do { let all = interceptors_for T_All st;
                (allow1, st1) \<leftarrow> pre_intercept env evt all True st;
                let own = (if dm_contains (get_type evt) (dm_interceptors st)
                           then interceptors_for (get_type evt) st1 else []);
                (allow, st2) \<leftarrow> pre_intercept env evt own allow1 st1;
                let st3 = st2\<lparr>dm_allCopy := all, dm_evtCopy := own, dm_moved := False, dm_handlers := 1\<rparr>;
                st4 \<leftarrow> (if allow then dispatch env iservice evt st3 else Some st3);
                st5 \<leftarrow> post_intercept env evt (allow \<and> dm_handlers st4 > 0) (dm_allCopy st4) st4;
                st6 \<leftarrow> post_intercept env evt (allow \<and> dm_handlers st4 > 0) (dm_evtCopy st4) st5;
                if dm_moved st6 then Some st6 else handleEventCompletion env evt st6 })"

section \<open>Coroutines that continue, shutting down, queries\<close>

text \<open>
  \<open>resume_generator\<close> is a suspended coroutine that continues: the code of the service runs on, and
  either suspends again or ends, in which case the code of the framework that awaited it runs to its
  own end, which pushes the event that finishes the generator.
\<close>

definition resume_generator :: "env \<Rightarrow> promise_id \<Rightarrow> dm \<Rightarrow> dm option" where
  "resume_generator env pid st =
     (case dm_find pid (dm_generators st) of
        None \<Rightarrow> Some st
      | Some g \<Rightarrow>
          do { (out, st1) \<leftarrow> user env (U_Continue pid) st;
               case out of
                 O_Suspended \<Rightarrow> Some st1
               | O_Finished ok \<Rightarrow>
                   (case sg_body g of
                      GB_Start sid \<Rightarrow>
                        do { m \<leftarrow> get_mgr st1 sid;
                             case internal_start_exit ok m of (sb, m1) \<Rightarrow>
                               Some (finish_start_generator pid g sb (put_mgr sid m1 st1)) }
                    | GB_StartAfter sid \<Rightarrow>
                        do { m \<leftarrow> get_mgr st1 sid;
                             case internal_start_exit ok m of (sb, m1) \<Rightarrow>
                               Some (finish_start_generator pid g (after_online_result sb) (put_mgr sid m1 st1)) }
                    | GB_Stop sid \<Rightarrow>
                        do { m \<leftarrow> get_mgr st1 sid;
                             case internal_stop_exit m of (sb, m1) \<Rightarrow>
                               Some (finish_start_generator pid g sb (put_mgr sid m1 st1)) }
                    | GB_Ichor \<Rightarrow>
                        Some (push_event (sg_service g) (sg_priority g) (ContinuableEvent pid)
                                (set_body pid GB_DoneIchor st1))
                    | _ \<Rightarrow> Some st1) })"

fun stop_each :: "env \<Rightarrow> service_id list \<Rightarrow> dm \<Rightarrow> dm option" where
  "stop_each env [] st = Some st"
| "stop_each env (sid # sids) st =
     do { m \<leftarrow> get_mgr st sid;
          if m_state m \<noteq> ACTIVE then stop_each env sids st
          else do { m1 \<leftarrow> stop_enter m;
                    (out, st1) \<leftarrow> (if m_kind m = Internal_Manager then Some (O_Finished True, put_mgr sid m1 st)
                                  else user env (U_Stop sid) (put_mgr sid m1 st));
                    stop_each env sids st1 } }"

definition dm_stop :: "env \<Rightarrow> dm \<Rightarrow> dm option" where
  "dm_stop env st =
     do { st1 \<leftarrow> stop_each env (map fst (dm_services st)) st;
          Some (st1\<lparr>dm_services := [], dm_started := False\<rparr>) }"

definition getIService :: "service_id \<Rightarrow> dm \<Rightarrow> mgr option" where
  "getIService sid st = get_mgr st sid"

definition getDependencyRequestsForService :: "service_id \<Rightarrow> dm \<Rightarrow> Dependency list" where
  "getDependencyRequestsForService sid st =
     (case get_mgr st sid of
        None \<Rightarrow> []
      | Some m \<Rightarrow> (case getDependencyRegistry m of None \<Rightarrow> [] | Some reg \<Rightarrow> map reg_dep reg))"

definition getProvidedInterfacesForService :: "service_id \<Rightarrow> dm \<Rightarrow> Dependency list" where
  "getProvidedInterfacesForService sid st =
     (case get_mgr st sid of None \<Rightarrow> [] | Some m \<Rightarrow> m_interfaces m)"

definition getDependentsForService :: "service_id \<Rightarrow> dm \<Rightarrow> mgr list" where
  "getDependentsForService sid st =
     (case get_mgr st sid of
        None \<Rightarrow> []
      | Some m \<Rightarrow> List.map_filter (\<lambda>d. get_mgr st d) (m_dependees m))"

definition getService :: "type_hash \<Rightarrow> service_id \<Rightarrow> dm \<Rightarrow> mgr option" where
  "getService h sid st =
     (case get_mgr st sid of None \<Rightarrow> None | Some m \<Rightarrow> if provides m h then Some m else None)"

definition getTrackersForService :: "service_id \<Rightarrow> dm \<Rightarrow> type_hash list" where
  "getTrackersForService sid st = map fst (filter (\<lambda>(h, ts). sid \<in> set ts) (dm_trackers st))"

definition getStartedServices :: "type_hash \<Rightarrow> dm \<Rightarrow> service_id list" where
  "getStartedServices h st =
     map fst (filter (\<lambda>(sid, m). m_state m = ACTIVE \<and> provides m h) (dm_services st))"

definition getAllServicesOfType :: "type_hash \<Rightarrow> dm \<Rightarrow> service_id list" where
  "getAllServicesOfType h st = map fst (filter (\<lambda>(sid, m). provides m h) (dm_services st))"

end
