(* ===== verification/Manager_Steps.thy ===== *)
theory Manager_Steps
  imports Event_Processing
begin

text \<open>
  What holds of every event the dependency manager processes is proved here once, for any relation
  between the states before and after that the elementary changes of the state respect. The first
  locale names the changes that the code of the services can make through the operations offered to
  it, the second adds the changes only the event handlers make. A property of the manager is then an
  interpretation: it remains to check the elementary changes.
\<close>

lemma not_finished [simp]: "(\<forall>b. out \<noteq> O_Finished b) \<longleftrightarrow> out = O_Suspended"
  by (cases out) auto

text \<open>The phases of an event: the interceptors before, the handler, the interceptors after, the completion.\<close>

lemma processEvent_phases:
  assumes "processEvent env iservice evt st = Some st'" and "\<not> (dm_quitDone st \<or> get_type evt = T_All)"
  obtains own allow1 st1 allow st2 st3 st4 st5 st6 b where
    "pre_intercept env evt (interceptors_for T_All st) True st = Some (allow1, st1)"
    "pre_intercept env evt own allow1 st1 = Some (allow, st2)"
    "st3 = st2\<lparr>dm_allCopy := interceptors_for T_All st, dm_evtCopy := own, dm_moved := False, dm_handlers := 1\<rparr>"
    "(if allow then dispatch env iservice evt st3 else Some st3) = Some st4"
    "post_intercept env evt b (dm_allCopy st4) st4 = Some st5"
    "post_intercept env evt b (dm_evtCopy st4) st5 = Some st6"
    "(if dm_moved st6 then Some st6 else handleEventCompletion env evt st6) = Some st'"
proof -
  let ?own = "\<lambda>st1. if dm_contains (get_type evt) (dm_interceptors st)
    then interceptors_for (get_type evt) st1 else []"
  let ?st3 = "\<lambda>own st2. st2\<lparr>dm_allCopy := interceptors_for T_All st, dm_evtCopy := own, dm_moved := False, dm_handlers := 1\<rparr>"
  obtain allow1 st1 allow st2 st4 st5 st6 b where
    "pre_intercept env evt (interceptors_for T_All st) True st = Some (allow1, st1)"
    "pre_intercept env evt (?own st1) allow1 st1 = Some (allow, st2)"
    "(if allow then dispatch env iservice evt (?st3 (?own st1) st2) else Some (?st3 (?own st1) st2)) = Some st4"
    "post_intercept env evt b (dm_allCopy st4) st4 = Some st5"
    "post_intercept env evt b (dm_evtCopy st4) st5 = Some st6"
    "(if dm_moved st6 then Some st6 else handleEventCompletion env evt st6) = Some st'"
    using assms unfolding processEvent_def Let_def by (auto simp: bind_eq_Some_conv)
  then show thesis by (intro that [OF _ _ refl]) assumption+
qed

section \<open>Changes made by the code of the services\<close>

locale user_relation =
  fixes R :: "dm \<Rightarrow> dm \<Rightarrow> bool"
  assumes R_refl: "R st st"
    and R_trans: "R a b \<Longrightarrow> R b c \<Longrightarrow> R a c"
    and R_push: "R st (push_event orig prio p st)"
    and R_event_id: "R st (st\<lparr>dm_eventCounter := dm_eventCounter st + 1\<rparr>)"
    and R_promise_id: "R st (st\<lparr>dm_promiseCounter := dm_promiseCounter st + 1\<rparr>)"
    and R_service_id: "R st (st\<lparr>dm_serviceCounter := dm_serviceCounter st + 1\<rparr>)"
    and R_interceptor_id: "R st (st\<lparr>dm_interceptorCounter := dm_interceptorCounter st + 1\<rparr>)"
    and R_trackers: "R st (st\<lparr>dm_trackers := tr\<rparr>)"
    and R_callbacks: "R st (st\<lparr>dm_callbacks := cb\<rparr>)"
    and R_interceptors: "R st (st\<lparr>dm_interceptors := ic\<rparr>)"
    and R_generators: "R st (st\<lparr>dm_generators := g\<rparr>)"
    and R_eventWaiters: "R st (st\<lparr>dm_eventWaiters := ew\<rparr>)"
    and R_waitForService: "R st (waitForService sid ty w st)"
    and R_copies: "R st (st\<lparr>dm_allCopy := ac, dm_evtCopy := ec\<rparr>)"
    and R_locals: "R st (st\<lparr>dm_moved := mv, dm_handlers := n\<rparr>)"
    and R_priority: "R st (setServicePriority sid prio st)"
begin

lemma R_push_after: "R st st' \<Longrightarrow> R st (push_event orig prio p st')"
  using R_trans R_push by blast

lemma R_moved: "R st (st\<lparr>dm_moved := mv\<rparr>)"
  using R_locals [of st "dm_handlers st" mv] by simp

lemma R_handlers: "R st (st\<lparr>dm_handlers := n\<rparr>)"
  using R_locals [of st n "dm_moved st"] by simp

lemma R_next_promise: "next_promise st = (pid, st') \<Longrightarrow> R st st'"
  using R_promise_id by (auto simp: next_promise_def)

lemma R_next_event_id: "next_event_id st = (eid, st') \<Longrightarrow> R st st'"
  using R_event_id by (auto simp: next_event_id_def)

lemma R_store_generator: "R st (store_generator pid g st)"
  by (simp add: store_generator_def R_generators)

lemma R_set_body: "R st (set_body pid b st)"
  by (simp add: set_body_def R_generators)

lemma R_push_requests: "R st (push_requests sid prio reg st)"
  by (induction sid prio reg st rule: push_requests.induct) (auto intro: R_refl R_trans R_push)

lemma R_internalCreateServiceManager:
  assumes "internalCreateServiceManager ty ifs oreg props prio st = Some (sid, st')"
  shows "R st st'"
proof -
  let ?st0 = "st\<lparr>dm_serviceCounter := dm_serviceCounter st + 1\<rparr>"
  have "R st (push_event a b c ?st0)" for a b c
    using R_service_id R_push by (rule R_trans)
  then have "R st (push_requests d e reg (push_event a b c ?st0))" for a b c d e reg
    by (rule R_trans) (rule R_push_requests)
  then show ?thesis
    using assms \<open>\<And>a b c. R st (push_event a b c ?st0)\<close>
    by (auto simp: internalCreateServiceManager_def Let_def intro: R_push_after split: option.splits if_splits)
qed

lemma R_registerEventInterceptor: "R st (registerEventInterceptor sid t st)"
proof -
  have "R (st\<lparr>dm_interceptorCounter := dm_interceptorCounter st + 1\<rparr>) (registerEventInterceptor sid t st)"
    using R_interceptors [of "st\<lparr>dm_interceptorCounter := dm_interceptorCounter st + 1\<rparr>"]
    by (simp add: registerEventInterceptor_def)
  then show ?thesis using R_interceptor_id R_trans by blast
qed

lemma R_pushPrioritisedEventAsync:
  assumes "pushPrioritisedEventAsync orig prio c p tok st = Some st'"
  shows "R st st'"
proof -
  have "R st ((push_event orig prio p st)\<lparr>dm_eventWaiters := ew\<rparr>)" for ew
    using R_push R_eventWaiters by (rule R_trans)
  then show ?thesis
    using assms R_eventWaiters
    by (auto simp: pushPrioritisedEventAsync_def Let_def split: if_splits option.splits)
qed

lemma R_registerDependencyTracker:
  "registerDependencyTracker sid h st = Some st' \<Longrightarrow> R st st'"
  using R_trackers
  by (auto simp: registerDependencyTracker_def intro: R_push_after split: option.splits if_splits)

lemma R_wait:
  "waitForServiceStarted sid tok st = Some (w, st') \<Longrightarrow> R st st'"
  "waitForServiceStopped sid tok st = Some (w, st') \<Longrightarrow> R st st'"
  using R_waitForService
  by (auto simp: waitForServiceStarted_def waitForServiceStopped_def intro: R_refl split: option.splits if_splits)

lemma R_apply_action: "apply_action a st = Some st' \<Longrightarrow> R st st'"
  using R_push R_callbacks R_priority
  by (cases a)
    (auto simp: registerEventHandler_def
      intro: R_pushPrioritisedEventAsync R_internalCreateServiceManager R_registerEventInterceptor
        R_registerDependencyTracker R_wait)

lemma R_apply_actions: "apply_actions as st = Some st' \<Longrightarrow> R st st'"
  by (induction as arbitrary: st) (auto simp: bind_eq_Some_conv intro: R_refl R_apply_action R_trans)

lemma R_user: "user env c st = Some (out, st') \<Longrightarrow> R st st'"
  by (auto simp: user_def intro: R_apply_actions split: prod.splits)

lemma R_resume_all: "resume_all env ws st = Some st' \<Longrightarrow> R st st'"
  by (induction env ws st rule: resume_all.induct)
    (auto simp: bind_eq_Some_conv intro: R_refl R_trans R_user)

lemma R_handleEventCompletion:
  assumes "handleEventCompletion env evt st = Some st'"
  shows "R st st'"
  using assms R_trans [OF R_resume_all R_eventWaiters]
  by (auto simp: handleEventCompletion_def bind_eq_Some_conv intro: R_refl split: option.splits)

lemma R_pre_intercept: "pre_intercept env evt is allow st = Some (b, st') \<Longrightarrow> R st st'"
  by (induction env evt "is" allow st rule: pre_intercept.induct)
    (auto simp: bind_eq_Some_conv intro: R_refl R_trans R_user)

lemma R_post_intercept: "post_intercept env evt p is st = Some st' \<Longrightarrow> R st st'"
  by (induction env evt p "is" st rule: post_intercept.induct)
    (auto simp: bind_eq_Some_conv intro: R_refl R_trans R_user)

lemma R_run_ichor:
  assumes "run_ichor env call sid prio ref evt st = Some (ref', st')"
  shows "R st st'"
proof -
  obtain pid st1 where st1: "next_promise st = (pid, st1)" by fastforce
  obtain out st2 where st2: "user env call st1 = Some (out, st2)"
    using assms st1 by (auto simp: run_ichor_def bind_eq_Some_conv)
  have "R st st2" using R_next_promise [OF st1] R_user [OF st2] by (rule R_trans)
  then show ?thesis
    using assms st1 st2 R_trans [OF _ R_store_generator]
    by (auto simp: run_ichor_def Let_def split: outcome.splits)
qed

lemma R_request_each: "request_each env evt ts ref st = Some st' \<Longrightarrow> R st st'"
  by (induction env evt ts ref st rule: request_each.induct)
    (auto simp: bind_eq_Some_conv intro: R_moved R_trans R_run_ichor)

lemma R_track_each: "track_each env tsid prio reqs st = Some st' \<Longrightarrow> R st st'"
  by (induction env tsid prio reqs st rule: track_each.induct)
    (auto simp: bind_eq_Some_conv intro: R_refl R_trans R_run_ichor)

lemma R_broadcast_each: "broadcast_each env evt cbs ref st = Some st' \<Longrightarrow> R st st'"
  by (induction env evt cbs ref st rule: broadcast_each.induct)
    (auto simp: bind_eq_Some_conv intro: R_moved R_trans R_run_ichor split: option.splits if_splits)

lemma R_broadcastEvent: "broadcastEvent env evt st = Some st' \<Longrightarrow> R st st'"
  using R_trans [OF R_broadcast_each R_handlers]
  by (auto simp: broadcastEvent_def bind_eq_Some_conv intro: R_handlers split: option.splits)

lemma R_untrack_step:
  assumes "user env c (snd (next_promise st)) = Some (out, st2)"
  shows "R st st2" and "R st (store_generator pid g (snd (next_event_id st2)))"
proof -
  show "R st st2" using R_promise_id R_user [OF assms] R_trans by (fastforce simp: next_promise_def)
  then have "R st (snd (next_event_id st2))" using R_event_id R_trans by (fastforce simp: next_event_id_def)
  then show "R st (store_generator pid g (snd (next_event_id st2)))" using R_store_generator by (rule R_trans)
qed

lemma R_untrack_all: "untrack_all env evt ts n st = Some (k, st') \<Longrightarrow> R st st'"
proof (induction ts arbitrary: n st)
  case Nil
  then show ?case by (simp add: R_refl)
next
  case (Cons tsid ts)
  from Cons.prems consider "untrack_all env evt ts n st = Some (k, st')"
    | st2 n' where "R st st2" "untrack_all env evt ts n' st2 = Some (k, st')"
    by (auto simp: bind_eq_Some_conv case_prod_beta split: if_split_asm outcome.split_asm
        intro: R_untrack_step)
  then show ?case using Cons.IH R_trans by cases blast+
qed

lemma R_undo_request:
  assumes "undo_request env evt h st = Some st'"
  shows "R st st'"
proof -
  from assms obtain b1 st1 b2 st2 n st3 st4 where
    s: "pre_intercept env evt (dm_allCopy st) True st = Some (b1, st1)"
      "pre_intercept env evt (dm_evtCopy st) True st1 = Some (b2, st2)"
      "(case dm_find h (dm_trackers st2) of
          None \<Rightarrow> Some (0, st2) | Some ts \<Rightarrow> untrack_all env evt ts 0 st2) = Some (n, st3)"
      "post_intercept env evt (n > 0) (dm_allCopy st) st3 = Some st4"
      "post_intercept env evt (n > 0) (dm_evtCopy st) st4 = Some st'"
    by (auto simp: undo_request_def bind_eq_Some_conv)
  have "R st2 st3" using s(3) R_untrack_all by (auto intro: R_refl split: option.splits)
  then show ?thesis
    using R_pre_intercept [OF s(1)] R_pre_intercept [OF s(2)] R_post_intercept [OF s(4)]
      R_post_intercept [OF s(5)] R_trans by blast
qed

lemma R_undo_requests: "undo_requests env sid reg st = Some st' \<Longrightarrow> R st st'"
proof (induction reg arbitrary: st)
  case Nil
  then show ?case by (simp add: R_refl)
next
  case (Cons r reg)
  then show ?case
    using R_event_id R_undo_request R_trans
    by (auto simp: bind_eq_Some_conv next_event_id_def) (metis (no_types))
qed

lemma R_clearServiceRegistrations: "R st (clearServiceRegistrations sid st)"
proof -
  let ?a = "st\<lparr>dm_trackers := prune (\<lambda>s. s = sid) (dm_trackers st)\<rparr>"
  let ?b = "?a\<lparr>dm_callbacks := prune (\<lambda>c. cb_service c = sid) (dm_callbacks st)\<rparr>"
  let ?c = "?b\<lparr>dm_interceptors := prune (\<lambda>i. ic_service i = sid) (dm_interceptors st)\<rparr>"
  let ?d = "?c\<lparr>dm_allCopy := filter (\<lambda>i. ic_service i \<noteq> sid) (dm_allCopy st),
               dm_evtCopy := filter (\<lambda>i. ic_service i \<noteq> sid) (dm_evtCopy st)\<rparr>"
  have "R st ?a" by (rule R_trackers)
  also have "R ?a ?b" by (rule R_callbacks)
  also (R_trans) have "R ?b ?c" by (rule R_interceptors)
  also (R_trans) have "R ?c ?d" by (rule R_copies)
  finally (R_trans) show ?thesis by (simp add: clearServiceRegistrations_def)
qed

lemma R_handle_request: "handle_request env evt dep st = Some st' \<Longrightarrow> R st st'"
  by (auto simp: handle_request_def intro: R_refl R_request_each split: option.splits)

lemma R_handle_add_tracker: "handle_add_tracker env evt h st = Some st' \<Longrightarrow> R st st'"
  by (auto simp: handle_add_tracker_def intro: R_refl R_track_each split: option.splits if_splits)

lemma R_handle_remove:
  "R st (handle_remove_handler sid t st)" "R st (handle_remove_interceptor iid t st)"
  "R st (handle_remove_tracker evt h st)"
  using R_refl R_callbacks R_interceptors R_trackers
  by (simp_all add: handle_remove_handler_def handle_remove_interceptor_def handle_remove_tracker_def
      Let_def split: option.split)

lemma R_handle_run_function: "handle_run_function env evt fn st = Some st' \<Longrightarrow> R st st'"
  by (auto simp: handle_run_function_def intro: R_refl R_user split: if_splits)

lemma R_handle_run_function_async:
  assumes "handle_run_function_async env evt fn st = Some st'"
  shows "R st st'"
  using assms R_trans [OF R_run_ichor R_moved]
  by (auto simp: handle_run_function_async_def bind_eq_Some_conv intro: R_refl split: if_splits)

lemma R_erase_generator: "R st (erase_generator pid st)"
  by (simp add: erase_generator_def R_generators)

lemma R_requeue_stop: "R st (requeue_stop sid st)"
  by (simp add: requeue_stop_def R_refl R_push split: option.split)

lemma R_complete_ichor: "complete_ichor env pid g st = Some st' \<Longrightarrow> R st st'"
  using R_trans [OF R_requeue_stop R_erase_generator] R_trans [OF R_handleEventCompletion]
  by (auto simp: complete_ichor_def bind_eq_Some_conv split: if_splits)

lemma R_push_stops: "R st (push_stops orig prio sids st)"
  by (induction orig prio sids st rule: push_stops.induct) (auto intro: R_refl R_trans [OF R_push])

lemma R_quit_services: "R st (fold (quit_service evt) ms st)"
  by (induction ms arbitrary: st)
    (auto simp: quit_service_def Let_def intro: R_refl R_trans [OF R_push_stops])

lemma R_stop_if_quitting: "R st (stop_if_quitting sid prio st)"
  by (simp add: stop_if_quitting_def R_push R_refl)

end

section \<open>The services during a call\<close>

text \<open>
  The code of a service does not change the managers apart from their priorities. So what a handler
  knows of a manager before such a call still holds after it.
\<close>

definition unprioritised :: "mgr \<Rightarrow> mgr" where
  "unprioritised m = m\<lparr>m_priority := 0\<rparr>"

definition same_services :: "dm \<Rightarrow> dm \<Rightarrow> bool" where
  "same_services st st' \<longleftrightarrow>
     (\<forall>sid. map_option unprioritised (get_mgr st' sid) = map_option unprioritised (get_mgr st sid))"

lemma unprioritised_eq:
  "unprioritised m' = unprioritised m \<longleftrightarrow> m' = m\<lparr>m_priority := m_priority m'\<rparr>"
  by (cases m; cases m') (auto simp: unprioritised_def)

lemma same_services_Some:
  assumes "same_services st st'" and "get_mgr st sid = Some m"
  shows "\<exists>p. get_mgr st' sid = Some (m\<lparr>m_priority := p\<rparr>)"
proof -
  obtain m' where "get_mgr st' sid = Some m'" "unprioritised m' = unprioritised m"
    using assms by (cases "get_mgr st' sid") (auto simp: same_services_def dest!: spec [of _ sid])
  then show ?thesis by (metis unprioritised_eq)
qed

lemma same_services_back:
  assumes "same_services st st'" and "get_mgr st' sid = Some m"
  shows "\<exists>p. get_mgr st sid = Some (m\<lparr>m_priority := p\<rparr>)"
proof -
  obtain m' where "get_mgr st sid = Some m'" "unprioritised m = unprioritised m'"
    using assms by (cases "get_mgr st sid") (auto simp: same_services_def dest!: spec [of _ sid])
  then show ?thesis by (metis unprioritised_eq)
qed

interpretation calls: user_relation same_services
proof
  show "same_services st (setServicePriority sid prio st)" for st sid prio
    by (auto simp: same_services_def setServicePriority_def get_mgr_def dm_find_modify
        unprioritised_def [abs_def] option.map_comp comp_def)
  show "same_services a b \<Longrightarrow> same_services b c \<Longrightarrow> same_services a c" for a b c
    by (simp add: same_services_def)
qed (simp_all add: same_services_def get_mgr_def push_event_def waitForService_def)

lemma get_mgr_put [simp]:
  "get_mgr (put_mgr sid m st) s = (if s = sid then map_option (\<lambda>_. m) (get_mgr st s) else get_mgr st s)"
  by (simp add: get_mgr_def put_mgr_def dm_find_modify)

lemma get_mgr_promise [simp]:
  "get_mgr (st\<lparr>dm_promiseCounter := n\<rparr>) s = get_mgr st s" "get_mgr (st\<lparr>dm_eventCounter := n\<rparr>) s = get_mgr st s"
  by (simp_all add: get_mgr_def)

section \<open>Changes made by the event handlers\<close>

definition state_step :: "mgr \<Rightarrow> ServiceState \<Rightarrow> bool" where
  "state_step m s \<longleftrightarrow> m_kind m = Internal_Manager \<or> s = m_state m \<or> lifecycle_edge (m_state m) s"

definition fresh_manager :: "service_id \<Rightarrow> mgr \<Rightarrow> bool" where
  "fresh_manager sid m \<longleftrightarrow>
     m_id m = sid \<and> m_state m = INSTALLED \<and> m_injected m = [] \<and> m_dependees m = [] \<and>
     (m_kind m = Dependency_Manager \<or> m_kind m = Plain_Manager)"

definition admissible :: "event \<Rightarrow> bool" where
  "admissible evt \<longleftrightarrow> (\<forall>m. ev_payload evt = InsertServiceEvent m \<longrightarrow> fresh_manager (ev_origin evt) m)"

locale handler_relation = user_relation +
  assumes R_pendingCoroutine: "R st (st\<lparr>dm_pendingCoroutine := dm_emplace sid ws (dm_pendingCoroutine st)\<rparr>)"
    and R_finish_waiters: "t = T_Online \<or> t = T_Offline \<Longrightarrow> dm_find sid (dm_depWaiters st) = Some ew \<Longrightarrow>
        R st (finish_waiters sid t ew st)"
    and R_drop_waiters: "dm_find sid (dm_depWaiters st) = Some ew \<Longrightarrow> ew_events ew = [] \<Longrightarrow>
        R st (st\<lparr>dm_depWaiters := dm_erase sid (dm_depWaiters st)\<rparr>)"
    and R_pendingDeps: "R st (st\<lparr>dm_pendingDeps := pd\<rparr>)"
    and R_quitting: "R st (st\<lparr>dm_quitEventReceived := True\<rparr>)"
    and R_state: "get_mgr st sid = Some m \<Longrightarrow> state_step m s \<Longrightarrow> R st (put_mgr sid (m\<lparr>m_state := s\<rparr>) st)"
    and R_self: "get_mgr st cid = Some c \<Longrightarrow> dependencyOnline c (new_self_manager h) = Some (sb, c', p') \<Longrightarrow>
        R st (put_mgr cid c' st)"
    and R_online: "get_mgr st cid = Some c \<Longrightarrow> get_mgr st pid = Some p \<Longrightarrow>
        dependencyOnline c p = Some (sb, c', p') \<Longrightarrow> R st (put_pair cid c' pid p' st)"
    and R_offline: "get_mgr st cid = Some c \<Longrightarrow> dependencyOffline w c p deps = Some (out, c') \<Longrightarrow>
        R st (put_mgr cid c' st)"
    and R_offline_resume: "get_mgr st cid = Some c \<Longrightarrow> dependencyOffline_resume w c wt fr = Some (out, c') \<Longrightarrow>
        R st (put_mgr cid c' st)"
    and R_finish: "get_mgr st cid = Some c \<Longrightarrow> get_mgr st pid = Some p \<Longrightarrow>
        finishDependencyOffline c p deps = Some (c', p') \<Longrightarrow> R st (put_pair cid c' pid p' st)"
    and R_detach: "get_mgr st sid = Some m \<Longrightarrow> R st (detach sid (m_injected m) st)"
    and R_remove: "get_mgr st sid = Some m \<Longrightarrow> m_dependees m = [] \<Longrightarrow> m_injected m = [] \<Longrightarrow>
        R st (st\<lparr>dm_services := dm_erase sid (dm_services st)\<rparr>)"
    and R_quit: "allServicesStopped st \<Longrightarrow> dm_generators st = [] \<Longrightarrow> dm_quitEventReceived st \<Longrightarrow>
        R st (st\<lparr>dm_queueQuit := True, dm_services := [], dm_quitDone := True\<rparr>)"
    and R_insert: "fresh_manager cid m \<Longrightarrow> R st (st\<lparr>dm_services := dm_emplace cid m (dm_services st)\<rparr>)"
begin

lemma R_put_same: "get_mgr st sid = Some m \<Longrightarrow> R st (put_mgr sid m st)"
  using R_state [of st sid m "m_state m"] by (simp add: state_step_def)

lemma R_setInjected: "get_mgr st sid = Some m \<Longrightarrow> setInjected m = (True, m') \<Longrightarrow> R st (put_mgr sid m' st)"
  using R_state [of st sid m ACTIVE]
  by (auto simp: setInjected_def state_step_def intro: edge_injected split: if_splits)

lemma R_setUninjected: "get_mgr st sid = Some m \<Longrightarrow> setUninjected m = (True, m') \<Longrightarrow> R st (put_mgr sid m' st)"
  using R_state [of st sid m UNINJECTING]
  by (auto simp: setUninjected_def state_step_def intro: edge_uninject split: if_splits)

lemma R_internal_start_enter:
  "get_mgr st sid = Some m \<Longrightarrow> internal_start_enter deps m = (e, m') \<Longrightarrow> R st (put_mgr sid m' st)"
  using R_state [of st sid m STARTING] R_put_same
  by (auto simp: internal_start_enter_def state_step_def intro: edge_start split: if_splits)

lemma R_start_enter: "get_mgr st sid = Some m \<Longrightarrow> start_enter m = Some (e, m') \<Longrightarrow> R st (put_mgr sid m' st)"
  using R_internal_start_enter R_state [of st sid m ACTIVE]
  by (auto simp: start_enter_def state_step_def split: manager_kind.splits)

lemma R_startAfter_enter:
  "get_mgr st sid = Some m \<Longrightarrow> startAfterDependencyOnline_enter m = Some (e, m') \<Longrightarrow> R st (put_mgr sid m' st)"
  using R_internal_start_enter by (auto simp: startAfterDependencyOnline_enter_def split: if_splits)

lemma R_start_exit:
  "get_mgr st sid = Some m \<Longrightarrow> m_state m = STARTING \<Longrightarrow> internal_start_exit ok m = (sb, m') \<Longrightarrow>
   R st (put_mgr sid m' st)"
  using R_state [of st sid m INSTALLED] R_state [of st sid m INJECTING]
  by (auto simp: internal_start_exit_def state_step_def intro: edge_started edge_start_failed split: if_splits)

lemma R_stop_enter: "get_mgr st sid = Some m \<Longrightarrow> stop_enter m = Some m' \<Longrightarrow> R st (put_mgr sid m' st)"
  using R_state [of st sid m INSTALLED] R_state [of st sid m STOPPING]
  by (auto simp: stop_enter_def internal_stop_enter_def state_step_def intro: edge_stop
      split: manager_kind.splits if_splits)

lemma R_stop_exit:
  "get_mgr st sid = Some m \<Longrightarrow> m_state m = STOPPING \<Longrightarrow> internal_stop_exit m = (sb, m') \<Longrightarrow>
   R st (put_mgr sid m' st)"
  using R_state [of st sid m INSTALLED]
  by (auto simp: internal_stop_exit_def state_step_def intro: edge_stopped)

lemma R_finish_start_generator: "R st (finish_start_generator pid g sb st)"
  unfolding finish_start_generator_def by (rule R_push_after [OF R_set_body])

lemma R_suspend_offline: "R st (suspend_offline cid pid w push st)"
  using R_waitForService R_trans [OF R_push R_waitForService] by (simp add: suspend_offline_def)

lemma resume_offline_cases:
  assumes "resume_offline pid st = Some st'"
  obtains "st' = st"
  | g cid w fr c out c' where "dm_find pid (dm_generators st) = Some g" "sg_body g = GB_Offline cid w fr"
      "get_mgr st cid = Some c"
      "dependencyOffline_resume (hasDependencyWaiter cid T_Offline st) c w fr = Some (out, c')"
      "st' = (case out of Off_Return sb \<Rightarrow> finish_start_generator pid g sb (put_mgr cid c' st)
              | Off_Suspend w' push fr' \<Rightarrow>
                  set_body pid (GB_Offline cid w' fr') (suspend_offline cid pid w' push (put_mgr cid c' st)))"
proof (cases "dm_find pid (dm_generators st)")
  case None
  then show ?thesis using assms that(1) by (simp add: resume_offline_def)
next
  case (Some g)
  note g = Some
  show ?thesis
  proof (cases "sg_body g")
    case (GB_Offline cid w fr)
    then obtain c out c' where c: "get_mgr st cid = Some c"
      "dependencyOffline_resume (hasDependencyWaiter cid T_Offline st) c w fr = Some (out, c')"
      using assms g by (auto simp: resume_offline_def bind_eq_Some_conv)
    show ?thesis
      by (rule that(2) [OF g GB_Offline c])
        (use assms g GB_Offline c in \<open>cases out; simp add: resume_offline_def\<close>)
  qed (use assms g that(1) in \<open>simp_all add: resume_offline_def\<close>)
qed

lemma R_resume_offline:
  assumes "resume_offline pid st = Some st'"
  shows "R st st'"
  using assms
proof (cases rule: resume_offline_cases)
  case 1
  then show ?thesis by (simp add: R_refl)
next
  case (2 g cid w fr c out c')
  have r: "R st (put_mgr cid c' st)" using 2 R_offline_resume by blast
  show ?thesis
    using R_trans [OF r R_finish_start_generator] R_trans [OF r R_trans [OF R_suspend_offline R_set_body]]
    by (cases out) (simp_all add: 2(5))
qed

lemma R_set_waiters: "set_waiters env ws st = Some st' \<Longrightarrow> R st st'"
  by (induction env ws st rule: set_waiters.induct)
    (auto simp: bind_eq_Some_conv intro: R_refl R_trans R_user R_resume_offline)

lemma R_finishWaitingService_loop:
  assumes "t = T_Online \<or> t = T_Offline"
  shows "finishWaitingService_loop n env sid t st = Some st' \<Longrightarrow> R st st'"
proof (induction n arbitrary: st)
  case (Suc n)
  obtain ew where ew: "dm_find sid (dm_depWaiters st) = Some ew"
    using Suc.prems by (auto split: option.splits)
  let ?st1 = "finish_waiters sid t ew st"
  have r1: "R st ?st1" by (rule R_finish_waiters [OF assms ew])
  have ew1: "dm_find sid (dm_depWaiters ?st1) = Some (ew\<lparr>ew_events := kept_waiters t ew\<rparr>)"
    using ew by (simp add: finish_waiters_def dm_find_modify)
  show ?case
  proof (cases "due_waiters t ew = []")
    case True
    then have "st' = (if kept_waiters t ew = [] then ?st1\<lparr>dm_depWaiters := dm_erase sid (dm_depWaiters ?st1)\<rparr> else ?st1)"
      using Suc.prems ew by (simp add: Let_def)
    then show ?thesis using r1 R_trans [OF r1 R_drop_waiters [OF ew1]] by (simp split: if_splits)
  next
    case False
    then obtain st2 where "set_waiters env (due_waiters t ew) ?st1 = Some st2"
      "finishWaitingService_loop n env sid t st2 = Some st'"
      using Suc.prems ew by (auto simp: Let_def bind_eq_Some_conv)
    then show ?thesis using R_trans [OF r1 R_trans [OF R_set_waiters Suc.IH]] by blast
  qed
qed simp

lemma R_finishWaitingService:
  "finishWaitingService env sid t st = Some st' \<Longrightarrow> t = T_Online \<or> t = T_Offline \<Longrightarrow> R st st'"
  by (auto simp: finishWaitingService_def intro: R_refl R_finishWaitingService_loop [rotated] split: option.splits)

lemma R_started:
  assumes "get_mgr st sid = Some m" and "m_state m = STARTING" and "user env call (st\<lparr>dm_promiseCounter := n\<rparr>) = Some (out, st')"
    and "get_mgr st' sid = Some m2" and "internal_start_exit ok m2 = (sb, m3)"
  shows "R st' (put_mgr sid m3 st')"
proof -
  obtain q where "get_mgr (st\<lparr>dm_promiseCounter := n\<rparr>) sid = Some (m2\<lparr>m_priority := q\<rparr>)"
    using same_services_back [OF calls.R_user [OF assms(3)] assms(4)] by blast
  then have "m_state m2 = STARTING" using assms(1,2) by auto
  then show ?thesis using R_start_exit assms(4,5) by blast
qed

lemma internal_start_awaits:
  "internal_start_enter deps m = (Start_Awaits, m') \<Longrightarrow> m_state m' = STARTING"
  by (auto simp: internal_start_enter_def split: if_splits)

lemma R_run_start_after:
  assumes "run_start_after env sid evtPrio st = Some st'"
  shows "R st st'"
proof -
  let ?prio = "min INTERNAL_DEPENDENCY_EVENT_PRIORITY evtPrio"
  obtain m e m1 where m: "get_mgr st sid = Some m" "startAfterDependencyOnline_enter m = Some (e, m1)"
    using assms by (auto simp: run_start_after_def bind_eq_Some_conv)
  let ?st1 = "(put_mgr sid m1 st)\<lparr>dm_promiseCounter := dm_promiseCounter st + 1\<rparr>"
  have prom: "next_promise (put_mgr sid m1 st) = (dm_promiseCounter st, ?st1)"
    by (simp add: next_promise_def put_mgr_def)
  have r1: "R st ?st1"
    using R_trans [OF R_startAfter_enter [OF m] R_promise_id] by (simp add: put_mgr_def)
  show ?thesis
  proof (cases e)
    case Start_Returned
    then show ?thesis using assms m prom R_push_after [OF r1]
      by (auto simp: run_start_after_def Let_def)
  next
    case Start_Awaits
    then obtain out st2 where st2: "user env (U_Start sid) ?st1 = Some (out, st2)"
      using assms m prom by (auto simp: run_start_after_def Let_def bind_eq_Some_conv)
    have r2: "R st st2" using r1 R_user [OF st2] by (rule R_trans)
    have starting: "get_mgr (put_mgr sid m1 st) sid = Some m1" "m_state m1 = STARTING"
      using m Start_Awaits
      by (auto simp: startAfterDependencyOnline_enter_def intro: internal_start_awaits split: if_splits)
    show ?thesis
    proof (cases out)
      case O_Suspended
      then show ?thesis using assms m prom Start_Awaits st2 R_trans [OF r2 R_trans [OF R_event_id R_store_generator]]
        by (auto simp: run_start_after_def Let_def next_event_id_def)
    next
      case (O_Finished ok)
      then obtain m2 where m2: "get_mgr st2 sid = Some m2"
        using assms m prom Start_Awaits st2 by (auto simp: run_start_after_def Let_def bind_eq_Some_conv)
      obtain sb m3 where m3: "internal_start_exit ok m2 = (sb, m3)" by fastforce
      have "R st (put_mgr sid m3 st2)"
        using r2 R_started [OF starting st2 m2 m3] by (rule R_trans)
      then show ?thesis using assms m prom Start_Awaits st2 O_Finished m2 m3 R_push_after
        by (auto simp: run_start_after_def Let_def split: if_splits)
    qed
  qed
qed

lemma R_inject_into: "inject_into env cid provider evtPrio st = Some st' \<Longrightarrow> R st st'"
  using R_online R_trans [OF R_online R_run_start_after]
  by (auto simp: inject_into_def Let_def bind_eq_Some_conv split: if_split_asm)

lemma R_online_each: "online_each env provider f evtPrio cids st = Some st' \<Longrightarrow> R st st'"
  by (induction cids arbitrary: st)
    (auto simp: bind_eq_Some_conv intro: R_refl R_trans [OF R_inject_into] split: if_split_asm)

lemma R_handle_online:
  assumes "handle_online env evt st = Some st'"
  shows "R st st'"
proof (cases "get_mgr st (ev_origin evt)")
  case None
  then show ?thesis using assms by (simp add: handle_online_def R_refl)
next
  case (Some m)
  obtain ok m1 where m1: "setInjected m = (ok, m1)" by fastforce
  show ?thesis
  proof (cases ok)
    case False
    then show ?thesis using assms Some m1 by (simp add: handle_online_def R_refl)
  next
    case True
    then obtain st1 m2 st2 where
      s: "finishWaitingService env (ev_origin evt) T_Online (put_mgr (ev_origin evt) m1 st) = Some st1"
      "(if m_interfaces m2 = [] then Some st1
        else Option.bind (read_filter m2) (\<lambda>f. online_each env (ev_origin evt) f (ev_priority evt)
               (map fst (dm_services st1)) st1)) = Some st2"
      "st' = stop_if_quitting (ev_origin evt) (ev_priority evt) st2"
      using assms Some m1 by (auto simp: handle_online_def bind_eq_Some_conv)
    have "R st st1"
      using R_trans [OF R_setInjected [OF Some] R_finishWaitingService [OF s(1)]] m1 True by simp
    also have "R st1 st2"
      using s(2) R_refl R_online_each by (auto simp: bind_eq_Some_conv split: if_splits)
    also (R_trans) have "R st2 st'" using R_stop_if_quitting s(3) by simp
    finally (R_trans) show ?thesis .
  qed
qed

lemma R_offline_dependee:
  assumes "offline_dependee provider removeAfter cid st = Some st'"
  shows "R st st'"
proof -
  obtain c p where cp: "get_mgr st cid = Some c" "get_mgr st provider = Some p"
    using assms by (auto simp: offline_dependee_def bind_eq_Some_conv)
  define deps where "deps = interestedInDependencyGoingOffline c p"
  show ?thesis
  proof (cases "deps = []")
    case True
    then show ?thesis using assms cp by (simp add: offline_dependee_def deps_def R_refl)
  next
    case False
    then obtain out c' where off: "dependencyOffline (hasDependencyWaiter cid T_Offline st) c p deps = Some (out, c')"
      using assms cp by (auto simp: offline_dependee_def deps_def Let_def bind_eq_Some_conv)
    let ?st1 = "(put_mgr cid c' st)\<lparr>dm_promiseCounter := dm_promiseCounter st + 1\<rparr>"
    have prom: "next_promise (put_mgr cid c' st) = (dm_promiseCounter st, ?st1)"
      by (simp add: next_promise_def put_mgr_def)
    have r1: "R st ?st1"
      using R_trans [OF R_offline [OF cp(1) off] R_promise_id] by (simp add: put_mgr_def)
    note run = assms [unfolded offline_dependee_def Let_def, simplified cp bind.bind_lunit deps_def [symmetric],
        simplified False if_False off bind.bind_lunit prod.case prom]
    show ?thesis
    proof (cases out)
      case (Off_Suspend w push fr)
      have "R st (store_generator pid g (suspend_offline cid pid w push ?st1\<lparr>dm_eventCounter := n + 1\<rparr>))"
        if "n = dm_eventCounter (suspend_offline cid pid w push ?st1)" for pid g n
        using R_trans [OF r1 R_trans [OF R_suspend_offline R_trans [OF R_event_id R_store_generator]]] that by simp
      then show ?thesis using run Off_Suspend by (auto simp: next_event_id_def)
    next
      case (Off_Return sb)
      have c': "get_mgr ?st1 cid = Some c'" using cp by simp
      have "R st (add_pending_dep cid w (push_event a b d ?st1))" "R st (add_pending_dep cid w ?st1)" for a b d w
        unfolding add_pending_dep_def
        by (rule R_trans [OF R_push_after [OF r1] R_pendingDeps], rule R_trans [OF r1 R_pendingDeps])
      then show ?thesis
        using run Off_Return r1 R_trans [OF r1 R_finish [OF c']]
        by (cases sb) (auto simp: bind_eq_Some_conv split: if_splits)
    qed
  qed
qed

lemma R_offline_each: "offline_each provider removeAfter cids st = Some st' \<Longrightarrow> R st st'"
  by (induction cids arbitrary: st)
    (auto simp: bind_eq_Some_conv intro: R_refl R_trans [OF R_offline_dependee])

lemma R_handle_offline:
  assumes "handle_offline env evt removeAfter st = Some st'"
  shows "R st st'"
proof (cases "get_mgr st (ev_origin evt)")
  case None
  then show ?thesis using assms by (simp add: handle_offline_def R_refl)
next
  case (Some m)
  obtain ok m1 where m1: "setUninjected m = (ok, m1)" by fastforce
  show ?thesis
  proof (cases ok)
    case False
    then show ?thesis using assms Some m1 by (simp add: handle_offline_def R_refl)
  next
    case True
    then obtain st1 m2 where
      s: "offline_each (ev_origin evt) removeAfter (m_dependees m1) (put_mgr (ev_origin evt) m1 st) = Some st1"
      "get_mgr st1 (ev_origin evt) = Some m2"
      using assms Some m1 by (auto simp: handle_offline_def bind_eq_Some_conv)
    have "R st st1"
      using R_trans [OF R_setUninjected [OF Some] R_offline_each [OF s(1)]] m1 True by simp
    then show ?thesis
      using assms Some m1 True s R_push_after [OF R_trans [OF _ R_finishWaitingService]]
      by (auto simp: handle_offline_def bind_eq_Some_conv split: if_splits)
  qed
qed

lemma R_insert_each: "insert_each env cid evtPrio pids st = Some st' \<Longrightarrow> R st st'"
  by (induction pids arbitrary: st)
    (auto simp: bind_eq_Some_conv intro: R_refl R_trans [OF R_inject_into] split: if_split_asm)

lemma R_handle_insert:
  assumes "handle_insert env iservice evt m st = Some st'" and "fresh_manager (ev_origin evt) m"
  shows "R st st'"
proof -
  let ?cid = "ev_origin evt" let ?st1 = "st\<lparr>dm_services := dm_emplace ?cid m (dm_services st)\<rparr>"
  obtain c sb c' p' st2 c2 where
    s: "get_mgr ?st1 ?cid = Some c" "dependencyOnline c (new_self_manager iservice) = Some (sb, c', p')"
    "(if sb = STARTED then run_start_after env ?cid (ev_priority evt) (put_mgr ?cid c' ?st1)
      else Some (put_mgr ?cid c' ?st1)) = Some st2"
    "(case getDependencyRegistry c2 of None \<Rightarrow> Some st2
      | Some reg \<Rightarrow> if reg = [] then Some st2
                   else insert_each env ?cid (ev_priority evt) (map fst (dm_services st2)) st2) = Some st'"
    using assms(1) by (auto simp: handle_insert_def Let_def bind_eq_Some_conv)
  have "R st (put_mgr ?cid c' ?st1)"
    using R_trans [OF R_insert [OF assms(2)] R_self [OF s(1,2)]] .
  also have "R (put_mgr ?cid c' ?st1) st2"
    using s(3) R_refl R_run_start_after by (auto split: if_splits)
  also (R_trans) have "R st2 st'"
    using s(4) R_refl R_insert_each by (auto split: option.splits if_splits)
  finally (R_trans) show ?thesis .
qed

lemma R_finish_pending: "finish_pending sid evtPrio ws st = Some st' \<Longrightarrow> R st st'"
  by (induction ws arbitrary: st)
    (auto simp: bind_eq_Some_conv Let_def intro: R_refl R_trans [OF R_finish]
      R_trans [OF R_push_after [OF R_finish]] split: if_split_asm)

lemma R_removeInternalService:
  assumes "removeInternalService env sid st = Some st'"
  shows "R st st'"
proof -
  obtain m st1 where m: "get_mgr st sid = Some m" "m_dependees m = []" "m_injected m = []"
    and st1: "undo_requests env sid (case getDependencyRegistry m of None \<Rightarrow> [] | Some reg \<Rightarrow> reg) st = Some st1"
    and st': "st' = st1\<lparr>dm_trackers := prune (\<lambda>s. s = sid) (dm_trackers st1),
                        dm_services := dm_erase sid (dm_services st1)\<rparr>"
    using assms by (auto simp: removeInternalService_def bind_eq_Some_conv split: if_splits)
  let ?st2 = "st1\<lparr>dm_trackers := prune (\<lambda>s. s = sid) (dm_trackers st1)\<rparr>"
  obtain q where "get_mgr st1 sid = Some (m\<lparr>m_priority := q\<rparr>)"
    using same_services_Some [OF calls.R_undo_requests [OF st1] m(1)] by blast
  then have "R ?st2 st'"
    using R_remove [of ?st2 sid "m\<lparr>m_priority := q\<rparr>"] m st' by (simp add: get_mgr_def)
  then show ?thesis
    using R_trans [OF R_undo_requests [OF st1] R_trans [OF R_trackers]] by blast
qed

lemma R_finish_stop:
  assumes "finish_stop env sid removeAfter evtPrio st = Some st'"
  shows "R st st'"
proof -
  obtain st1 m where s: "(case dm_find sid (dm_pendingDeps st) of
        None \<Rightarrow> Some st
      | Some ws \<Rightarrow> map_option (\<lambda>s. s\<lparr>dm_pendingDeps := dm_erase sid (dm_pendingDeps s)\<rparr>)
                     (finish_pending sid evtPrio ws st)) = Some st1" "get_mgr st1 sid = Some m"
    "(let st2 = clearServiceRegistrations sid (detach sid (m_injected m) st1)
      in if removeAfter then removeInternalService env sid st2 else Some st2) = Some st'"
    using assms by (auto simp: finish_stop_def bind_eq_Some_conv)
  have "R st st1"
    using s(1) R_refl R_trans [OF R_finish_pending R_pendingDeps] by (auto split: option.splits)
  also have "R st1 (clearServiceRegistrations sid (detach sid (m_injected m) st1))"
    by (rule R_trans [OF R_detach [OF s(2)] R_clearServiceRegistrations])
  also (R_trans) have "R (clearServiceRegistrations sid (detach sid (m_injected m) st1)) st'"
    using s(3) R_refl R_removeInternalService by (auto simp: Let_def split: if_splits)
  finally (R_trans) show ?thesis .
qed

lemma R_checkIfCanQuit:
  assumes "checkIfCanQuit st = Some st'"
  shows "R st st'"
proof (cases "dm_quitEventReceived st \<and> \<not> dm_quitDone st \<and> dm_generators st = [] \<and> allServicesStopped st")
  case True
  let ?q = "st\<lparr>dm_queueQuit := True, dm_services := [], dm_quitDone := True\<rparr>"
  have "st' = ?q\<lparr>dm_allCopy := [], dm_evtCopy := []\<rparr>"
    using assms True by (auto simp: checkIfCanQuit_def split: if_splits)
  then show ?thesis using R_trans [OF R_quit R_copies [of ?q]] True by blast
next
  case False
  then have "checkIfCanQuit st = Some st" unfolding checkIfCanQuit_def by (rule if_not_P)
  then show ?thesis using assms R_refl by simp
qed

lemma stop_enter_state: "stop_enter m = Some m' \<Longrightarrow> m_kind m \<noteq> Internal_Manager \<Longrightarrow> m_state m' = STOPPING"
  by (auto simp: stop_enter_def internal_stop_enter_def split: manager_kind.splits if_splits)

lemma R_run_stop:
  assumes "run_stop env evt sid removeAfter st = Some st'"
  shows "R st st'"
proof -
  obtain m m1 where m: "get_mgr st sid = Some m" "stop_enter m = Some m1"
    using assms by (auto simp: run_stop_def bind_eq_Some_conv)
  let ?st1 = "(put_mgr sid m1 st)\<lparr>dm_promiseCounter := dm_promiseCounter st + 1\<rparr>"
  have prom: "next_promise (put_mgr sid m1 st) = (dm_promiseCounter st, ?st1)"
    by (simp add: next_promise_def put_mgr_def)
  have r1: "R st ?st1" using R_trans [OF R_stop_enter [OF m] R_promise_id] by (simp add: put_mgr_def)
  obtain out st2 where st2: "(if m_kind m = Internal_Manager then Some (O_Finished True, ?st1)
      else user env (U_Stop sid) ?st1) = Some (out, st2)"
    using assms m prom
    by (cases "m_kind m = Internal_Manager") (auto simp: run_stop_def bind_eq_Some_conv)
  have r2: "R st st2" and same: "same_services ?st1 st2"
    using st2 r1 R_trans [OF r1 R_user] calls.R_refl calls.R_user by (auto split: if_splits)
  show ?thesis
  proof (cases out)
    case O_Suspended
    then show ?thesis using assms m prom st2 R_trans [OF r2 R_trans [OF R_moved R_store_generator]]
      by (auto simp: run_stop_def split: if_splits)
  next
    case (O_Finished b)
    then obtain m2 where m2: "get_mgr st2 sid = Some m2"
      using assms m prom st2 by (auto simp: run_stop_def bind_eq_Some_conv split: if_splits)
    let ?m3 = "if m_kind m = Internal_Manager then m2 else snd (internal_stop_exit m2)"
    obtain st3 where st3: "finish_stop env sid removeAfter (ev_priority evt) (put_mgr sid ?m3 st2) = Some st3"
      "checkIfCanQuit st3 = Some st'"
      using assms m prom st2 O_Finished m2
      by (cases "m_kind m = Internal_Manager")
        (auto simp: run_stop_def bind_eq_Some_conv Let_def split: if_splits)
    obtain q where "get_mgr ?st1 sid = Some (m2\<lparr>m_priority := q\<rparr>)"
      using same_services_back [OF same m2] by blast
    then have "m1 = m2\<lparr>m_priority := q\<rparr>" using m by simp
    then have "m_kind m \<noteq> Internal_Manager \<Longrightarrow> m_state m2 = STOPPING"
      using stop_enter_state [OF m(2)] by simp
    then have "R st2 (put_mgr sid ?m3 st2)"
      using R_put_same [OF m2] R_stop_exit [OF m2] by (auto simp: prod_eq_iff)
    then show ?thesis
      using r2 R_finish_stop [OF st3(1)] R_checkIfCanQuit [OF st3(2)] R_trans by blast
  qed
qed

lemma R_handle_stop:
  assumes "handle_stop env evt sid removeAfter st = Some st'"
  shows "R st st'"
proof (cases "get_mgr st sid")
  case None
  then show ?thesis using assms by (simp add: handle_stop_def R_refl)
next
  case (Some m)
  let ?wait = "dm_contains sid (dm_depWaiters st)"
  let ?early = "m_state m = INSTALLED \<or> m_state m = STOPPING"
  let ?late = "?wait \<and> (m_dependees m \<noteq> [] \<or> m_state m \<noteq> UNINJECTING)"
  show ?thesis
  proof (cases "?early \<or> ?late")
    case True
    then have "handle_stop env evt sid removeAfter st = Some st"
      unfolding handle_stop_def Some option.case by (metis (no_types, lifting))
    then show ?thesis using assms R_refl by simp
  next
    case False
    then have no: "\<not> ?early" "\<not> ?late" by blast+
    from assms obtain st1 and m1 :: mgr where
      1: "(if ?wait then finishWaitingService env sid T_Offline st else Some st) = Some st1"
      and 2: "(if existingCoroutineFor sid st1
        then Some (st1\<lparr>dm_pendingCoroutine := dm_emplace sid
               \<lparr>ws_origin = ev_origin evt, ws_priority = ev_priority evt, ws_remove = removeAfter, ws_deps = []\<rparr>
               (dm_pendingCoroutine st1)\<rparr>)
        else if m_dependees m1 = [] \<and> m_state m1 = UNINJECTING then run_stop env evt sid removeAfter st1
        else if m_state m1 \<noteq> UNINJECTING
        then Some (push_event sid (ev_priority evt) (DependencyOfflineEvent removeAfter) st1)
        else Some st1) = Some st'"
      unfolding handle_stop_def Some option.case if_not_P [OF no(1)] if_not_P [OF no(2)] bind_eq_Some_conv
      by (elim exE conjE) (rule that, assumption+)
    have "R st st1" using 1 by (auto intro: R_refl R_finishWaitingService split: if_splits)
    moreover have "R st1 st'"
      using 2 by (auto intro: R_refl R_pendingCoroutine R_run_stop R_push split: if_split_asm)
    ultimately show ?thesis by (rule R_trans)
  qed
qed

lemma R_handle_start:
  assumes "handle_start env evt sid st = Some st'"
  shows "R st st'"
proof (cases "get_mgr st sid")
  case None
  then show ?thesis using assms by (simp add: handle_start_def R_refl)
next
  case (Some m)
  note m = Some
  show ?thesis
  proof (cases "m_state m = ACTIVE \<or> m_state m = STARTING \<or> m_state m = INJECTING")
    case True
    then show ?thesis using assms m by (simp add: handle_start_def R_refl)
  next
    case False
    then obtain e m1 where e: "start_enter m = Some (e, m1)"
      using assms m by (auto simp: handle_start_def bind_eq_Some_conv)
    let ?st1 = "(put_mgr sid m1 st)\<lparr>dm_promiseCounter := dm_promiseCounter st + 1\<rparr>"
    have prom: "next_promise (put_mgr sid m1 st) = (dm_promiseCounter st, ?st1)"
      by (simp add: next_promise_def put_mgr_def)
    have r1: "R st ?st1" using R_trans [OF R_start_enter [OF m e] R_promise_id] by (simp add: put_mgr_def)
    note run = assms [unfolded handle_start_def m option.case if_not_P [OF False] e bind.bind_lunit prod.case prom]
    obtain out st2 where st2: "(if e = Start_Awaits then user env (U_Start sid) ?st1
        else Some (O_Finished True, ?st1)) = Some (out, st2)"
      using run by (auto simp: bind_eq_Some_conv simp del: split_paired_Ex)
    have r2: "R st st2" using st2 r1 R_trans [OF r1 R_user] by (auto split: if_splits)
    note run = run [unfolded st2 bind.bind_lunit prod.case]
    show ?thesis
    proof (cases out)
      case O_Suspended
      then show ?thesis using run R_trans [OF r2 R_trans [OF R_moved R_store_generator]] by auto
    next
      case (O_Finished ok)
      then obtain m2 where m2: "get_mgr st2 sid = Some m2" using run by (auto simp: bind_eq_Some_conv)
      let ?m3 = "if e = Start_Awaits then snd (internal_start_exit ok m2) else m2"
      have "R st2 (put_mgr sid ?m3 st2)"
      proof (cases e)
        case Start_Awaits
        then have "m_state m1 = STARTING"
          using e by (auto simp: start_enter_def intro: internal_start_awaits split: manager_kind.splits)
        then show ?thesis
          using R_started [of "put_mgr sid m1 st" sid m1 env "U_Start sid" _ out st2 m2 ok] m st2 m2 Start_Awaits
          by (auto simp: prod_eq_iff)
      qed (simp add: R_put_same [OF m2])
      then have "R st (put_mgr sid ?m3 st2)" by (rule R_trans [OF r2])
      then show ?thesis
        using run O_Finished m2 R_trans [OF R_push_after R_stop_if_quitting] by (auto simp: Let_def split: if_splits)
    qed
  qed
qed

lemma R_handle_remove_service: "handle_remove_service env sid st = Some st' \<Longrightarrow> R st st'"
  by (auto simp: handle_remove_service_def intro: R_refl R_removeInternalService split: option.splits if_splits)

lemma R_handle_quit: "handle_quit evt st = Some st' \<Longrightarrow> R st st'"
  using R_trans [OF R_trans [OF R_quitting R_quit_services] R_checkIfCanQuit]
  by (simp add: handle_quit_def Let_def)

lemma R_handle_continuable:
  assumes "handle_continuable env pid st = Some st'"
  shows "R st st'"
proof (cases "dm_find pid (dm_generators st)")
  case None
  then show ?thesis using assms by (simp add: handle_continuable_def R_refl)
next
  case (Some g)
  obtain st1 where "R st st1" "checkIfCanQuit st1 = Some st'"
  proof (cases "sg_body g = GB_DoneIchor")
    case True
    then obtain st1 where "complete_ichor env pid g st = Some st1" "checkIfCanQuit st1 = Some st'"
      using assms Some by (auto simp: handle_continuable_def bind_eq_Some_conv)
    then show ?thesis by (intro that R_complete_ichor)
  next
    case False
    then obtain out st0 st1 where "user env (U_Continue pid) st = Some (out, st0)"
      "(if out = O_Suspended then Some st0 else complete_ichor env pid g st0) = Some st1" "checkIfCanQuit st1 = Some st'"
      using assms Some by (auto simp: handle_continuable_def bind_eq_Some_conv)
    moreover from this have "R st st1"
      using R_user R_trans [OF R_user R_complete_ichor] by (auto split: if_splits)
    ultimately show ?thesis using that by blast
  qed
  then show ?thesis using R_checkIfCanQuit R_trans by blast
qed

lemma R_continue_start: "continue_start env evt orig sid st = Some st' \<Longrightarrow> R st st'"
  unfolding continue_start_def
  by (rule R_trans [OF R_trans [OF R_push R_stop_if_quitting] R_handleEventCompletion])

lemma R_continue_stop:
  assumes "continue_stop env pid orig sid removeAfter st = Some st'"
  shows "R st st'"
proof -
  obtain st1 st2 where "finish_stop env sid removeAfter (ev_priority orig) st = Some st1"
    "handleEventCompletion env orig st1 = Some st2" "checkIfCanQuit (erase_generator pid st2) = Some st'"
    using assms by (auto simp: continue_stop_def bind_eq_Some_conv split: if_split_asm)
  then show ?thesis
    using R_trans [OF R_finish_stop R_trans [OF R_handleEventCompletion R_trans [OF R_erase_generator R_checkIfCanQuit]]]
    by blast
qed

lemma R_continue_online: "continue_online env evt orig ret st = Some st' \<Longrightarrow> R st st'"
  using R_handleEventCompletion R_trans [OF R_push R_handleEventCompletion]
  by (auto simp: continue_online_def split: if_splits)

lemma R_continue_offline:
  assumes "continue_offline env evt orig ret provider removeAfter deps st = Some st'"
  shows "R st st'"
proof -
  let ?cid = "ev_origin orig"
  obtain p c where pc: "get_mgr st provider = Some p" "get_mgr st ?cid = Some c"
    using assms by (auto simp: continue_offline_def bind_eq_Some_conv)
  note run = assms [unfolded continue_offline_def pc bind.bind_lunit]
  obtain st1 where st1: "handleEventCompletion env orig st1 = Some st'"
    "(if ret = STOP_ME
      then Some (add_pending_dep ?cid
        \<lparr>ws_origin = provider, ws_priority = ev_priority evt, ws_remove = removeAfter, ws_deps = deps\<rparr>
        (if no_pending_dep ?cid st \<or> (m_state c = UNINJECTING \<and> m_dependees c = [])
         then push_event (ev_origin evt) (ev_priority evt) (StopServiceEvent ?cid removeAfter) st else st))
      else Option.bind (finishDependencyOffline c p deps) (\<lambda>(c', p').
        let st1 = put_pair ?cid c' provider p' st in
        if m_dependees p' = []
        then finishWaitingService env provider T_Offline
               (push_event provider (min INTERNAL_COROUTINE_EVENT_PRIORITY (ev_priority evt))
                  (StopServiceEvent provider removeAfter) st1)
        else Some st1)) = Some st1"
    using run unfolding bind_eq_Some_conv by (elim exE conjE) (rule that, assumption+)
  have "R st (add_pending_dep ?cid w (push_event a b d st))" "R st (add_pending_dep ?cid w st)" for a b d w
    unfolding add_pending_dep_def by (rule R_trans [OF R_push R_pendingDeps], rule R_pendingDeps)
  moreover have "R st st1"
    if "finishDependencyOffline c p deps = Some (c', p')" "ret \<noteq> STOP_ME" for c' p'
    using st1(2) that R_finish [OF pc(2,1) that(1)]
      R_trans [OF R_push_after [OF R_finish [OF pc(2,1) that(1)]] R_finishWaitingService]
    by (auto simp: Let_def split: if_split_asm)
  ultimately have "R st st1"
    using st1(2) by (cases "ret = STOP_ME") (auto simp: bind_eq_Some_conv split: if_split_asm)
  then show ?thesis using R_handleEventCompletion [OF st1(1)] by (rule R_trans)
qed

lemma R_handle_continuable_start:
  assumes "handle_continuable_start env evt pid st = Some st'"
  shows "R st st'"
proof (cases "dm_find pid (dm_generators st)")
  case None
  then show ?thesis using assms by (simp add: handle_continuable_start_def R_refl)
next
  case (Some g)
  note g = Some
  show ?thesis
  proof (cases "sg_body g")
    case (GB_DoneStart ret)
    show ?thesis
      using assms g GB_DoneStart R_continue_stop R_trans [OF R_continue_start R_erase_generator]
        R_trans [OF R_continue_online R_erase_generator] R_trans [OF R_continue_offline R_erase_generator]
      by (cases "ev_payload (sg_event g)") (auto simp: handle_continuable_start_def)
  qed (use assms g R_refl in \<open>simp_all add: handle_continuable_start_def\<close>)
qed

lemma R_dispatch:
  assumes "dispatch env iservice evt st = Some st'" and "admissible evt"
  shows "R st st'"
  using assms
  by (cases "ev_payload evt")
    (auto simp: dispatch_def admissible_def
      intro: R_handle_online R_handle_offline R_handle_request R_handle_quit R_handle_insert R_handle_stop
        R_handle_start R_handle_remove_service R_handle_remove R_handle_add_tracker R_handle_continuable
        R_handle_continuable_start R_handle_run_function R_handle_run_function_async R_broadcastEvent)

theorem R_processEvent:
  assumes "processEvent env iservice evt st = Some st'" and "admissible evt"
  shows "R st st'"
proof (cases "dm_quitDone st \<or> get_type evt = T_All")
  case True
  then show ?thesis using assms R_refl by (auto simp: processEvent_def split: if_splits)
next
  case False
  from assms(1) False obtain own allow1 st1 allow st2 st3 st4 st5 st6 b where
    s: "pre_intercept env evt (interceptors_for T_All st) True st = Some (allow1, st1)"
      "pre_intercept env evt own allow1 st1 = Some (allow, st2)"
      "(if allow then dispatch env iservice evt st3 else Some st3) = Some st4"
      "post_intercept env evt b (dm_allCopy st4) st4 = Some st5"
      "post_intercept env evt b (dm_evtCopy st4) st5 = Some st6"
      "(if dm_moved st6 then Some st6 else handleEventCompletion env evt st6) = Some st'"
    and st3: "st3 = st2\<lparr>dm_allCopy := interceptors_for T_All st, dm_evtCopy := own, dm_moved := False, dm_handlers := 1\<rparr>"
    by (rule processEvent_phases)
  have "R st st2" by (rule R_trans [OF R_pre_intercept [OF s(1)] R_pre_intercept [OF s(2)]])
  also have "R st2 st3"
    using R_trans [OF R_copies [of st2] R_locals] by (simp add: st3)
  also (R_trans) have "R st3 st4"
    using s(3) R_refl R_dispatch assms(2) by (auto split: if_split_asm)
  also (R_trans) have "R st4 st6" by (rule R_trans [OF R_post_intercept [OF s(4)] R_post_intercept [OF s(5)]])
  also (R_trans) have "R st6 st'" using s(6) R_refl R_handleEventCompletion by (auto split: if_splits)
  finally (R_trans) show ?thesis .
qed

end

end
