(* ===== verification/Manager_Invariants.thy ===== *)
theory Manager_Invariants
  imports Manager_Steps
begin

text \<open>
  Three relations between the states before and after an event, each an interpretation of
  \<open>handler_relation\<close>: what is queued and counted, how the services evolve, and that no service is
  destroyed while another one has it injected.
\<close>

section \<open>Events, identifiers and quitting\<close>

definition progress :: "dm \<Rightarrow> dm \<Rightarrow> bool" where
  "progress st st' \<longleftrightarrow>
     (\<exists>new. dm_pushed st' = dm_pushed st @ new \<and> sorted_wrt (<) (map ev_id new) \<and>
        (\<forall>e \<in> set new. dm_eventCounter st \<le> ev_id e \<and> ev_id e < dm_eventCounter st')) \<and>
     dm_eventCounter st \<le> dm_eventCounter st' \<and> dm_promiseCounter st \<le> dm_promiseCounter st' \<and>
     dm_serviceCounter st \<le> dm_serviceCounter st' \<and> (dm_quitEventReceived st \<longrightarrow> dm_quitEventReceived st') \<and>
     (dm_quitDone st \<longrightarrow> dm_quitDone st')"

lemma progress_quiet:
  "dm_pushed st' = dm_pushed st \<Longrightarrow> dm_eventCounter st \<le> dm_eventCounter st' \<Longrightarrow>
   dm_promiseCounter st \<le> dm_promiseCounter st' \<Longrightarrow> dm_serviceCounter st \<le> dm_serviceCounter st' \<Longrightarrow>
   (dm_quitEventReceived st \<longrightarrow> dm_quitEventReceived st') \<Longrightarrow> (dm_quitDone st \<longrightarrow> dm_quitDone st') \<Longrightarrow>
   progress st st'"
  by (simp add: progress_def)

lemma progress_trans:
  assumes "progress a b" and "progress b c"
  shows "progress a c"
proof -
  obtain n1 n2 where "dm_pushed b = dm_pushed a @ n1" "dm_pushed c = dm_pushed b @ n2"
    "sorted_wrt (<) (map ev_id n1)" "sorted_wrt (<) (map ev_id n2)"
    "\<forall>e \<in> set n1. dm_eventCounter a \<le> ev_id e \<and> ev_id e < dm_eventCounter b"
    "\<forall>e \<in> set n2. dm_eventCounter b \<le> ev_id e \<and> ev_id e < dm_eventCounter c"
    using assms unfolding progress_def by blast
  then have "dm_pushed c = dm_pushed a @ (n1 @ n2) \<and> sorted_wrt (<) (map ev_id (n1 @ n2)) \<and>
    (\<forall>e \<in> set (n1 @ n2). dm_eventCounter a \<le> ev_id e \<and> ev_id e < dm_eventCounter c)"
    using assms unfolding progress_def by (fastforce simp: sorted_wrt_append)
  then show ?thesis using assms unfolding progress_def by (meson order_trans)
qed

lemma progress_push: "progress st (push_event orig prio p st)"
  unfolding progress_def by (auto simp: push_event_def)

lemmas service_updates = put_mgr_def put_pair_def setServicePriority_def detach_def Let_def

lemma fold_erase_dependee_frame:
  "fold (erase_dependee sid) deps st = st\<lparr>dm_services := dm_services (fold (erase_dependee sid) deps st)\<rparr>"
proof (induction deps arbitrary: st)
  case (Cons d deps)
  show ?case using Cons.IH [of "erase_dependee sid d st"] by (simp add: erase_dependee_def)
qed simp

lemma progress_services: "progress st (st\<lparr>dm_services := s\<rparr>)"
  by (rule progress_quiet) simp_all

lemma progress_detach: "progress st (detach sid deps st)"
  unfolding detach_def Let_def
  by (subst (1) fold_erase_dependee_frame) (simp add: progress_services)

interpretation progress: handler_relation progress
proof
  show "progress a b \<Longrightarrow> progress b c \<Longrightarrow> progress a c" for a b c
    by (rule progress_trans)
qed (auto simp: progress_push progress_services progress_detach put_mgr_def put_pair_def setServicePriority_def
    waitForService_def finish_waiters_def intro: progress_quiet)

section \<open>The evolution of a service\<close>

text \<open>
  Injecting a dependency and taking it away leave the fixed part of a manager alone: its identity, its
  state, its interfaces, its properties, and of every registration all but the count.
\<close>

definition reg_fixed :: "registration \<Rightarrow> registration" where
  "reg_fixed r = bump (\<lambda>_. 0) r"

definition same_shape :: "mgr \<Rightarrow> mgr \<Rightarrow> bool" where
  "same_shape m m' \<longleftrightarrow>
     m_kind m' = m_kind m \<and> m_id m' = m_id m \<and> m_type m' = m_type m \<and> m_interfaces m' = m_interfaces m \<and>
     m_properties m' = m_properties m \<and> map reg_fixed (m_registry m') = map reg_fixed (m_registry m)"

lemma same_shape_refl [simp]: "same_shape m m"
  by (simp add: same_shape_def)

lemma same_shape_trans: "same_shape a b \<Longrightarrow> same_shape b c \<Longrightarrow> same_shape a c"
  by (simp add: same_shape_def)

lemma map_reg_fixed_set_satisfied [simp]: "map reg_fixed (set_satisfied i f reg) = map reg_fixed reg"
proof -
  have "reg_fixed (bump f r) = reg_fixed r" for r by (simp add: reg_fixed_def bump_def)
  then show ?thesis by (simp add: set_satisfied_bump map_update) (metis list_update_id nth_map)
qed

definition keeps :: "mgr \<Rightarrow> mgr \<Rightarrow> bool" where
  "keeps m m' \<longleftrightarrow> same_shape m m' \<and> m_state m' = m_state m"

lemma keeps_refl [simp]: "keeps m m"
  by (simp add: keeps_def)

lemma keeps_trans: "keeps a b \<Longrightarrow> keeps b c \<Longrightarrow> keeps a c"
  by (auto simp: keeps_def intro: same_shape_trans)

lemma keeps_updates [simp]:
  "keeps m (m'\<lparr>m_injected := i\<rparr>) = keeps m m'" "keeps m (m'\<lparr>m_goingAway := g\<rparr>) = keeps m m'"
  "keeps m (m'\<lparr>m_dependees := d\<rparr>) = keeps m m'" "keeps m (m'\<lparr>m_calls := cs\<rparr>) = keeps m m'"
  "keeps m (m'\<lparr>m_priority := q\<rparr>) = keeps m m'"
  "keeps m (m'\<lparr>m_registry := set_satisfied k f (m_registry m')\<rparr>) = keeps m m'"
  by (simp_all add: keeps_def same_shape_def)

lemma keeps_hand_over:
  "insertSelfInto h p c = (p', c') \<Longrightarrow> keeps p p' \<and> keeps c c'"
  "removeSelfInto h p c = (p', c') \<Longrightarrow> keeps p p' \<and> keeps c c'"
  by (auto simp: insertSelfInto_def removeSelfInto_def call_instance_def split: manager_kind.splits if_splits)

lemma keeps_dispatch:
  "injectIntoSelfDoubleDispatch h c p = Some (c', p') \<Longrightarrow> keeps c c' \<and> keeps p p'"
  "removeSelfIntoDoubleDispatch h c p = Some (c', p') \<Longrightarrow> keeps c c' \<and> keeps p p'"
  by (auto simp: injectIntoSelfDoubleDispatch_def removeSelfIntoDoubleDispatch_def
      dest: keeps_hand_over split: option.splits prod.splits)

lemma keeps_online_loop: "online_loop ifs i c p = Some (i', c', p') \<Longrightarrow> keeps c c' \<and> keeps p p'"
proof (induction ifs arbitrary: i c p)
  case (Cons f ifs)
  show ?case
  proof (cases "register_find_sat (m_registry c) (interfaceNameHash f) False")
    case None
    then show ?thesis using Cons by simp
  next
    case (Some k)
    let ?c1 = "c\<lparr>m_injected := ds_insert (m_id p) (m_injected c)\<rparr>"
    obtain j c2 p2 where inj: "injectIntoSelfDoubleDispatch (interfaceNameHash (reg_dep (m_registry c ! k))) ?c1 p = Some (c2, p2)"
      and rec: "online_loop ifs j (c2\<lparr>m_registry := set_satisfied k u64_inc (m_registry c2)\<rparr>) p2 = Some (i', c', p')"
      using Cons.prems Some by (auto simp: Let_def split: option.splits)
    have "keeps ?c1 c2" "keeps p p2" using keeps_dispatch(1) [OF inj] by simp_all
    then have "keeps c (c2\<lparr>m_registry := set_satisfied k u64_inc (m_registry c2)\<rparr>)"
      by (simp add: keeps_def same_shape_def)
    then show ?thesis using Cons.IH [OF rec] \<open>keeps p p2\<close> keeps_trans by blast
  qed
qed simp

lemma keeps_online: "dependencyOnline c p = Some (sb, c', p') \<Longrightarrow> keeps c c' \<and> keeps p p'"
  by (auto simp: dependencyOnline_def dest: keeps_online_loop split: if_splits option.splits)

lemma keeps_offline_loop: "offline_loop w is i r c = Some (out, c') \<Longrightarrow> keeps c c'"
proof (induction "is" arbitrary: i r c)
  case (Cons k ks)
  let ?c1 = "c\<lparr>m_registry := set_satisfied k u64_dec (m_registry c)\<rparr>"
  have "keeps ?c1 c'"
    using Cons by (auto simp: Let_def split: if_splits offline_stage.splits)
  then show ?case by (simp add: keeps_def same_shape_def)
qed simp

lemma keeps_offline: "dependencyOffline w c p deps = Some (out, c') \<Longrightarrow> keeps c c'"
  by (auto simp: dependencyOffline_def keeps_def same_shape_def dest!: keeps_offline_loop split: if_splits)

lemma keeps_offline_resume: "dependencyOffline_resume w c wt fr = Some (out, c') \<Longrightarrow> keeps c c'"
  by (auto simp: dependencyOffline_resume_def dest!: keeps_offline_loop
      split: offline_wait.splits if_splits offline_stage.splits prod.splits)

lemma keeps_finish_loop: "finish_loop deps c p = Some (c', p') \<Longrightarrow> keeps c c' \<and> keeps p p'"
  by (induction deps arbitrary: c p)
    (auto split: option.splits dest!: keeps_dispatch(2) intro: keeps_trans)

lemma keeps_finish: "finishDependencyOffline c p deps = Some (c', p') \<Longrightarrow> keeps c c' \<and> keeps p p'"
  by (auto simp: finishDependencyOffline_def dest: keeps_finish_loop split: if_splits option.splits)

text \<open>
  A service goes through the states of its lifecycle along the edges of \<^const>\<open>lifecycle_edge\<close>; only
  the internal services of the framework are switched directly. A service that is known after the
  event and was not known before was inserted as a fresh one.
\<close>

definition lifecycle_path :: "mgr \<Rightarrow> mgr \<Rightarrow> bool" where
  "lifecycle_path m m' \<longleftrightarrow>
     same_shape m m' \<and> (m_kind m = Internal_Manager \<or> lifecycle_edge\<^sup>*\<^sup>* (m_state m) (m_state m'))"

definition evolves :: "dm \<Rightarrow> dm \<Rightarrow> bool" where
  "evolves st st' \<longleftrightarrow>
     (\<forall>sid m'. get_mgr st' sid = Some m' \<longrightarrow>
        (\<exists>m. (get_mgr st sid = Some m \<or> fresh_manager sid m) \<and> lifecycle_path m m'))"

lemma lifecycle_path_refl [simp]: "lifecycle_path m m"
  by (simp add: lifecycle_path_def)

lemma lifecycle_path_trans: "lifecycle_path a b \<Longrightarrow> lifecycle_path b c \<Longrightarrow> lifecycle_path a c"
  by (auto simp: lifecycle_path_def same_shape_def intro: rtranclp_trans)

lemma lifecycle_path_keeps: "keeps m m' \<Longrightarrow> lifecycle_path m m'"
  by (simp add: lifecycle_path_def keeps_def)

lemma lifecycle_path_step: "state_step m s \<Longrightarrow> lifecycle_path m (m\<lparr>m_state := s\<rparr>)"
  by (auto simp: state_step_def lifecycle_path_def same_shape_def intro: r_into_rtranclp)

lemma evolves_pointwise:
  "(\<And>sid m'. get_mgr st' sid = Some m' \<Longrightarrow> \<exists>m. get_mgr st sid = Some m \<and> lifecycle_path m m') \<Longrightarrow> evolves st st'"
  unfolding evolves_def by blast

lemma evolves_services: "dm_services st' = dm_services st \<Longrightarrow> evolves st st'"
  by (rule evolves_pointwise) (simp add: get_mgr_def)

lemma evolves_trans:
  assumes "evolves a b" and "evolves b c"
  shows "evolves a c"
  unfolding evolves_def
proof (intro allI impI)
  fix sid m'
  assume "get_mgr c sid = Some m'"
  then obtain m where m: "get_mgr b sid = Some m \<or> fresh_manager sid m" "lifecycle_path m m'"
    using assms(2) unfolding evolves_def by blast
  then show "\<exists>m. (get_mgr a sid = Some m \<or> fresh_manager sid m) \<and> lifecycle_path m m'"
    using assms(1) lifecycle_path_trans unfolding evolves_def by blast
qed

lemma evolves_put: "get_mgr st sid = Some m \<Longrightarrow> lifecycle_path m m' \<Longrightarrow> evolves st (put_mgr sid m' st)"
  by (rule evolves_pointwise) (auto split: if_splits)

lemma evolves_put_pair:
  assumes "get_mgr st cid = Some c" and "get_mgr st pid = Some p" and "keeps c c' \<and> keeps p p'"
  shows "evolves st (put_pair cid c' pid p' st)"
proof (rule evolves_pointwise)
  fix sid m'
  assume "get_mgr (put_pair cid c' pid p' st) sid = Some m'"
  then show "\<exists>m. get_mgr st sid = Some m \<and> lifecycle_path m m'"
    using assms by (auto simp: put_pair_def intro!: lifecycle_path_keeps split: if_splits)
qed

lemma get_mgr_erase_dependee:
  "get_mgr (erase_dependee sid d st) s =
   map_option (\<lambda>m. if s = d then m\<lparr>m_dependees := ds_erase sid (m_dependees m)\<rparr> else m) (get_mgr st s)"
  by (simp add: erase_dependee_def get_mgr_def dm_find_modify option.map_ident)

lemma set_ds_erase_superset: "set xs - {x} \<subseteq> set (ds_erase x xs)"
  by (metis mset_ds_erase mset_remove1 set_mset_mset subset_refl set_remove1_subset Diff_subset
      in_set_remove1 subsetI DiffD1 DiffD2 singletonI insertI1)

lemma get_mgr_detach_None: "get_mgr (detach sid deps st) s = None \<longleftrightarrow> get_mgr st s = None"
proof -
  have "get_mgr (fold (erase_dependee sid) deps st) s = None \<longleftrightarrow> get_mgr st s = None"
    by (induction deps arbitrary: st) (simp_all add: get_mgr_erase_dependee)
  then show ?thesis by (auto simp: detach_def Let_def get_mgr_def dm_find_modify)
qed

lemma erased_dependees:
  assumes "get_mgr st s = Some m"
  shows "\<exists>ds. get_mgr (fold (erase_dependee sid) deps st) s = Some (m\<lparr>m_dependees := ds\<rparr>) \<and>
              set (m_dependees m) - {sid} \<subseteq> set ds \<and> (distinct (m_dependees m) \<longrightarrow> distinct ds)"
  using assms
proof (induction deps arbitrary: st m)
  case Nil
  then show ?case by (auto intro!: exI [of _ "m_dependees m"])
next
  case (Cons d deps)
  let ?m = "if s = d then m\<lparr>m_dependees := ds_erase sid (m_dependees m)\<rparr> else m"
  obtain ds where "get_mgr (fold (erase_dependee sid) (d # deps) st) s = Some (?m\<lparr>m_dependees := ds\<rparr>)"
    and "set (m_dependees ?m) - {sid} \<subseteq> set ds \<and> (distinct (m_dependees ?m) \<longrightarrow> distinct ds)"
    using Cons.IH [of "erase_dependee sid d st" ?m] Cons.prems by (auto simp: get_mgr_erase_dependee)
  moreover have "set (m_dependees m) - {sid} \<subseteq> set (m_dependees ?m)"
    using set_ds_erase_superset [of "m_dependees m" sid] by auto
  moreover have "distinct (m_dependees m) \<Longrightarrow> distinct (m_dependees ?m)"
    using distinct_ds_erase by auto
  ultimately show ?case by (intro exI [of _ ds]) (auto split: if_splits)
qed

lemma get_mgr_detach:
  assumes "get_mgr st s = Some m"
  shows "\<exists>ds. get_mgr (detach sid deps st) s =
                Some (m\<lparr>m_dependees := ds, m_injected := (if s = sid then [] else m_injected m)\<rparr>) \<and>
              set (m_dependees m) - {sid} \<subseteq> set ds \<and> (distinct (m_dependees m) \<longrightarrow> distinct ds)"
proof -
  obtain ds where "get_mgr (fold (erase_dependee sid) deps st) s = Some (m\<lparr>m_dependees := ds\<rparr>)"
    "set (m_dependees m) - {sid} \<subseteq> set ds" "distinct (m_dependees m) \<longrightarrow> distinct ds"
    using erased_dependees [OF assms] by blast
  then show ?thesis
    by (intro exI [of _ ds]) (auto simp: detach_def Let_def get_mgr_def dm_find_modify)
qed

lemma map_fst_detach [simp]: "map fst (dm_services (detach sid deps st)) = map fst (dm_services st)"
proof -
  have "map fst (dm_services (fold (erase_dependee sid) deps st)) = map fst (dm_services st)"
    by (induction deps arbitrary: st) (simp_all add: erase_dependee_def)
  then show ?thesis by (simp add: detach_def Let_def)
qed

lemma evolves_detach: "evolves st (detach sid deps st)"
proof (rule evolves_pointwise)
  fix s m'
  assume *: "get_mgr (detach sid deps st) s = Some m'"
  then obtain m where m: "get_mgr st s = Some m" using get_mgr_detach_None [of sid deps st s] by fastforce
  then show "\<exists>m. get_mgr st s = Some m \<and> lifecycle_path m m'"
    using * get_mgr_detach [OF m, of sid deps] by (auto intro!: lifecycle_path_keeps)
qed

definition evolution :: "dm \<Rightarrow> dm \<Rightarrow> bool" where
  "evolution st st' \<longleftrightarrow> (dm_ok (dm_services st) \<longrightarrow> dm_ok (dm_services st') \<and> evolves st st')"

lemma evolution_keys:
  "map fst (dm_services st') = map fst (dm_services st) \<Longrightarrow> evolves st st' \<Longrightarrow> evolution st st'"
  by (simp add: evolution_def dm_ok_def)

lemma map_fst_put [simp]:
  "map fst (dm_services (put_mgr sid m st)) = map fst (dm_services st)"
  "map fst (dm_services (put_pair cid c pid p st)) = map fst (dm_services st)"
  "map fst (dm_services (setServicePriority sid prio st)) = map fst (dm_services st)"
  by (simp_all add: put_mgr_def put_pair_def setServicePriority_def)

interpretation evolution: handler_relation evolution
proof
  show "evolution a b \<Longrightarrow> evolution b c \<Longrightarrow> evolution a c" for a b c
    using evolves_trans unfolding evolution_def by blast
  show "evolution st (setServicePriority sid prio st)" for st sid prio
    by (rule evolution_keys)
      (auto simp: setServicePriority_def get_mgr_def dm_find_modify intro!: evolves_pointwise lifecycle_path_keeps
        split: if_splits)
  show "evolution st (put_mgr sid (m\<lparr>m_state := s\<rparr>) st)" if "get_mgr st sid = Some m" "state_step m s" for st sid m s
    using evolves_put [OF that(1) lifecycle_path_step [OF that(2)]] by (simp add: evolution_keys)
  show "evolution st (put_mgr cid c' st)"
    if "get_mgr st cid = Some c" "dependencyOnline c (new_self_manager h) = Some (sb, c', p')" for st cid c h sb c' p'
    using that keeps_online by (blast intro: evolution_keys map_fst_put evolves_put lifecycle_path_keeps)
  show "evolution st (put_pair cid c' pid p' st)"
    if "get_mgr st cid = Some c" "get_mgr st pid = Some p" "dependencyOnline c p = Some (sb, c', p')" for st cid c pid p sb c' p'
    using that keeps_online by (blast intro: evolution_keys map_fst_put evolves_put_pair)
  show "evolution st (put_mgr cid c' st)"
    if "get_mgr st cid = Some c" "dependencyOffline w c p deps = Some (out, c')" for st cid c w p deps out c'
    using that keeps_offline by (blast intro: evolution_keys map_fst_put evolves_put lifecycle_path_keeps)
  show "evolution st (put_mgr cid c' st)"
    if "get_mgr st cid = Some c" "dependencyOffline_resume w c wt fr = Some (out, c')" for st cid c w wt fr out c'
    using that keeps_offline_resume by (blast intro: evolution_keys map_fst_put evolves_put lifecycle_path_keeps)
  show "evolution st (put_pair cid c' pid p' st)"
    if "get_mgr st cid = Some c" "get_mgr st pid = Some p" "finishDependencyOffline c p deps = Some (c', p')" for st cid c pid p deps c' p'
    using that keeps_finish by (blast intro: evolution_keys map_fst_put evolves_put_pair)
  show "evolution st (detach sid (m_injected m) st)" for st sid m
    by (rule evolution_keys [OF map_fst_detach evolves_detach])
  show "evolution st (st\<lparr>dm_services := dm_emplace cid m (dm_services st)\<rparr>)" if "fresh_manager cid m" for st cid m
    using that unfolding evolution_def evolves_def
    by (auto simp: get_mgr_def dm_find_emplace dm_ok_emplace intro: lifecycle_path_refl split: if_splits)
  show "evolution st (st\<lparr>dm_services := dm_erase sid (dm_services st)\<rparr>)" for st sid
    unfolding evolution_def evolves_def
    by (auto simp: get_mgr_def dm_find_erase dm_ok_erase intro: lifecycle_path_refl split: if_splits)
qed (auto simp: push_event_def waitForService_def finish_waiters_def get_mgr_def dm_find_def evolves_def evolution_def)

section \<open>Injected services stay alive\<close>

text \<open>
  The references of the framework between services: whatever a service has injected is a service the
  manager still knows, and which counts the first one among its dependees. A service is only ever
  destroyed when it has no dependees, so nobody keeps a reference to it. The service a consumer
  receives when it asks for itself is the consumer and is not counted.
\<close>

definition manager_ok :: "dm \<Rightarrow> service_id \<Rightarrow> mgr \<Rightarrow> bool" where
  "manager_ok st sid m \<longleftrightarrow>
     m_id m = sid \<and> distinct (m_dependees m) \<and> distinct (m_injected m) \<and> m_kind m \<noteq> Self_Manager \<and>
     (m_kind m = Internal_Manager \<longrightarrow> m_interfaces m = [interface_of (m_type m)]) \<and>
     (\<forall>p \<in> set (m_injected m). p \<noteq> SELF_SERVICE_ID \<longrightarrow>
        (\<exists>q. get_mgr st p = Some q \<and> sid \<in> set (m_dependees q)))"

definition injection_safe :: "dm \<Rightarrow> bool" where
  "injection_safe st \<longleftrightarrow>
     dm_ok (dm_services st) \<and> (\<forall>sid m. get_mgr st sid = Some m \<longrightarrow> manager_ok st sid m)"

definition keeps_safe :: "dm \<Rightarrow> dm \<Rightarrow> bool" where
  "keeps_safe st st' \<longleftrightarrow> (injection_safe st \<longrightarrow> injection_safe st')"

text \<open>What one injection does to the two sides.\<close>

definition joined :: "mgr \<Rightarrow> mgr \<Rightarrow> mgr \<Rightarrow> mgr \<Rightarrow> bool" where
  "joined c p c' p' \<longleftrightarrow>
     (m_injected c' = m_injected c \<and> m_dependees p' = m_dependees p) \<or>
     (m_injected c' = ds_insert (m_id p) (m_injected c) \<and> m_dependees p' = ds_insert (m_id c) (m_dependees p))"

definition offers :: "mgr \<Rightarrow> Dependency list \<Rightarrow> bool" where
  "offers p ifs \<longleftrightarrow>
     m_kind p \<noteq> Self_Manager \<and> (m_kind p = Internal_Manager \<longrightarrow> (\<forall>f \<in> set ifs. interfaceNameHash f = m_type p)) \<and>
     (m_kind p \<noteq> Internal_Manager \<and> ifs \<noteq> [] \<longrightarrow> m_interfaces p \<noteq> [])"

lemma online_loop_joined:
  "online_loop ifs i c p = Some (i', c', p') \<Longrightarrow> offers p ifs \<Longrightarrow> joined c p c' p'"
proof (induction ifs arbitrary: i c p)
  case Nil
  then show ?case by (simp add: joined_def)
next
  case (Cons f ifs)
  show ?case
  proof (cases "register_find_sat (m_registry c) (interfaceNameHash f) False")
    case None
    then show ?thesis using Cons.prems Cons.IH by (auto simp: offers_def)
  next
    case (Some k)
    let ?h = "interfaceNameHash f"
    let ?c1 = "c\<lparr>m_injected := ds_insert (m_id p) (m_injected c)\<rparr>"
    have h: "interfaceNameHash (reg_dep (m_registry c ! k)) = ?h"
      using find_sat_False [OF Some] by (simp add: reg_hash_def)
    obtain j c2 p2 where inj: "injectIntoSelfDoubleDispatch ?h ?c1 p = Some (c2, p2)"
      and rec: "online_loop ifs j (c2\<lparr>m_registry := set_satisfied k u64_inc (m_registry c2)\<rparr>) p2 = Some (i', c', p')"
      using Cons.prems(1) Some h by (auto simp: Let_def split: option.splits)
    let ?c3 = "c2\<lparr>m_registry := set_satisfied k u64_inc (m_registry c2)\<rparr>"
    have one: "m_injected ?c3 = ds_insert (m_id p) (m_injected c) \<and> m_dependees p2 = ds_insert (m_id c) (m_dependees p)"
      and ids: "m_id ?c3 = m_id c" "m_id p2 = m_id p" "m_kind p2 = m_kind p" "m_type p2 = m_type p"
        "m_interfaces p2 = m_interfaces p"
      using inj Cons.prems(2)
      by (auto simp: injectIntoSelfDoubleDispatch_def insertSelfInto_def call_instance_def offers_def
          split: option.splits manager_kind.splits if_splits)
    have "offers p2 ifs" using Cons.prems(2) ids by (auto simp: offers_def)
    then have "joined ?c3 p2 c' p'" using Cons.IH [OF rec] by blast
    then show ?thesis using one ids by (auto simp: joined_def)
  qed
qed

lemma dependencyOnline_joined:
  assumes "dependencyOnline c p = Some (sb, c', p')" and "m_kind p \<noteq> Self_Manager"
    and "m_kind p = Internal_Manager \<longrightarrow> m_interfaces p = [interface_of (m_type p)]"
  shows "joined c p c' p'"
proof -
  have "offers p (m_interfaces p)" using assms(2,3) by (auto simp: offers_def interface_of_def)
  then show ?thesis
    using assms(1) online_loop_joined
    by (auto simp: dependencyOnline_def joined_def split: if_splits option.splits) blast+
qed

lemma online_loop_self:
  "online_loop ifs i c p = Some (i', c', p') \<Longrightarrow>
   set (m_injected c') \<subseteq> insert (m_id p) (set (m_injected c)) \<and> m_dependees c' = m_dependees c \<and>
   (distinct (m_injected c) \<longrightarrow> distinct (m_injected c'))"
proof (induction ifs arbitrary: i c p)
  case (Cons f ifs)
  show ?case
  proof (cases "register_find_sat (m_registry c) (interfaceNameHash f) False")
    case None
    then show ?thesis using Cons by simp
  next
    case (Some k)
    let ?c1 = "c\<lparr>m_injected := ds_insert (m_id p) (m_injected c)\<rparr>"
    obtain j c2 p2 where inj: "injectIntoSelfDoubleDispatch (interfaceNameHash (reg_dep (m_registry c ! k))) ?c1 p = Some (c2, p2)"
      and rec: "online_loop ifs j (c2\<lparr>m_registry := set_satisfied k u64_inc (m_registry c2)\<rparr>) p2 = Some (i', c', p')"
      using Cons.prems Some by (auto simp: Let_def split: option.splits)
    have "m_injected c2 = m_injected ?c1 \<and> m_dependees c2 = m_dependees c \<and> m_id p2 = m_id p"
      using inj by (auto simp: injectIntoSelfDoubleDispatch_def insertSelfInto_def call_instance_def
          split: option.splits manager_kind.splits if_splits)
    then show ?thesis using Cons.IH [OF rec] by (auto simp: set_ds_insert distinct_ds_insert)
  qed
qed (simp add: subset_insertI)

lemma safe_ok: "injection_safe st \<Longrightarrow> get_mgr st sid = Some m \<Longrightarrow> manager_ok st sid m"
  by (simp add: injection_safe_def)

lemma safe_change:
  assumes "injection_safe st" and "dm_ok (dm_services st')"
    and "\<And>s m'. get_mgr st' s = Some m' \<Longrightarrow>
      \<exists>m. get_mgr st s = Some m \<and> same_shape m m' \<and> distinct (m_dependees m') \<and> distinct (m_injected m') \<and>
        (\<forall>p \<in> set (m_injected m'). p \<noteq> SELF_SERVICE_ID \<longrightarrow> (\<exists>q. get_mgr st' p = Some q \<and> s \<in> set (m_dependees q)))"
  shows "injection_safe st'"
  unfolding injection_safe_def
proof (intro conjI allI impI)
  fix s m'
  assume "get_mgr st' s = Some m'"
  then obtain m where "get_mgr st s = Some m" "same_shape m m'" "distinct (m_dependees m')" "distinct (m_injected m')"
    "\<forall>p \<in> set (m_injected m'). p \<noteq> SELF_SERVICE_ID \<longrightarrow> (\<exists>q. get_mgr st' p = Some q \<and> s \<in> set (m_dependees q))"
    using assms(3) by blast
  then show "manager_ok st' s m'"
    using safe_ok [OF assms(1)] by (auto simp: manager_ok_def same_shape_def)
qed (rule assms(2))

lemma dm_ok_put: "dm_ok (dm_services (put_mgr sid m st)) = dm_ok (dm_services st)"
    "dm_ok (dm_services (put_pair cid c pid p st)) = dm_ok (dm_services st)"
  by (simp_all add: dm_ok_def)

lemma safe_put:
  assumes "injection_safe st" and "get_mgr st sid = Some m" and "same_shape m m'"
    and "set (m_dependees m) \<subseteq> set (m_dependees m')" and "distinct (m_dependees m')"
    and "set (m_injected m') \<subseteq> insert SELF_SERVICE_ID (set (m_injected m))" and "distinct (m_injected m')"
  shows "injection_safe (put_mgr sid m' st)"
proof (rule safe_change [OF assms(1)])
  let ?st' = "put_mgr sid m' st"
  have still: "\<exists>q'. get_mgr ?st' p = Some q' \<and> s \<in> set (m_dependees q')"
    if "get_mgr st p = Some q" "s \<in> set (m_dependees q)" for p q s
    using that assms(2,4) by auto
  fix s x
  assume x: "get_mgr ?st' s = Some x"
  then obtain m0 where m0: "get_mgr st s = Some m0" "x = (if s = sid then m' else m0)"
    by (auto split: if_splits)
  have ok: "manager_ok st s m0" using safe_ok assms(1) m0(1) by blast
  have "set (m_injected x) \<subseteq> insert SELF_SERVICE_ID (set (m_injected m0))"
    using m0 assms(2,6) by auto
  then have "\<forall>p \<in> set (m_injected x). p \<noteq> SELF_SERVICE_ID \<longrightarrow> (\<exists>q. get_mgr ?st' p = Some q \<and> s \<in> set (m_dependees q))"
    using ok still unfolding manager_ok_def by blast
  then show "\<exists>m. get_mgr st s = Some m \<and> same_shape m x \<and> distinct (m_dependees x) \<and> distinct (m_injected x) \<and>
      (\<forall>p \<in> set (m_injected x). p \<noteq> SELF_SERVICE_ID \<longrightarrow> (\<exists>q. get_mgr ?st' p = Some q \<and> s \<in> set (m_dependees q)))"
    using m0 assms ok by (auto simp: manager_ok_def)
qed (use assms(1) in \<open>simp add: dm_ok_put injection_safe_def\<close>)

text \<open>
  A change of a consumer and a provider is safe when the provider only loses the consumer among its
  dependees, and only if the consumer does not keep it.
\<close>

lemma safe_put_pair:
  assumes safe: "injection_safe st" and c: "get_mgr st cid = Some c" and p: "get_mgr st pid = Some p"
    and shape: "same_shape c c'" "same_shape p p'"
    and cd: "m_dependees c' = m_dependees c" and pi: "m_injected p' = m_injected p"
    and inj: "set (m_injected c') \<subseteq> insert pid (set (m_injected c))" "distinct (m_injected c')"
    and dep: "set (m_dependees p) - {cid} \<subseteq> set (m_dependees p')" "distinct (m_dependees p')"
    and both: "pid \<in> set (m_injected c') \<Longrightarrow> pid \<noteq> SELF_SERVICE_ID \<Longrightarrow> cid \<in> set (m_dependees p')"
  shows "injection_safe (put_pair cid c' pid p' st)"
proof (rule safe_change [OF safe])
  let ?st' = "put_pair cid c' pid p' st"
  have view: "\<exists>m'. get_mgr ?st' s = Some m' \<and> same_shape m m' \<and>
      m_injected m' = (if s = cid then m_injected c' else m_injected m) \<and>
      m_dependees m' = (if s = pid then m_dependees p' else m_dependees m)"
    if "get_mgr st s = Some m" for s m
    using that c p shape cd pi by (auto simp: put_pair_def same_shape_def)
  fix s x
  assume x: "get_mgr ?st' s = Some x"
  then obtain m where m: "get_mgr st s = Some m" by (auto simp: put_pair_def split: if_splits)
  have x': "same_shape m x" "m_injected x = (if s = cid then m_injected c' else m_injected m)"
    "m_dependees x = (if s = pid then m_dependees p' else m_dependees m)"
    using view [OF m] x by auto
  have ok: "manager_ok st s m" using safe_ok safe m by blast
  have "\<exists>q. get_mgr ?st' a = Some q \<and> s \<in> set (m_dependees q)"
    if a: "a \<in> set (m_injected x)" "a \<noteq> SELF_SERVICE_ID" for a
  proof (cases "s = cid \<and> a = pid")
    case True
    then show ?thesis using view [OF p] both a x'(2) by auto
  next
    case False
    have "a \<in> set (m_injected m)" using False a(1) x'(2) inj(1) m c by (auto split: if_splits)
    then obtain q where q: "get_mgr st a = Some q" "s \<in> set (m_dependees q)"
      using ok a(2) unfolding manager_ok_def by blast
    have "s \<in> set (m_dependees p')" if "a = pid"
      using False that q p dep(1) by auto
    then show ?thesis using view [OF q(1)] q(2) by (cases "a = pid") auto
  qed
  then show "\<exists>m. get_mgr st s = Some m \<and> same_shape m x \<and> distinct (m_dependees x) \<and> distinct (m_injected x) \<and>
      (\<forall>p \<in> set (m_injected x). p \<noteq> SELF_SERVICE_ID \<longrightarrow> (\<exists>q. get_mgr ?st' p = Some q \<and> s \<in> set (m_dependees q)))"
    using m x' ok inj(2) dep(2) by (auto simp: manager_ok_def)
qed (use safe in \<open>simp add: dm_ok_put injection_safe_def\<close>)

lemma dispatch_fields:
  assumes "injectIntoSelfDoubleDispatch h c p = Some (c', p') \<or> removeSelfIntoDoubleDispatch h c p = Some (c', p')"
  shows "m_injected p' = m_injected p" "m_id p' = m_id p" "m_dependees c' = m_dependees c" "m_id c' = m_id c"
    "m_injected c' = m_injected c"
  using assms
  by (auto simp: injectIntoSelfDoubleDispatch_def removeSelfIntoDoubleDispatch_def insertSelfInto_def
      removeSelfInto_def call_instance_def split: option.splits manager_kind.splits if_splits)

lemma online_loop_provider: "online_loop ifs i c p = Some (i', c', p') \<Longrightarrow> m_injected p' = m_injected p"
proof (induction ifs arbitrary: i c p)
  case (Cons f ifs)
  then show ?case
    by (auto simp: Let_def split: option.splits prod.splits dest!: dispatch_fields(1) [OF disjI1])
qed simp

lemma remove_dependees:
  assumes "removeSelfIntoDoubleDispatch h c p = Some (c', p')"
  shows "set (m_dependees p) - {m_id c} \<subseteq> set (m_dependees p')"
    and "distinct (m_dependees p) \<Longrightarrow> distinct (m_dependees p')"
  using assms set_ds_erase_superset [of "m_dependees p" "m_id c"] distinct_ds_erase
  by (auto simp: removeSelfIntoDoubleDispatch_def removeSelfInto_def split: option.splits manager_kind.splits if_splits)

lemma finish_loop_sides:
  "finish_loop deps c p = Some (c', p') \<Longrightarrow>
   m_injected c' = m_injected c \<and> m_dependees c' = m_dependees c \<and> m_injected p' = m_injected p \<and>
   set (m_dependees p) - {m_id c} \<subseteq> set (m_dependees p') \<and> (distinct (m_dependees p) \<longrightarrow> distinct (m_dependees p'))"
proof (induction deps arbitrary: c p)
  case (Cons d deps)
  then obtain c1 p1 where step: "removeSelfIntoDoubleDispatch (interfaceNameHash (reg_dep (m_registry c ! d))) c p = Some (c1, p1)"
    and rec: "finish_loop deps c1 p1 = Some (c', p')"
    by (auto split: option.splits)
  show ?case
    using Cons.IH [OF rec] dispatch_fields [OF disjI2 [OF step]] remove_dependees [OF step] by auto
qed simp

lemma offline_loop_sides:
  "offline_loop w is i r c = Some (out, c') \<Longrightarrow> m_injected c' = m_injected c \<and> m_dependees c' = m_dependees c"
proof (induction "is" arbitrary: i r c)
  case (Cons k ks)
  then show ?case by (fastforce simp: Let_def split: if_splits offline_stage.splits)
qed simp

lemma offline_sides:
  "dependencyOffline w c p deps = Some (out, c') \<Longrightarrow> m_injected c' = m_injected c \<and> m_dependees c' = m_dependees c"
  "dependencyOffline_resume w c wt fr = Some (out, c') \<Longrightarrow> m_injected c' = m_injected c \<and> m_dependees c' = m_dependees c"
  by (auto simp: dependencyOffline_def dependencyOffline_resume_def dest!: offline_loop_sides
      split: offline_wait.splits if_splits offline_stage.splits prod.splits)

lemma online_sides:
  assumes "dependencyOnline c p = Some (sb, c', p')"
  shows "m_dependees c' = m_dependees c" and "m_injected p' = m_injected p"
    and "set (m_injected c') \<subseteq> insert (m_id p) (set (m_injected c))"
    and "distinct (m_injected c) \<Longrightarrow> distinct (m_injected c')"
proof -
  consider "c' = c" "p' = p" | i i' where "online_loop (m_interfaces p) i c p = Some (i', c', p')"
    using assms by (auto simp: dependencyOnline_def split: if_splits option.splits)
  note cs = this
  show "m_dependees c' = m_dependees c" "m_injected p' = m_injected p"
    "set (m_injected c') \<subseteq> insert (m_id p) (set (m_injected c))"
    "distinct (m_injected c) \<Longrightarrow> distinct (m_injected c')"
    using cs online_loop_self online_loop_provider by (cases; blast)+
qed

lemma safe_online:
  assumes "injection_safe st" and "get_mgr st cid = Some c" and "get_mgr st pid = Some p"
    and "dependencyOnline c p = Some (sb, c', p')"
  shows "injection_safe (put_pair cid c' pid p' st)"
proof -
  have ok: "manager_ok st cid c" "manager_ok st pid p" using safe_ok assms by blast+
  have j: "joined c p c' p'"
    using dependencyOnline_joined assms(4) ok(2) unfolding manager_ok_def by blast
  have cd: "m_dependees c' = m_dependees c" and pi: "m_injected p' = m_injected p"
    and inj: "set (m_injected c') \<subseteq> insert pid (set (m_injected c))"
    using online_sides [OF assms(4)] ok by (simp_all add: manager_ok_def)
  show ?thesis
  proof (rule safe_put_pair [OF assms(1-3) _ _ cd pi inj])
    show "same_shape c c'" "same_shape p p'" using keeps_online [OF assms(4)] by (auto simp: keeps_def)
    show "distinct (m_injected c')" "set (m_dependees p) - {cid} \<subseteq> set (m_dependees p')" "distinct (m_dependees p')"
      using j ok by (auto simp: joined_def manager_ok_def set_ds_insert distinct_ds_insert)
    show "cid \<in> set (m_dependees p')" if "pid \<in> set (m_injected c')" "pid \<noteq> SELF_SERVICE_ID"
      using that j ok assms(3) by (auto simp: joined_def manager_ok_def set_ds_insert)
  qed
qed

lemma safe_finish:
  assumes "injection_safe st" and "get_mgr st cid = Some c" and "get_mgr st pid = Some p"
    and "finishDependencyOffline c p deps = Some (c', p')"
  shows "injection_safe (put_pair cid c' pid p' st)"
proof -
  have ok: "manager_ok st cid c" "manager_ok st pid p" using safe_ok assms by blast+
  obtain c1 where c1: "finish_loop deps c p = Some (c1, p')"
    "c' = c1\<lparr>m_goingAway := ds_erase (m_id p) (m_goingAway c1), m_injected := ds_erase (m_id p) (m_injected c1)\<rparr>"
    using assms(4) by (auto simp: finishDependencyOffline_def split: if_splits option.splits)
  note sides = finish_loop_sides [OF c1(1)]
  have inj: "m_injected c' = ds_erase pid (m_injected c)" using c1(2) sides ok by (simp add: manager_ok_def)
  show ?thesis
  proof (rule safe_put_pair [OF assms(1-3)])
    show "same_shape c c'" "same_shape p p'" using keeps_finish [OF assms(4)] by (auto simp: keeps_def)
  qed (use sides ok inj c1(2) in \<open>auto simp: manager_ok_def set_ds_erase distinct_ds_erase\<close>)
qed

lemma safe_self:
  assumes "injection_safe st" and "get_mgr st cid = Some c"
    and "dependencyOnline c (new_self_manager h) = Some (sb, c', p')"
  shows "injection_safe (put_mgr cid c' st)"
proof (rule safe_put [OF assms(1,2)])
  have ok: "manager_ok st cid c" using safe_ok assms by blast
  show "same_shape c c'" using keeps_online [OF assms(3)] by (simp add: keeps_def)
  show "set (m_injected c') \<subseteq> insert SELF_SERVICE_ID (set (m_injected c))"
    using online_sides(3) [OF assms(3)] by (simp add: new_self_manager_def new_dependency_manager_def)
  show "set (m_dependees c) \<subseteq> set (m_dependees c')" "distinct (m_dependees c')" "distinct (m_injected c')"
    using online_sides [OF assms(3)] ok by (auto simp: manager_ok_def)
qed

lemma safe_detach:
  assumes "injection_safe st" and "get_mgr st sid = Some m"
  shows "injection_safe (detach sid deps st)"
proof (rule safe_change [OF assms(1)])
  let ?st' = "detach sid deps st"
  fix s x
  assume x: "get_mgr ?st' s = Some x"
  then obtain m where m: "get_mgr st s = Some m" using get_mgr_detach_None [of sid deps st s] by fastforce
  have ok: "manager_ok st s m" using safe_ok assms(1) m by blast
  have x': "same_shape m x" "m_injected x = (if s = sid then [] else m_injected m)" "distinct (m_dependees x)"
    using get_mgr_detach [OF m, of sid deps] x ok by (auto simp: manager_ok_def same_shape_def)
  have "\<exists>q. get_mgr ?st' p = Some q \<and> s \<in> set (m_dependees q)"
    if p: "p \<in> set (m_injected x)" "p \<noteq> SELF_SERVICE_ID" for p
  proof -
    have "s \<noteq> sid" "p \<in> set (m_injected m)" using p(1) x'(2) by (auto split: if_splits)
    then obtain q where "get_mgr st p = Some q" "s \<in> set (m_dependees q)"
      using ok p(2) unfolding manager_ok_def by blast
    then show ?thesis using get_mgr_detach [of st p q sid deps] \<open>s \<noteq> sid\<close> by auto
  qed
  then show "\<exists>m. get_mgr st s = Some m \<and> same_shape m x \<and> distinct (m_dependees x) \<and> distinct (m_injected x) \<and>
      (\<forall>p \<in> set (m_injected x). p \<noteq> SELF_SERVICE_ID \<longrightarrow> (\<exists>q. get_mgr ?st' p = Some q \<and> s \<in> set (m_dependees q)))"
    using m x' ok by (auto simp: manager_ok_def)
qed (use assms(1) in \<open>simp add: injection_safe_def dm_ok_def\<close>)

lemma safe_remove:
  assumes "injection_safe st" and "get_mgr st sid = Some m" and "m_dependees m = []"
  shows "injection_safe (st\<lparr>dm_services := dm_erase sid (dm_services st)\<rparr>)"
proof (rule safe_change [OF assms(1)])
  let ?st' = "st\<lparr>dm_services := dm_erase sid (dm_services st)\<rparr>"
  have get: "get_mgr ?st' s = (if s = sid then None else get_mgr st s)" for s
    using assms(1) by (simp add: get_mgr_def injection_safe_def dm_find_erase)
  fix s x
  assume x: "get_mgr ?st' s = Some x"
  then have ok: "manager_ok st s x" using safe_ok [OF assms(1)] by (simp add: get split: if_splits)
  have "\<exists>q. get_mgr ?st' p = Some q \<and> s \<in> set (m_dependees q)"
    if "p \<in> set (m_injected x)" "p \<noteq> SELF_SERVICE_ID" for p
    using ok that assms(2,3) unfolding manager_ok_def get by auto
  then show "\<exists>m. get_mgr st s = Some m \<and> same_shape m x \<and> distinct (m_dependees x) \<and> distinct (m_injected x) \<and>
      (\<forall>p \<in> set (m_injected x). p \<noteq> SELF_SERVICE_ID \<longrightarrow> (\<exists>q. get_mgr ?st' p = Some q \<and> s \<in> set (m_dependees q)))"
    using x ok by (auto simp: get manager_ok_def split: if_splits)
qed (use assms(1) in \<open>simp add: injection_safe_def dm_ok_erase\<close>)

lemma safe_insert:
  assumes "injection_safe st" and "fresh_manager cid m"
  shows "injection_safe (st\<lparr>dm_services := dm_emplace cid m (dm_services st)\<rparr>)"
proof -
  let ?st' = "st\<lparr>dm_services := dm_emplace cid m (dm_services st)\<rparr>"
  have get: "get_mgr ?st' s = (if s = cid \<and> get_mgr st cid = None then Some m else get_mgr st s)" for s
    by (simp add: get_mgr_def dm_find_emplace dm_find_None_iff)
  have "manager_ok ?st' s x" if "get_mgr ?st' s = Some x" for s x
  proof (cases "s = cid \<and> get_mgr st cid = None")
    case True
    then show ?thesis using that assms(2) by (auto simp: get manager_ok_def fresh_manager_def)
  next
    case False
    have "get_mgr st s = Some x" using that unfolding get if_not_P [OF False] .
    then have ok: "manager_ok st s x" using safe_ok [OF assms(1)] by blast
    then show ?thesis unfolding manager_ok_def get by fastforce
  qed
  then show ?thesis using assms(1) by (simp add: injection_safe_def dm_ok_emplace)
qed

lemma safe_services: "dm_services st' = dm_services st \<Longrightarrow> injection_safe st' = injection_safe st"
  by (simp add: injection_safe_def manager_ok_def get_mgr_def)

lemma safe_same:
  assumes "injection_safe st" and "get_mgr st sid = Some m" and "same_shape m m'"
    and "m_dependees m' = m_dependees m" and "m_injected m' = m_injected m"
  shows "injection_safe (put_mgr sid m' st)"
  using safe_ok [OF assms(1,2)] assms(3-) by (intro safe_put [OF assms(1,2)]) (auto simp: manager_ok_def)

lemma safe_state:
  assumes "injection_safe st" and "get_mgr st sid = Some m"
  shows "injection_safe (put_mgr sid (m\<lparr>m_state := s\<rparr>) st)"
  by (rule safe_same [OF assms]) (simp_all add: same_shape_def)

lemma safe_priority:
  assumes "injection_safe st"
  shows "injection_safe (setServicePriority sid prio st)"
proof (cases "get_mgr st sid")
  case None
  then have "dm_services (setServicePriority sid prio st) = dm_services st"
    by (auto simp: setServicePriority_def get_mgr_def dm_find_None_iff dm_contains_def dm_modify_def intro!: map_idI)
      (metis fst_conv image_eqI)
  then show ?thesis using assms safe_services by blast
next
  case (Some m)
  have "setServicePriority sid prio st = put_mgr sid (m\<lparr>m_priority := prio\<rparr>) st"
    using assms Some
    by (auto simp: setServicePriority_def put_mgr_def dm_modify_def get_mgr_def injection_safe_def dm_find_Some_iff
        dm_ok_def intro!: map_cong arg_cong [of _ _ "\<lambda>s. st\<lparr>dm_services := s\<rparr>"] dest: eq_key_imp_eq_value)
  moreover have "injection_safe (put_mgr sid (m\<lparr>m_priority := prio\<rparr>) st)"
    by (rule safe_same [OF assms Some]) (simp_all add: same_shape_def)
  ultimately show ?thesis by simp
qed

interpretation safe: handler_relation keeps_safe
proof
  show "keeps_safe a b \<Longrightarrow> keeps_safe b c \<Longrightarrow> keeps_safe a c" for a b c
    by (simp add: keeps_safe_def)
  show "keeps_safe st (setServicePriority sid prio st)" for st sid prio
    by (simp add: keeps_safe_def safe_priority)
  show "keeps_safe st (put_mgr cid c' st)"
    if "get_mgr st cid = Some c" "dependencyOffline w c p deps = Some (out, c')" for st cid c w p deps out c'
    using safe_same [OF _ that(1)] offline_sides(1) [OF that(2)] keeps_offline [OF that(2)]
    by (auto simp: keeps_safe_def keeps_def)
  show "keeps_safe st (put_mgr cid c' st)"
    if "get_mgr st cid = Some c" "dependencyOffline_resume w c wt fr = Some (out, c')" for st cid c w wt fr out c'
    using safe_same [OF _ that(1)] offline_sides(2) [OF that(2)] keeps_offline_resume [OF that(2)]
    by (auto simp: keeps_safe_def keeps_def)
qed (auto simp: keeps_safe_def push_event_def waitForService_def finish_waiters_def safe_state safe_self safe_online safe_finish safe_detach safe_remove
    safe_insert injection_safe_def [of "st\<lparr>dm_queueQuit := True, dm_services := [], dm_quitDone := True\<rparr>" for st]
    get_mgr_def dm_find_def elim: safe_services [THEN iffD2, rotated])

section \<open>Reachable states\<close>

text \<open>
  The states a manager can get into: it is constructed, internal services are added to it, the code of
  the services calls its operations, suspended coroutines continue, and it processes events. Any event
  may come at any time; of an event that inserts a service only that the service is a fresh one is
  assumed, which is what \<^const>\<open>internalCreateServiceManager\<close> pushes.
\<close>

inductive reachable :: "env \<Rightarrow> type_hash \<Rightarrow> dm \<Rightarrow> bool" for env iservice where
  reach_init: "reachable env iservice (new_manager h sid)"
| reach_internal: "reachable env iservice st \<Longrightarrow>
    reachable env iservice (addInternalServiceManager sid (new_internal_manager sid ty) st)"
| reach_started: "reachable env iservice st \<Longrightarrow> dm_start b st = Some st' \<Longrightarrow> reachable env iservice st'"
| reach_action: "reachable env iservice st \<Longrightarrow> apply_action a st = Some st' \<Longrightarrow> reachable env iservice st'"
| reach_resume: "reachable env iservice st \<Longrightarrow> resume_generator env pid st = Some st' \<Longrightarrow> reachable env iservice st'"
| reach_event: "reachable env iservice st \<Longrightarrow> admissible evt \<Longrightarrow> processEvent env iservice evt st = Some st' \<Longrightarrow>
    reachable env iservice st'"

lemma resume_generator_cases:
  assumes "resume_generator env pid st = Some st'"
  obtains "st' = st"
  | out st1 where "user env (U_Continue pid) st = Some (out, st1)" "st' = st1"
  | out st1 g sid m s sb where "user env (U_Continue pid) st = Some (out, st1)" "get_mgr st1 sid = Some m"
      "st' = finish_start_generator pid g sb (put_mgr sid (m\<lparr>m_state := s\<rparr>) st1)"
  | out st1 orig prio where "user env (U_Continue pid) st = Some (out, st1)"
      "st' = push_event orig prio (ContinuableEvent pid) (set_body pid GB_DoneIchor st1)"
proof (cases "dm_find pid (dm_generators st)")
  case None
  then show ?thesis using assms that(1) by (simp add: resume_generator_def)
next
  case (Some g)
  note g = Some
  then obtain out st1 where u: "user env (U_Continue pid) st = Some (out, st1)"
    using assms by (auto simp: resume_generator_def bind_eq_Some_conv)
  show ?thesis
  proof (cases out)
    case O_Suspended
    then show ?thesis using assms g u that(2) by (simp add: resume_generator_def)
  next
    case (O_Finished ok)
    note run = assms [unfolded resume_generator_def g option.case u bind.bind_lunit prod.case O_Finished outcome.case]
    show ?thesis
      using run that u
      by (cases "sg_body g")
        (auto simp: bind_eq_Some_conv internal_start_exit_def internal_stop_exit_def split: if_splits)
  qed
qed

lemma safe_resume_generator:
  assumes "injection_safe st" and "resume_generator env pid st = Some st'"
  shows "injection_safe st'"
proof -
  have u: "injection_safe st1" if "user env (U_Continue pid) st = Some (out, st1)" for out st1
    using safe.R_user [OF that] assms(1) by (simp add: keeps_safe_def)
  from assms(2) show ?thesis
  proof (cases rule: resume_generator_cases)
    case (3 out st1 g sid m s sb)
    then show ?thesis
      using safe_state [OF u [OF 3(1)] 3(2)] safe.R_finish_start_generator by (simp add: keeps_safe_def)
  next
    case (4 out st1 orig prio)
    then show ?thesis using u [OF 4(1)] safe.R_push_after [OF safe.R_set_body] by (simp add: keeps_safe_def)
  qed (use u assms in auto)
qed

lemma safe_new_manager: "injection_safe (new_manager h sid)"
  by (simp add: injection_safe_def manager_ok_def get_mgr_def dm_find_def dm_ok_def new_manager_def
      new_internal_manager_def new_dependency_manager_def split: if_splits)

lemma safe_addInternal:
  assumes "injection_safe st"
  shows "injection_safe (addInternalServiceManager sid (new_internal_manager sid ty) st)"
proof -
  let ?m = "new_internal_manager sid ty" let ?st' = "addInternalServiceManager sid ?m st"
  have get: "get_mgr ?st' s = (if s = sid \<and> get_mgr st sid = None then Some ?m else get_mgr st s)" for s
    by (simp add: addInternalServiceManager_def get_mgr_def dm_find_emplace dm_find_None_iff)
  have "manager_ok ?st' s x" if "get_mgr ?st' s = Some x" for s x
  proof (cases "s = sid \<and> get_mgr st sid = None")
    case True
    have "x = ?m" using that unfolding get if_P [OF True] by simp
    then show ?thesis using True by (simp add: manager_ok_def new_internal_manager_def new_dependency_manager_def)
  next
    case False
    have "get_mgr st s = Some x" using that unfolding get if_not_P [OF False] .
    then have "manager_ok st s x" using safe_ok [OF assms] by blast
    then show ?thesis unfolding manager_ok_def get by fastforce
  qed
  then show ?thesis using assms by (simp add: injection_safe_def addInternalServiceManager_def dm_ok_emplace)
qed

lemma reachable_safe: "reachable env iservice st \<Longrightarrow> injection_safe st"
proof (induction rule: reachable.induct)
  case (reach_started st b st')
  then show ?case
    by (auto simp: dm_start_def split: if_splits elim: safe_services [THEN iffD2, rotated])
next
  case (reach_action st a st')
  then show ?case using safe.R_apply_action by (simp add: keeps_safe_def)
next
  case (reach_event st evt st')
  then show ?case using safe.R_processEvent by (simp add: keeps_safe_def)
qed (auto intro: safe_new_manager safe_addInternal safe_resume_generator)

end
