(* ===== verification/Example_Runs.thy ===== *)
theory Example_Runs
  imports Manager_Invariants
begin

text \<open>
  Small runs of the dependency manager, and the equations that evaluate the model on them. They serve
  the witnesses of the properties: each shows that the hypotheses of a property can hold.
\<close>

section \<open>An example\<close>

text \<open>
  A service that asks for the dependency manager itself is inserted into a new manager. The code of
  all services finishes at once and calls nothing.
\<close>

definition quiet_env :: env where
  "quiet_env = (\<lambda>_ _. (O_Finished True, []))"

definition ex_asker :: mgr where
  "ex_asker = new_dependency_manager 2 20 []
     [\<lparr>reg_dep = \<lparr>interfaceNameHash = 7, flags = REQUIRED, satisfied = 0\<rparr>, reg_props = None\<rparr>] []"

definition ex_insert :: event where
  "ex_insert = \<lparr>ev_id = 0, ev_origin = 2, ev_priority = 50, ev_payload = InsertServiceEvent ex_asker\<rparr>"

definition ex_plain :: mgr where
  "ex_plain = new_plain_manager 2 20 [] []"

definition ex_event :: "payload \<Rightarrow> event" where
  "ex_event p = \<lparr>ev_id = 0, ev_origin = 2, ev_priority = 50, ev_payload = p\<rparr>"

definition ex_from :: "service_id \<Rightarrow> payload \<Rightarrow> event" where
  "ex_from sid p = (ex_event p)\<lparr>ev_origin := sid\<rparr>"

definition ex_provider :: mgr where
  "ex_provider = new_plain_manager 3 30 [7] []"

fun run_events :: "env \<Rightarrow> type_hash \<Rightarrow> event list \<Rightarrow> dm \<Rightarrow> dm option" where
  "run_events env iservice [] st = Some st"
| "run_events env iservice (e # es) st =
     Option.bind (processEvent env iservice e st) (run_events env iservice es)"

lemma quiet_user [simp]: "user quiet_env c st = Some (O_Finished True, st)"
  by (simp add: user_def quiet_env_def)

lemmas container_eval = dm_find_def dm_emplace_def dm_contains_def dm_modify_def dm_erase_def ds_insert_def ds_erase_def
  append_at_def get_mgr_def put_mgr_def put_pair_def push_event_def next_promise_def next_event_id_def

lemmas manager_eval = new_dependency_manager_def new_plain_manager_def new_internal_manager_def new_self_manager_def
  new_manager_def interface_of_def isInternalManager_def getDependencyRegistry_def provides_def call_instance_def
  insertSelfInto_def removeSelfInto_def injectIntoSelfDoubleDispatch_def removeSelfIntoDoubleDispatch_def
  internal_start_enter_def internal_start_exit_def internal_stop_enter_def internal_stop_exit_def setInjected_def
  setUninjected_def start_enter_def startAfterDependencyOnline_enter_def after_online_result_def stop_enter_def
  dependencyOnline_def register_find_sat_def register_find_def dep_matches_def allSatisfied_def set_satisfied_def
  has_flag_def REQUIRED_def ALLOW_MULTIPLE_def FLAG_NONE_def u64_inc_def u64_dec_def SELF_SERVICE_ID_def
  INTERNAL_EVENT_PRIORITY_def INTERNAL_DEPENDENCY_EVENT_PRIORITY_def INTERNAL_COROUTINE_EVENT_PRIORITY_def
  INTERNAL_INSERT_SERVICE_EVENT_PRIORITY_def less_eq_ServiceState_def less_ServiceState_def

lemmas handler_eval = handle_insert_def read_filter_def passes_def inject_into_def run_start_after_def
  set_priority_of_def stop_if_quitting_def finishWaitingService_def handle_online_def handle_start_def handle_stop_def
  handle_offline_def existingCoroutineFor_def run_stop_def finish_stop_def detach_def clearServiceRegistrations_def
  removeInternalService_def checkIfCanQuit_def wait_fuel_def due_waiters_def kept_waiters_def finish_waiters_def

lemmas example_eval = ex_insert_def ex_asker_def ex_plain_def ex_event_def ex_from_def ex_provider_def

lemmas event_eval = processEvent_def dispatch_def get_type_def interceptors_for_def handleEventCompletion_def

lemma ex_admissible: "admissible ex_insert"
  by (simp add: admissible_def ex_insert_def ex_asker_def fresh_manager_def new_dependency_manager_def)

lemma ex_insert_run:
  obtains st c p where "processEvent quiet_env 99 ex_insert (new_manager 7 1) = Some st"
    "get_mgr st 2 = Some c" "m_injected c = [1]" "m_state c = INJECTING" "m_kind c = Dependency_Manager"
    "get_mgr st 1 = Some p" "m_dependees p = [2]"
    "map ev_payload (dm_pushed st) = [DependencyOnlineEvent]"
proof -
  have "\<exists>st. processEvent quiet_env 99 ex_insert (new_manager 7 1) = Some st \<and>
      map_option m_injected (get_mgr st 2) = Some [1] \<and> map_option m_state (get_mgr st 2) = Some INJECTING \<and>
      map_option m_kind (get_mgr st 2) = Some Dependency_Manager \<and>
      map_option m_dependees (get_mgr st 1) = Some [2] \<and> map ev_payload (dm_pushed st) = [DependencyOnlineEvent]"
    by (simp add: event_eval ex_insert_def ex_asker_def handler_eval manager_eval container_eval)
  then show thesis using that by fastforce
qed

end
