(* ===== verification/Waiting_Services.thy ===== *)
theory Waiting_Services
  imports Example_Runs
begin

text \<open>
  The coroutines that wait for a service (\<^verbatim>\<open>waitForService\<close> and \<^verbatim>\<open>finishWaitingService\<close> of
  \<^verbatim>\<open>src/src/ichor/DependencyManager.cpp\<close>). The loop that wakes them resumes code which may wait again
  for the same service; it is shown to end, and the fuel of its model to be enough. The waiters that
  nothing ever wakes are the subject of the second part.
\<close>

section \<open>Waking the waiters ends\<close>

definition due_at :: "service_id \<Rightarrow> event_type \<Rightarrow> dm \<Rightarrow> waiter list" where
  "due_at sid t st = (case dm_find sid (dm_depWaiters st) of None \<Rightarrow> [] | Some ew \<Rightarrow> due_waiters t ew)"

definition rest_sum :: "dm \<Rightarrow> nat" where
  "rest_sum st = sum_list (map (\<lambda>(pid, g). body_rest (sg_body g)) (dm_generators st))"

lemma wait_fuel_sum: "wait_fuel st = Suc (Suc (rest_sum st))"
  by (simp add: wait_fuel_def rest_sum_def)

definition quiet_for :: "service_id \<Rightarrow> event_type \<Rightarrow> dm \<Rightarrow> dm \<Rightarrow> bool" where
  "quiet_for sid t st st' \<longleftrightarrow> dm_generators st' = dm_generators st \<and> due_at sid t st' = due_at sid t st"

lemma quiet_refl [simp]: "quiet_for sid t st st"
  by (simp add: quiet_for_def)

lemma quiet_trans: "quiet_for sid t a b \<Longrightarrow> quiet_for sid t b c \<Longrightarrow> quiet_for sid t a c"
  by (simp add: quiet_for_def)

lemma quiet_frame:
  "dm_generators st' = dm_generators st \<Longrightarrow> dm_depWaiters st' = dm_depWaiters st \<Longrightarrow> quiet_for sid t st st'"
  by (simp add: quiet_for_def due_at_def)

lemma due_wait:
  "due_at sid t (waitForService s ty w st) =
     (if s = sid \<and> ty = t then due_at sid t st @ [w] else due_at sid t st)"
proof (cases "dm_find s (dm_depWaiters st)")
  case None
  then have "\<not> dm_contains s (dm_depWaiters st)" by (simp add: dm_find_None_iff [symmetric])
  then show ?thesis
    using None by (simp add: due_at_def waitForService_def due_waiters_def dm_find_emplace)
next
  case (Some ew)
  then have "dm_contains s (dm_depWaiters st)"
    using dm_find_None_iff [of s "dm_depWaiters st"] by simp
  then show ?thesis
    using Some by (simp add: due_at_def waitForService_def due_waiters_def dm_find_modify)
qed

lemma quiet_wait: "ty \<noteq> t \<Longrightarrow> quiet_for sid t st (waitForService s ty w st)"
  by (simp add: quiet_for_def due_wait) (simp add: waitForService_def)

lemma push_frame [simp]:
  "dm_generators (push_event a b c st) = dm_generators st" "dm_depWaiters (push_event a b c st) = dm_depWaiters st"
  by (simp_all add: push_event_def)

lemma push_requests_frame [simp]:
  "dm_generators (push_requests a b reg st) = dm_generators st"
  "dm_depWaiters (push_requests a b reg st) = dm_depWaiters st"
  by (induction a b reg st rule: push_requests.induct) simp_all

lemma create_frame:
  "internalCreateServiceManager ty ifs oreg props prio st = Some (sid, st') \<Longrightarrow>
   dm_generators st' = dm_generators st \<and> dm_depWaiters st' = dm_depWaiters st"
  by (auto simp: internalCreateServiceManager_def Let_def split: option.splits if_splits)

lemma push_async_frame:
  "pushPrioritisedEventAsync orig prio c p tok st = Some st' \<Longrightarrow>
   dm_generators st' = dm_generators st \<and> dm_depWaiters st' = dm_depWaiters st"
  by (auto simp: pushPrioritisedEventAsync_def Let_def split: option.splits if_splits)

lemma tracker_frame:
  "registerDependencyTracker sid h st = Some st' \<Longrightarrow>
   dm_generators st' = dm_generators st \<and> dm_depWaiters st' = dm_depWaiters st"
  by (auto simp: registerDependencyTracker_def split: option.splits if_splits)

lemma quiet_waits:
  assumes "t = T_Online \<or> t = T_Offline"
  shows "waitForServiceStarted s tok st = Some (w, st') \<Longrightarrow> quiet_for sid t st st'"
    and "waitForServiceStopped s tok st = Some (w, st') \<Longrightarrow> quiet_for sid t st st'"
  using assms
  by (auto simp: waitForServiceStarted_def waitForServiceStopped_def intro: quiet_wait split: option.splits if_splits)

lemma quiet_action:
  assumes "t = T_Online \<or> t = T_Offline" and "apply_action a st = Some st'"
  shows "quiet_for sid t st st'"
  using assms(2)
  by (cases a)
    (auto simp: registerEventHandler_def registerEventInterceptor_def setServicePriority_def
      dest: create_frame push_async_frame tracker_frame
      intro: quiet_frame quiet_waits [OF assms(1)])

lemma quiet_for_user:
  assumes "t = T_Online \<or> t = T_Offline" and "user env c st = Some (out, st')"
  shows "quiet_for sid t st st'"
proof -
  have "apply_actions as st = Some st' \<Longrightarrow> quiet_for sid t st st'" for as st
    by (induction as arbitrary: st) (auto simp: bind_eq_Some_conv intro: quiet_action [OF assms(1)] quiet_trans)
  then show ?thesis using assms(2) by (auto simp: user_def split: prod.splits)
qed

lemma loop_suspend_shorter:
  "offline_loop hw is i r c = Some (Off_Suspend w push fr, c') \<Longrightarrow> length (of_rest fr) < length is"
  by (induction "is" arbitrary: i r c)
    (fastforce simp: Let_def split: if_splits offline_stage.splits)+

lemma stop_check_wait: "offline_stop_check hw c b i r = Stage_Await w push \<Longrightarrow> w \<noteq> Await_Online"
  by (auto simp: offline_stop_check_def split: if_splits prod.splits)

lemma resume_suspend_decreases:
  assumes "dependencyOffline_resume hw c w fr = Some (Off_Suspend w' push fr', c')"
  shows "body_rest (GB_Offline cid w' fr') < body_rest (GB_Offline cid w fr)"
proof -
  have "w = Await_Online \<and> w' \<noteq> Await_Online \<and> fr' = fr \<or> length (of_rest fr') < length (of_rest fr)"
    using assms by (auto simp: dependencyOffline_resume_def
        dest: loop_suspend_shorter stop_check_wait split: offline_wait.splits if_splits offline_stage.splits prod.splits)
  then show ?thesis by auto
qed

lemma modify_absent: "k \<notin> fst ` set m \<Longrightarrow> dm_modify k f m = m"
  by (induction m) (auto simp: dm_modify_def)

lemma modify_Cons:
  "dm_modify k f ((j, v) # m) = (j, if j = k then f v else v) # dm_modify k f m"
  by (simp add: dm_modify_def)

lemma rest_sum_set_body:
  assumes "dm_ok (dm_generators st)" and "dm_find pid (dm_generators st) = Some g"
  shows "rest_sum (set_body pid b st) + body_rest (sg_body g) = rest_sum st + body_rest b"
proof -
  have "dm_ok m \<Longrightarrow> dm_find pid m = Some g \<Longrightarrow>
      sum_list (map (\<lambda>(pid, g). body_rest (sg_body g)) (dm_modify pid (\<lambda>g. g\<lparr>sg_body := b\<rparr>) m)) + body_rest (sg_body g) =
      sum_list (map (\<lambda>(pid, g). body_rest (sg_body g)) m) + body_rest b" for m
    by (induction m) (auto simp: modify_Cons modify_absent dm_find_def dm_ok_def)
  then show ?thesis using assms by (simp add: rest_sum_def set_body_def)
qed

definition shrinks :: "service_id \<Rightarrow> event_type \<Rightarrow> dm \<Rightarrow> dm \<Rightarrow> bool" where
  "shrinks sid t st st' \<longleftrightarrow> dm_ok (dm_generators st') \<and>
     (rest_sum st' < rest_sum st \<or> rest_sum st' = rest_sum st \<and> due_at sid t st' = due_at sid t st)"

lemma shrinks_trans: "shrinks sid t a b \<Longrightarrow> shrinks sid t b c \<Longrightarrow> shrinks sid t a c"
  by (auto simp: shrinks_def)

lemma quiet_shrinks: "dm_ok (dm_generators st) \<Longrightarrow> quiet_for sid t st st' \<Longrightarrow> shrinks sid t st st'"
  by (simp add: shrinks_def quiet_for_def rest_sum_def)

lemma put_frame [simp]:
  "dm_generators (put_mgr sid m st) = dm_generators st" "dm_depWaiters (put_mgr sid m st) = dm_depWaiters st"
  by (simp_all add: put_mgr_def)

lemma suspend_generators [simp]: "dm_generators (suspend_offline cid pid w push st) = dm_generators st"
  by (simp add: suspend_offline_def waitForService_def)

lemma rest_sum_cong: "dm_generators st = dm_generators st' \<Longrightarrow> rest_sum st = rest_sum st'"
  by (simp add: rest_sum_def)

lemma resume_offline_shrinks:
  assumes ok: "dm_ok (dm_generators st)" and run: "resume_offline pid st = Some st'"
  shows "shrinks sid t st st'"
  using run
proof (rule progress.resume_offline_cases)
  assume "st' = st"
  then show ?thesis using ok by (simp add: shrinks_def)
next
  fix g cid w fr c out c'
  assume g: "dm_find pid (dm_generators st) = Some g" "sg_body g = GB_Offline cid w fr"
    and "get_mgr st cid = Some c"
    and resume: "dependencyOffline_resume (hasDependencyWaiter cid T_Offline st) c w fr = Some (out, c')"
    and st': "st' = (case out of Off_Return sb \<Rightarrow> finish_start_generator pid g sb (put_mgr cid c' st)
              | Off_Suspend w' push fr' \<Rightarrow>
                  set_body pid (GB_Offline cid w' fr') (suspend_offline cid pid w' push (put_mgr cid c' st)))"
  have ok': "dm_ok (dm_generators (set_body pid b s))" if "dm_generators s = dm_generators st" for b s
    using that ok by (simp add: set_body_def dm_ok_modify)
  have sum: "rest_sum (set_body pid b s) + body_rest (sg_body g) = rest_sum st + body_rest b"
    if "dm_generators s = dm_generators st" for b s
    using that rest_sum_set_body [of s pid g b] rest_sum_cong [OF that] ok g by simp
  show ?thesis
  proof (cases out)
    case (Off_Return sb)
    have "due_at sid t st' = due_at sid t st"
      by (simp add: st' Off_Return due_at_def finish_start_generator_def set_body_def)
    then show ?thesis
      using sum [of "put_mgr cid c' st" "GB_DoneStart sb"] ok' [of "put_mgr cid c' st" "GB_DoneStart sb"]
        rest_sum_cong [of st' "set_body pid (GB_DoneStart sb) (put_mgr cid c' st)"]
      by (auto simp: st' Off_Return shrinks_def finish_start_generator_def)
  next
    case (Off_Suspend w' push fr')
    have "body_rest (GB_Offline cid w' fr') < body_rest (sg_body g)"
      using resume_suspend_decreases [OF resume [unfolded Off_Suspend]] g(2) by simp
    then show ?thesis
      using sum [of "suspend_offline cid pid w' push (put_mgr cid c' st)" "GB_Offline cid w' fr'"] ok'
      by (simp add: st' Off_Suspend shrinks_def del: body_rest.simps)
  qed
qed

lemma set_waiters_shrinks:
  assumes "t = T_Online \<or> t = T_Offline"
  shows "dm_ok (dm_generators st) \<Longrightarrow> set_waiters env ws st = Some st' \<Longrightarrow> shrinks sid t st st'"
proof (induction env ws st rule: set_waiters.induct)
  case (1 env st)
  then show ?case by (simp add: shrinks_def)
next
  case (2 env tok ws st)
  then obtain out st1 where run: "user env (U_Resume tok) st = Some (out, st1)" "set_waiters env ws st1 = Some st'"
    by (auto simp: bind_eq_Some_conv)
  have "shrinks sid t st st1" by (rule quiet_shrinks [OF "2.prems"(1) quiet_for_user [OF assms run(1)]])
  then show ?case using "2.IH" [OF run(1) refl] run(2) by (auto simp: shrinks_def)
next
  case (3 env pid ws st)
  then obtain st1 where run: "resume_offline pid st = Some st1" "set_waiters env ws st1 = Some st'"
    by (auto simp: bind_eq_Some_conv)
  then show ?case
    using resume_offline_shrinks [OF "3.prems"(1) run(1), of sid t] "3.IH" [OF run(1)] by (auto simp: shrinks_def)
qed

lemma finish_waiters_frame [simp]:
  "dm_generators (finish_waiters sid t ew st) = dm_generators st"
  by (simp add: finish_waiters_def)

lemma due_finish_waiters:
  "dm_find sid (dm_depWaiters st) = Some ew \<Longrightarrow> due_at sid t (finish_waiters sid t ew st) = []"
  by (auto simp: due_at_def finish_waiters_def dm_find_modify due_waiters_def kept_waiters_def filter_empty_conv)

text \<open>
  The rounds of the loop without a bound: \<open>waking env sid t st r\<close> holds when the loop, entered in \<open>st\<close>,
  comes to its end with the result \<open>r\<close>, where \<open>None\<close> is \<^verbatim>\<open>std::terminate\<close>.
\<close>

inductive waking :: "env \<Rightarrow> service_id \<Rightarrow> event_type \<Rightarrow> dm \<Rightarrow> dm option \<Rightarrow> bool" for env sid t where
  waking_gone: "dm_find sid (dm_depWaiters st) = None \<Longrightarrow> waking env sid t st None"
| waking_done: "dm_find sid (dm_depWaiters st) = Some ew \<Longrightarrow> due_waiters t ew = [] \<Longrightarrow>
    st1 = finish_waiters sid t ew st \<Longrightarrow>
    waking env sid t st
      (Some (if kept_waiters t ew = [] then st1\<lparr>dm_depWaiters := dm_erase sid (dm_depWaiters st1)\<rparr> else st1))"
| waking_abort: "dm_find sid (dm_depWaiters st) = Some ew \<Longrightarrow> due_waiters t ew \<noteq> [] \<Longrightarrow>
    set_waiters env (due_waiters t ew) (finish_waiters sid t ew st) = None \<Longrightarrow> waking env sid t st None"
| waking_round: "dm_find sid (dm_depWaiters st) = Some ew \<Longrightarrow> due_waiters t ew \<noteq> [] \<Longrightarrow>
    set_waiters env (due_waiters t ew) (finish_waiters sid t ew st) = Some st2 \<Longrightarrow>
    waking env sid t st2 r \<Longrightarrow> waking env sid t st r"

lemma waking_settled:
  assumes "due_at sid t st = []"
  shows "waking env sid t st (finishWaitingService_loop (Suc n) env sid t st)"
proof (cases "dm_find sid (dm_depWaiters st)")
  case (Some ew)
  then have "due_waiters t ew = []" using assms by (simp add: due_at_def)
  with waking_done [OF Some this refl] Some show ?thesis by (simp add: Let_def)
qed (simp add: waking_gone)

lemma waking_fuel:
  assumes t: "t = T_Online \<or> t = T_Offline"
  shows "dm_ok (dm_generators st) \<Longrightarrow> rest_sum st < n \<Longrightarrow>
    waking env sid t st (finishWaitingService_loop (Suc n) env sid t st)"
proof (induction n arbitrary: st)
  case (Suc n)
  show ?case
  proof (cases "due_at sid t st = []")
    case False
    then obtain ew where ew: "dm_find sid (dm_depWaiters st) = Some ew" "due_waiters t ew \<noteq> []"
      by (auto simp: due_at_def split: option.splits)
    let ?st1 = "finish_waiters sid t ew st"
    show ?thesis
    proof (cases "set_waiters env (due_waiters t ew) ?st1")
      case None
      with waking_abort [OF ew] ew show ?thesis by (simp add: Let_def)
    next
      case (Some st2)
      have "shrinks sid t ?st1 st2" using set_waiters_shrinks [OF t _ Some] Suc.prems(1) by simp
      then consider "due_at sid t st2 = []" | "rest_sum st2 < n" "dm_ok (dm_generators st2)"
        using due_finish_waiters [OF ew(1), of t] rest_sum_cong [of ?st1 st] Suc.prems(2)
        unfolding shrinks_def by fastforce
      then have "waking env sid t st2 (finishWaitingService_loop (Suc n) env sid t st2)"
        by cases (rule waking_settled, assumption, rule Suc.IH)
      from waking_round [OF ew Some this] show ?thesis using ew Some by (simp add: Let_def)
    qed
  qed (rule waking_settled)
qed simp

lemma waking_unique: "waking env sid t st r \<Longrightarrow> waking env sid t st r' \<Longrightarrow> r' = r"
proof (induction arbitrary: r' rule: waking.induct)
  case (waking_gone st)
  from waking_gone.prems waking_gone.hyps show ?case by (cases rule: waking.cases) simp_all
next
  case (waking_done st ew st1)
  from waking_done.prems waking_done.hyps show ?case by (cases rule: waking.cases) simp_all
next
  case (waking_abort st ew)
  from waking_abort.prems waking_abort.hyps show ?case by (cases rule: waking.cases) simp_all
next
  case (waking_round st ew st2 r)
  from waking_round.prems waking_round.hyps show ?case
    by (cases rule: waking.cases) (simp_all add: waking_round.IH)
qed

text \<open>
  C5. Waking the waiters of a service ends. When a service has come online or gone offline, the
  coroutines that waited for it are resumed, and each may go on to wait for the same service again.
  Whatever the resumed code of the services does, the loop comes to its end after finitely many rounds,
  with exactly one result, and the fuel of its model, computed from the suspended coroutines, is enough
  to reach it.
\<close>

theorem finishWaitingService_terminates:
  assumes "dm_ok (dm_generators st)" and "t = T_Online \<or> t = T_Offline" and "wait_fuel st \<le> n"
  shows "waking env sid t st r \<longleftrightarrow> r = finishWaitingService_loop n env sid t st"
proof -
  obtain m where "n = Suc m" "rest_sum st < m" using assms(3) by (cases n) (auto simp: wait_fuel_sum)
  then have "waking env sid t st (finishWaitingService_loop n env sid t st)"
    using waking_fuel [OF assms(2,1)] by blast
  then show ?thesis using waking_unique by blast
qed

theorem finishWaitingService_terminates_witness:
  "\<exists>st. due_at 2 T_Online st = [W_External 5] \<and> wait_fuel st \<le> 9 \<and>
     waking quiet_env 2 T_Online st (finishWaitingService_loop 9 quiet_env 2 T_Online st) \<and>
     finishWaitingService_loop 9 quiet_env 2 T_Online st = Some (new_manager 7 1)"
proof -
  let ?st = "waitForService 2 T_Online (W_External 5) (new_manager 7 1)"
  have ok: "dm_ok (dm_generators ?st)" and fuel: "wait_fuel ?st \<le> 9"
    by (simp_all add: waitForService_def new_manager_def wait_fuel_def)
  have due: "due_at 2 T_Online ?st = [W_External 5]"
    by (simp add: due_wait) (simp add: due_at_def new_manager_def dm_find_def)
  have "finishWaitingService_loop 9 quiet_env 2 T_Online ?st = Some (new_manager 7 1)"
    by (simp add: eval_nat_numeral waitForService_def due_waiters_def kept_waiters_def finish_waiters_def new_manager_def
        container_eval)
  then show ?thesis
    using finishWaitingService_terminates [OF ok _ fuel, of T_Online quiet_env 2] due fuel by auto
qed

section \<open>Waiting for a start or a stop\<close>

text \<open>
  The waiters that \<^verbatim>\<open>waitForServiceStarted\<close> and \<^verbatim>\<open>waitForServiceStopped\<close> register stay: no handler
  resumes them.
\<close>

definition still_waiting :: "dm \<Rightarrow> dm \<Rightarrow> bool" where
  "still_waiting st st' \<longleftrightarrow> (dm_ok (dm_depWaiters st) \<longrightarrow> dm_ok (dm_depWaiters st') \<and>
     (\<forall>sid t. t = T_Start \<or> t = T_Stop \<longrightarrow> set (due_at sid t st) \<subseteq> set (due_at sid t st')))"

lemma still_frame: "dm_depWaiters st' = dm_depWaiters st \<Longrightarrow> still_waiting st st'"
  by (simp add: still_waiting_def due_at_def)

lemma still_wait: "still_waiting st (waitForService sid t w st)"
  by (auto simp: still_waiting_def due_wait) (simp add: waitForService_def dense_intros)

lemma still_finish:
  assumes "t = T_Online \<or> t = T_Offline" and "dm_find sid (dm_depWaiters st) = Some ew"
  shows "still_waiting st (finish_waiters sid t ew st)"
  using assms
  by (auto simp: still_waiting_def finish_waiters_def due_at_def dm_find_modify dm_ok_modify due_waiters_def kept_waiters_def
      split: option.splits)

lemma still_drop:
  assumes "dm_find sid (dm_depWaiters st) = Some ew" and "ew_events ew = []"
  shows "still_waiting st (st\<lparr>dm_depWaiters := dm_erase sid (dm_depWaiters st)\<rparr>)"
  using assms by (auto simp: still_waiting_def due_at_def dm_find_erase dm_ok_erase due_waiters_def)

lemma detach_frame [simp]: "dm_depWaiters (detach sid deps st) = dm_depWaiters st"
  unfolding detach_def Let_def by (subst fold_erase_dependee_frame) simp

interpretation still: handler_relation still_waiting
proof
  show "still_waiting a b \<Longrightarrow> still_waiting b c \<Longrightarrow> still_waiting a c" for a b c
    unfolding still_waiting_def by blast
qed (auto simp: setServicePriority_def put_pair_def intro: still_frame still_wait still_finish still_drop)

lemma still_run_events:
  "run_events env iservice es st = Some st' \<Longrightarrow> list_all admissible es \<Longrightarrow> still_waiting st st'"
  by (induction es arbitrary: st)
    (auto simp: bind_eq_Some_conv intro: still.R_refl still.R_trans still.R_processEvent)

lemma waiter_blocks_stop:
  assumes "w \<in> set (due_at sid t st)" and "get_mgr st sid = Some m" and "m_state m \<noteq> UNINJECTING"
  shows "handle_stop env evt sid r st = Some st"
proof -
  have "dm_contains sid (dm_depWaiters st)"
    using assms(1) dm_find_None_iff [of sid "dm_depWaiters st"] by (auto simp: due_at_def split: option.splits)
  then show ?thesis using assms(2,3) by (simp add: handle_stop_def)
qed

text \<open>
  C21. A coroutine that waits for a service to be started waits forever, and it keeps the service from
  being stopped. Once \<^verbatim>\<open>waitForServiceStarted\<close> has suspended, no sequence of events resumes the
  coroutine, although the service may become active meanwhile; and as long as it waits, a request to
  stop the service is dropped in every state but the one where its dependees have just left.
\<close>

theorem waitForServiceStarted_never_returns:
  assumes "waitForServiceStarted sid tok st = Some (Wait_Suspended, st1)" and "dm_ok (dm_depWaiters st)"
    and "list_all admissible es" and "run_events env iservice es st1 = Some st2"
  shows "W_External tok \<in> set (due_at sid T_Start st2) \<and>
    (\<forall>m evt r. get_mgr st2 sid = Some m \<longrightarrow> m_state m \<noteq> UNINJECTING \<longrightarrow> handle_stop env evt sid r st2 = Some st2)"
proof -
  have st1: "st1 = waitForService sid T_Start (W_External tok) st"
    using assms(1) by (auto simp: waitForServiceStarted_def split: option.splits if_splits)
  then have "dm_ok (dm_depWaiters st1)"
    using assms(2) still_wait [of st sid T_Start "W_External tok"] by (simp add: still_waiting_def)
  then have "set (due_at sid T_Start st1) \<subseteq> set (due_at sid T_Start st2)"
    using still_run_events [OF assms(4,3)] by (simp add: still_waiting_def)
  then have "W_External tok \<in> set (due_at sid T_Start st2)" by (simp add: st1 due_wait)
  then show ?thesis using waiter_blocks_stop by blast
qed

theorem waitForServiceStarted_never_returns_witness:
  "\<exists>st st1 st2 m. waitForServiceStarted 2 5 st = Some (Wait_Suspended, st1) \<and>
     run_events quiet_env 99 [ex_event (StartServiceEvent 2), ex_event DependencyOnlineEvent] st1 = Some st2 \<and>
     get_mgr st2 2 = Some m \<and> m_state m = ACTIVE \<and> W_External 5 \<in> set (due_at 2 T_Start st2) \<and>
     handle_stop quiet_env (ex_event (StopServiceEvent 2 True)) 2 True st2 = Some st2"
proof -
  let ?es = "[ex_event (StartServiceEvent 2), ex_event DependencyOnlineEvent]"
  let ?st = "(new_manager 7 1)\<lparr>dm_services := [(2, ex_plain)]\<rparr>"
  let ?st1 = "waitForService 2 T_Start (W_External 5) ?st"
  have wait: "waitForServiceStarted 2 5 ?st = Some (Wait_Suspended, ?st1)" and ok: "dm_ok (dm_depWaiters ?st)"
    and adm: "list_all admissible ?es"
    by (simp_all add: waitForServiceStarted_def ex_plain_def container_eval manager_eval admissible_def ex_event_def)
  have "\<exists>st2. run_events quiet_env 99 ?es ?st1 = Some st2 \<and> map_option m_state (get_mgr st2 2) = Some ACTIVE"
    by (simp add: ex_event_def ex_plain_def event_eval handler_eval manager_eval container_eval waitForService_def
        wait_fuel_def due_waiters_def kept_waiters_def finish_waiters_def)
  then obtain st2 m where run: "run_events quiet_env 99 ?es ?st1 = Some st2" "get_mgr st2 2 = Some m" "m_state m = ACTIVE"
    by auto
  from waitForServiceStarted_never_returns [OF wait ok adm run(1)] wait run show ?thesis by fastforce
qed

text \<open>
  \<^verbatim>\<open>waitForServiceStopped\<close> answers the wrong question: while the service is active it returns at
  once as if the service had stopped, and once the service has stopped it suspends.
\<close>

theorem waitForServiceStopped_inverted:
  assumes "get_mgr st sid = Some m" and "\<not> dm_quitEventReceived st"
  shows "(m_state m = ACTIVE \<longrightarrow> waitForServiceStopped sid tok st = Some (Wait_Ready, st)) \<and>
    (m_state m = INSTALLED \<longrightarrow>
       (\<exists>st'. waitForServiceStopped sid tok st = Some (Wait_Suspended, st') \<and> W_External tok \<in> set (due_at sid T_Stop st')))"
  using assms by (simp add: waitForServiceStopped_def due_wait)

theorem waitForServiceStopped_inverted_witness:
  "waitForServiceStopped 1 5 (new_manager 7 1) = Some (Wait_Ready, new_manager 7 1)"
  using waitForServiceStopped_inverted [of "new_manager 7 1" 1 "new_internal_manager 1 7" 5]
  by (simp add: container_eval manager_eval)

end
