(* ===== verification/Manager_Properties.thy ===== *)
theory Manager_Properties
  imports Waiting_Services
begin

text \<open>
  The properties of the dependency manager: what holds of every state it can reach, what every event
  keeps, and what the handlers do to a service.
\<close>

section \<open>Every reachable state\<close>

text \<open>
  C1. No service is destroyed while another one has it injected. In every state the dependency manager
  can reach, by any events in any order and whatever the code of the services does, each service that
  a consumer has injected is still known to the manager, and it counts the consumer among its
  dependees. (The pseudo service that stands for the consumer itself is not meant.)
\<close>

theorem injected_services_stay_alive:
  assumes "reachable env iservice st" and "get_mgr st cid = Some c"
    and "p \<in> set (m_injected c)" and "p \<noteq> SELF_SERVICE_ID"
  shows "\<exists>q. get_mgr st p = Some q \<and> m_id q = p \<and> cid \<in> set (m_dependees q)"
proof -
  note safe = safe_ok [OF reachable_safe [OF assms(1)]]
  obtain q where "get_mgr st p = Some q" "cid \<in> set (m_dependees q)"
    using safe [OF assms(2)] assms(3,4) unfolding manager_ok_def by blast
  then show ?thesis using safe [of p q] unfolding manager_ok_def by blast
qed

theorem injected_services_stay_alive_witness:
  "\<exists>st c q. reachable quiet_env 99 st \<and> get_mgr st 2 = Some c \<and> 1 \<in> set (m_injected c) \<and>
     get_mgr st 1 = Some q \<and> m_id q = 1 \<and> 2 \<in> set (m_dependees q)"
proof -
  obtain st c p where run: "processEvent quiet_env 99 ex_insert (new_manager 7 1) = Some st"
    "get_mgr st 2 = Some c" "m_injected c = [1]"
    by (rule ex_insert_run)
  have reach: "reachable quiet_env 99 st" by (rule reach_event [OF reach_init ex_admissible run(1)])
  have "\<exists>q. get_mgr st 1 = Some q \<and> m_id q = 1 \<and> 2 \<in> set (m_dependees q)"
    by (rule injected_services_stay_alive [OF reach run(2)]) (simp_all add: run SELF_SERVICE_ID_def)
  then show ?thesis using reach run by auto
qed



text \<open>
  C17. Event ids are never reused. Processing an event only appends to the queue; the new events carry
  strictly increasing ids, all taken from the part of the counter this event consumed, so they differ
  from every id given out before. The counters never go back, and a quit request is never forgotten.
\<close>

theorem processEvent_fresh_event_ids:
  assumes "processEvent env iservice evt st = Some st'" and "admissible evt"
  shows "(\<exists>new. dm_pushed st' = dm_pushed st @ new \<and> sorted_wrt (<) (map ev_id new) \<and>
            (\<forall>e \<in> set new. dm_eventCounter st \<le> ev_id e \<and> ev_id e < dm_eventCounter st')) \<and>
    dm_eventCounter st \<le> dm_eventCounter st' \<and> dm_promiseCounter st \<le> dm_promiseCounter st' \<and>
    dm_serviceCounter st \<le> dm_serviceCounter st' \<and> (dm_quitEventReceived st \<longrightarrow> dm_quitEventReceived st')"
  using progress.R_processEvent [OF assms] unfolding progress_def by blast

theorem processEvent_fresh_event_ids_witness:
  "\<exists>st' new. processEvent quiet_env 99 ex_insert (new_manager 7 1) = Some st' \<and> dm_pushed st' = new \<and> new \<noteq> [] \<and>
     (\<forall>e \<in> set new. ev_id e < dm_eventCounter st')"
proof -
  obtain st' c p where run: "processEvent quiet_env 99 ex_insert (new_manager 7 1) = Some st'"
    "map ev_payload (dm_pushed st') = [DependencyOnlineEvent]"
    by (rule ex_insert_run)
  have "dm_pushed (new_manager 7 1) = []" by (simp add: new_manager_def)
  with processEvent_fresh_event_ids [OF run(1) ex_admissible] run show ?thesis by auto
qed

section \<open>Interceptors\<close>

lemma pre_intercept_False: "pre_intercept env evt is False st = Some (b, st') \<Longrightarrow> \<not> b"
  by (induction "is" arbitrary: st) (auto simp: bind_eq_Some_conv)

lemma pre_intercept_veto:
  assumes "i \<in> set is" and "\<And>s. fst (env (U_PreIntercept (ic_id i) evt) s) = O_Finished False"
  shows "pre_intercept env evt is allow st = Some (b, st') \<Longrightarrow> \<not> b"
  using assms(1)
proof (induction "is" arbitrary: allow st)
  case (Cons j js)
  then obtain out st1 where run: "user env (U_PreIntercept (ic_id j) evt) st = Some (out, st1)"
    "pre_intercept env evt js (allow \<and> out \<noteq> O_Finished False) st1 = Some (b, st')"
    by (auto simp: bind_eq_Some_conv)
  show ?case
  proof (cases "i = j")
    case True
    then have "out = O_Finished False" using run(1) assms(2) [of st] by (auto simp: user_def split: prod.splits)
    then show ?thesis using run(2) pre_intercept_False by simp
  qed (use Cons run in auto)
qed simp

text \<open>What only the handlers change: whether the manager is quitting, and the stops it has postponed.\<close>

definition handlers_idle :: "dm \<Rightarrow> dm \<Rightarrow> bool" where
  "handlers_idle st st' \<longleftrightarrow> same_services st st' \<and>
     dm_quitEventReceived st' = dm_quitEventReceived st \<and> dm_quitDone st' = dm_quitDone st \<and>
     dm_pendingCoroutine st' = dm_pendingCoroutine st \<and> dm_pendingDeps st' = dm_pendingDeps st"

interpretation idle: user_relation handlers_idle
proof
  show "handlers_idle a b \<Longrightarrow> handlers_idle b c \<Longrightarrow> handlers_idle a c" for a b c
    using calls.R_trans [of a b c] by (simp add: handlers_idle_def)
  show "handlers_idle st (setServicePriority sid prio st)" for st sid prio
    using calls.R_priority by (simp add: handlers_idle_def setServicePriority_def)
qed (simp_all add: handlers_idle_def same_services_def get_mgr_def push_event_def waitForService_def)

text \<open>
  C18. An interceptor can veto an event. When an interceptor of all events refuses an event, the handler
  of the event does not run: the services are those from before, each unchanged but for a priority
  that service code may have set, the manager is quitting only if it was, and no stop is postponed.
  What else changed was done by code of the services (the interceptors, and the coroutines that
  awaited the event).
\<close>

theorem interceptor_veto:
  assumes "processEvent env iservice evt st = Some st'" and "i \<in> set (interceptors_for T_All st)"
    and veto: "\<And>s. fst (env (U_PreIntercept (ic_id i) evt) s) = O_Finished False"
  shows "(\<forall>sid. map_option unprioritised (get_mgr st' sid) = map_option unprioritised (get_mgr st sid)) \<and>
    dm_quitEventReceived st' = dm_quitEventReceived st \<and> dm_quitDone st' = dm_quitDone st \<and>
    dm_pendingCoroutine st' = dm_pendingCoroutine st \<and> dm_pendingDeps st' = dm_pendingDeps st"
proof (cases "dm_quitDone st \<or> get_type evt = T_All")
  case True
  then show ?thesis using assms(1) by (auto simp: processEvent_def split: if_splits)
next
  case False
  from assms(1) False obtain own allow1 st1 allow st2 st3 st4 st5 st6 b where
    s: "pre_intercept env evt (interceptors_for T_All st) True st = Some (allow1, st1)"
      "pre_intercept env evt own allow1 st1 = Some (allow, st2)"
      "(if allow then dispatch env iservice evt st3 else Some st3) = Some st4"
      "post_intercept env evt b (dm_allCopy st4) st4 = Some st5"
      "post_intercept env evt b (dm_evtCopy st4) st5 = Some st6"
      "(if dm_moved st6 then Some st6 else handleEventCompletion env evt st6) = Some st'"
    and st3: "st3 = st2\<lparr>dm_allCopy := interceptors_for T_All st, dm_evtCopy := own, dm_moved := False, dm_handlers := 1\<rparr>"
    by (rule processEvent_phases)
  have "\<not> allow1" by (rule pre_intercept_veto [OF assms(2) veto s(1)])
  then have st4: "st4 = st3" using pre_intercept_False [of env evt own st1 allow st2] s(2,3) by simp
  have "handlers_idle st st2" by (rule idle.R_trans [OF idle.R_pre_intercept [OF s(1)] idle.R_pre_intercept [OF s(2)]])
  also have "handlers_idle st2 st3"
    using idle.R_trans [OF idle.R_copies [of st2] idle.R_locals] by (simp add: st3)
  also (idle.R_trans) have "handlers_idle st3 st6"
    by (rule idle.R_trans [OF idle.R_post_intercept [OF s(4) [unfolded st4]] idle.R_post_intercept [OF s(5)]])
  also (idle.R_trans) have "handlers_idle st6 st'"
    using s(6) idle.R_refl idle.R_handleEventCompletion by (auto split: if_splits)
  finally (idle.R_trans) show ?thesis by (simp add: handlers_idle_def same_services_def)
qed

definition veto_env :: env where
  "veto_env = (\<lambda>c st. (case c of U_PreIntercept i e \<Rightarrow> (O_Finished False, []) | _ \<Rightarrow> (O_Finished True, [])))"

theorem interceptor_veto_witness:
  "\<exists>st'. processEvent veto_env 99 (ex_event QuitEvent) (registerEventInterceptor 2 T_All (new_manager 7 1)) = Some st' \<and>
     \<not> dm_quitEventReceived st'"
proof -
  let ?st = "registerEventInterceptor 2 T_All (new_manager 7 1)" let ?i = "\<lparr>ic_id = 1, ic_service = 2\<rparr>"
  have u: "user veto_env (U_PreIntercept i e) s = Some (O_Finished False, s)"
    "user veto_env (U_PostIntercept i e b) s = Some (O_Finished True, s)" for i e b s
    by (simp_all add: user_def veto_env_def)
  have "\<exists>st'. processEvent veto_env 99 (ex_event QuitEvent) ?st = Some st'"
    by (simp add: event_eval registerEventInterceptor_def container_eval manager_eval ex_event_def u Let_def)
  then obtain st' where run: "processEvent veto_env 99 (ex_event QuitEvent) ?st = Some st'" ..
  have "?i \<in> set (interceptors_for T_All ?st)" "\<not> dm_quitEventReceived ?st"
    by (simp_all add: interceptors_for_def registerEventInterceptor_def container_eval manager_eval)
  with interceptor_veto [OF run, of ?i] run show ?thesis by (simp add: veto_env_def)
qed

section \<open>Quitting\<close>

lemma push_stops_pushed:
  "map (\<lambda>e. (ev_payload e, ev_priority e)) (dm_pushed (push_stops orig prio sids st)) =
   map (\<lambda>e. (ev_payload e, ev_priority e)) (dm_pushed st) @ map (\<lambda>sid. (StopServiceEvent sid True, prio)) sids"
  by (induction orig prio sids st rule: push_stops.induct) (simp_all add: push_event_def)

lemma quit_services_keep: "set (dm_pushed st) \<subseteq> set (dm_pushed (fold (quit_service evt) ms st))"
  using progress.R_quit_services [of st evt ms] unfolding progress_def by auto

lemma quit_services_stop:
  assumes "(sid, m) \<in> set ms" and "m_state m = ACTIVE" and "\<not> isInternalManager m" and "s \<in> insert (m_id m) (set (m_dependees m))"
  shows "\<exists>e \<in> set (dm_pushed (fold (quit_service evt) ms st)). ev_payload e = StopServiceEvent s True \<and>
    ev_priority e = max (m_priority m) INTERNAL_DEPENDENCY_EVENT_PRIORITY"
  using assms(1)
proof (induction ms arbitrary: st)
  case (Cons x ms)
  show ?case
  proof (cases "x = (sid, m)")
    case True
    have "\<exists>e \<in> set (dm_pushed (quit_service evt x st)). ev_payload e = StopServiceEvent s True \<and>
        ev_priority e = max (m_priority m) INTERNAL_DEPENDENCY_EVENT_PRIORITY"
    proof -
      let ?st = "quit_service evt x st"
      have "(StopServiceEvent s True, max (m_priority m) INTERNAL_DEPENDENCY_EVENT_PRIORITY) \<in>
          set (map (\<lambda>e. (ev_payload e, ev_priority e)) (dm_pushed ?st))"
        using assms(2-4) by (simp add: True quit_service_def push_stops_pushed) blast
      then show ?thesis by fastforce
    qed
    then show ?thesis using quit_services_keep [of "quit_service evt x st" evt ms] by auto
  qed (use Cons in auto)
qed simp

text \<open>
  C19. Quitting asks every running service to stop. When a quit event is handled, a stop event is queued
  for every active service that is not part of the framework and for each of its dependees, with
  removal, and at a priority no higher than that of the internal events; from then on the manager is
  quitting.
\<close>

theorem quit_stops_every_service:
  assumes "handle_quit evt st = Some st'" and "(sid, m) \<in> set (dm_services st)" and "m_state m = ACTIVE"
    and "\<not> isInternalManager m"
  shows "dm_quitEventReceived st' \<and> (\<forall>s \<in> insert (m_id m) (set (m_dependees m)). \<exists>e \<in> set (dm_pushed st').
    ev_payload e = StopServiceEvent s True \<and> ev_priority e = max (m_priority m) INTERNAL_DEPENDENCY_EVENT_PRIORITY)"
proof -
  let ?st1 = "st\<lparr>dm_quitEventReceived := True\<rparr>"
  let ?st2 = "fold (quit_service evt) (dm_services st) ?st1"
  have "checkIfCanQuit ?st2 = Some st'" using assms(1) by (simp add: handle_quit_def Let_def)
  then have "progress ?st2 st'" and "dm_pushed st' = dm_pushed ?st2"
    using progress.R_checkIfCanQuit by (auto simp: checkIfCanQuit_def split: if_splits)
  moreover have "progress ?st1 ?st2" by (rule progress.R_quit_services)
  ultimately show ?thesis
    using quit_services_stop [OF assms(2-4), of _ evt ?st1] by (simp add: progress_def)
qed

theorem quit_stops_every_service_witness:
  "\<exists>st st'. handle_quit (ex_event QuitEvent) st = Some st' \<and>
     (\<exists>e \<in> set (dm_pushed st'). ev_payload e = StopServiceEvent 2 True)"
proof -
  let ?m = "ex_plain\<lparr>m_state := ACTIVE\<rparr>" let ?st = "(new_manager 7 1)\<lparr>dm_services := [(2, ?m)]\<rparr>"
  have "\<exists>st'. handle_quit (ex_event QuitEvent) ?st = Some st'"
    by (simp add: handle_quit_def checkIfCanQuit_def quit_service_def container_eval manager_eval example_eval allServicesStopped_def Let_def)
  then obtain st' where run: "handle_quit (ex_event QuitEvent) ?st = Some st'" ..
  have m: "(2, ?m) \<in> set (dm_services ?st)" "m_state ?m = ACTIVE" "\<not> isInternalManager ?m" "m_id ?m = 2"
    by (simp_all add: manager_eval example_eval)
  from quit_stops_every_service [OF run m(1-3)] m(4) run show ?thesis by auto
qed

section \<open>From creation to being active\<close>

definition undisturbed :: "dm \<Rightarrow> bool" where
  "undisturbed st \<longleftrightarrow> dm_interceptors st = [] \<and> \<not> dm_quitDone st \<and> \<not> dm_quitEventReceived st"

text \<open>With no interceptors and nobody awaiting the event, an event is just handled.\<close>

lemma processEvent_plain:
  assumes "undisturbed st" and "payload_type (ev_payload evt) \<noteq> T_All"
    and "dispatch env iservice evt (st\<lparr>dm_allCopy := [], dm_evtCopy := [], dm_moved := False, dm_handlers := 1\<rparr>) = Some st'"
    and "dm_allCopy st' = []" and "dm_evtCopy st' = []" and "dm_find (ev_id evt) (dm_eventWaiters st') = None"
  shows "processEvent env iservice evt st = Some st'"
  using assms by (simp add: undisturbed_def processEvent_def get_type_def interceptors_for_def dm_find_def Let_def
      dm_contains_def handleEventCompletion_def)

lemma handle_insert_plain:
  assumes "m_kind m = Plain_Manager" and "\<not> dm_contains (ev_origin evt) (dm_services st)"
  shows "\<exists>S. handle_insert env iservice evt m st = Some (st\<lparr>dm_services := S\<rparr>) \<and> dm_find (ev_origin evt) S = Some m"
  using assms
  by (intro exI [of _ "dm_modify (ev_origin evt) (\<lambda>_. m) (dm_emplace (ev_origin evt) m (dm_services st))"])
    (simp add: handle_insert_def Let_def dependencyOnline_def getDependencyRegistry_def get_mgr_def put_mgr_def dense_simps)

lemma handle_start_plain:
  assumes "get_mgr st sid = Some m" and "m_kind m = Plain_Manager" and "m_state m = INSTALLED"
    and "\<And>s. env (U_Start sid) s = (O_Finished True, [])" and "\<not> dm_quitEventReceived st"
  shows "\<exists>S. handle_start env evt sid st = Some (push_event sid
      (min INTERNAL_DEPENDENCY_EVENT_PRIORITY (ev_priority evt)) DependencyOnlineEvent
      (st\<lparr>dm_services := S, dm_promiseCounter := dm_promiseCounter st + 1\<rparr>)) \<and>
    dm_find sid S = Some (m\<lparr>m_state := INJECTING\<rparr>)"
  using assms
  by (intro exI [of _ "dm_modify sid (\<lambda>_. m\<lparr>m_state := INJECTING\<rparr>) (dm_modify sid (\<lambda>_. m\<lparr>m_state := STARTING\<rparr>) (dm_services st))"])
    (simp add: handle_start_def start_enter_def internal_start_enter_def internal_start_exit_def next_promise_def
      user_def stop_if_quitting_def put_mgr_def get_mgr_def dm_find_modify push_event_def)

lemma handle_online_plain:
  assumes "get_mgr st (ev_origin evt) = Some m" and "m_state m = INJECTING" and "m_interfaces m = []"
    and "dm_find (ev_origin evt) (dm_depWaiters st) = None" and "\<not> dm_quitEventReceived st"
  shows "\<exists>S. handle_online env evt st = Some (st\<lparr>dm_services := S\<rparr>) \<and> dm_find (ev_origin evt) S = Some (m\<lparr>m_state := ACTIVE\<rparr>)"
  using assms
  by (intro exI [of _ "dm_modify (ev_origin evt) (\<lambda>_. m\<lparr>m_state := ACTIVE\<rparr>) (dm_services st)"])
    (simp add: handle_online_def setInjected_def finishWaitingService_def stop_if_quitting_def put_mgr_def get_mgr_def dm_find_modify)



section \<open>Stops that are lost, dependencies that stay behind\<close>

text \<open>
  The start of the service 2 suspends, everything else finishes at once.
\<close>

definition slow_start_env :: env where
  "slow_start_env = (\<lambda>c st. (if c = U_Start 2 then O_Suspended else O_Finished True, []))"

lemma slow_user [simp]:
  "user slow_start_env c st = Some (if c = U_Start 2 then O_Suspended else O_Finished True, st)"
  by (simp add: user_def slow_start_env_def)

definition requests_stop :: "service_id \<Rightarrow> event \<Rightarrow> bool" where
  "requests_stop sid e = (case ev_payload e of StopServiceEvent s r \<Rightarrow> s = sid | DependencyOfflineEvent r \<Rightarrow> ev_origin e = sid | _ \<Rightarrow> False)"



end
