(* ===== verification/Sectional_Priority_Queue.thy ===== *)
theory Sectional_Priority_Queue
  imports Ichor_Prelude
begin

text \<open>
  The vector heap of \<^verbatim>\<open>src/include/ichor/stl/SectionalPriorityQueue.h\<close>. The comparator is a parameter, as
  in the source; \<^verbatim>\<open>std::push_heap\<close> and \<^verbatim>\<open>std::pop_heap\<close> are written out as sift-up and sift-down
  over the array layout. The C++ standard leaves the order of equivalent elements open, so every
  lemma only states what the standard promises. The heap lemmas live in a locale over a strict weak
  order and deliver the contract of a priority queue.
\<close>

section \<open>The heap in a vector\<close>

definition parent :: "nat \<Rightarrow> nat" where
  "parent i = (i - 1) div 2"

definition swap_at :: "'a list \<Rightarrow> nat \<Rightarrow> nat \<Rightarrow> 'a list" where
  "swap_at xs i j = xs[i := xs ! j, j := xs ! i]"

lemma parent_less [simp]: "0 < i \<Longrightarrow> parent i < i"
  by (simp add: parent_def)

fun sift_up :: "('a \<Rightarrow> 'a \<Rightarrow> bool) \<Rightarrow> 'a list \<Rightarrow> nat \<Rightarrow> 'a list" where
  "sift_up cmp xs i =
     (if 0 < i \<and> cmp (xs ! parent i) (xs ! i) then sift_up cmp (swap_at xs (parent i) i) (parent i)
      else xs)"

declare sift_up.simps [simp del]

definition larger_child :: "('a \<Rightarrow> 'a \<Rightarrow> bool) \<Rightarrow> 'a list \<Rightarrow> nat \<Rightarrow> nat \<Rightarrow> nat" where
  "larger_child cmp xs n i =
     (if 2 * i + 2 < n \<and> cmp (xs ! (2 * i + 1)) (xs ! (2 * i + 2)) then 2 * i + 2 else 2 * i + 1)"

function sift_down :: "('a \<Rightarrow> 'a \<Rightarrow> bool) \<Rightarrow> nat \<Rightarrow> 'a list \<Rightarrow> nat \<Rightarrow> 'a list" where
  "sift_down cmp n xs i =
     (if 2 * i + 1 < n \<and> cmp (xs ! i) (xs ! larger_child cmp xs n i)
      then sift_down cmp n (swap_at xs i (larger_child cmp xs n i)) (larger_child cmp xs n i)
      else xs)"
  by pat_completeness auto
termination
  by (relation "measure (\<lambda>(cmp, n, xs, i). n - i)") (auto simp: larger_child_def)

declare sift_down.simps [simp del]

definition spq_empty :: "'a list \<Rightarrow> bool" where
  "spq_empty c = (c = [])"

definition spq_size :: "'a list \<Rightarrow> nat" where
  "spq_size c = length c"

definition spq_push :: "('a \<Rightarrow> 'a \<Rightarrow> bool) \<Rightarrow> 'a \<Rightarrow> 'a list \<Rightarrow> 'a list" where
  "spq_push cmp t c = (let c' = c @ [t] in sift_up cmp c' (length c' - 1))"

definition pop_heap :: "('a \<Rightarrow> 'a \<Rightarrow> bool) \<Rightarrow> 'a list \<Rightarrow> 'a list" where
  "pop_heap cmp c = (let n = length c - 1 in sift_down cmp n (swap_at c 0 n) 0)"

definition spq_pop :: "('a \<Rightarrow> 'a \<Rightarrow> bool) \<Rightarrow> 'a list \<Rightarrow> ('a \<times> 'a list) option" where
  "spq_pop cmp c =
     (if c = [] then None else let c' = pop_heap cmp c in Some (last c', butlast c'))"

definition heap_upto :: "('a \<Rightarrow> 'a \<Rightarrow> bool) \<Rightarrow> nat \<Rightarrow> 'a list \<Rightarrow> bool" where
  "heap_upto cmp n xs = (\<forall>i \<in> {0<..<n}. \<not> cmp (xs ! parent i) (xs ! i))"

definition is_heap :: "('a \<Rightarrow> 'a \<Rightarrow> bool) \<Rightarrow> 'a list \<Rightarrow> bool" where
  "is_heap cmp xs = heap_upto cmp (length xs) xs"

section \<open>Generic facts\<close>

lemma parent_eq_iff: "0 < j \<Longrightarrow> parent j = i \<longleftrightarrow> j = 2 * i + 1 \<or> j = 2 * i + 2"
  by (auto simp: parent_def)

lemma parent_bound: "0 < j \<Longrightarrow> j < n \<Longrightarrow> parent j < n"
  by (meson less_trans parent_less)

lemma length_swap_at [simp]: "length (swap_at xs i j) = length xs"
  by (simp add: swap_at_def)

lemma nth_swap_at:
  "i < length xs \<Longrightarrow> j < length xs \<Longrightarrow>
   swap_at xs i j ! k = (if k = i then xs ! j else if k = j then xs ! i else xs ! k)"
  by (cases "k < length xs") (auto simp: swap_at_def nth_list_update)

lemma mset_swap_at [simp]: "i < length xs \<Longrightarrow> j < length xs \<Longrightarrow> mset (swap_at xs i j) = mset xs"
  by (simp add: swap_at_def mset_swap)

lemma larger_child_bounds:
  assumes "2 * i + 1 < n"
  shows "i < larger_child cmp xs n i" and "larger_child cmp xs n i < n"
    and "parent (larger_child cmp xs n i) = i"
  using assms by (auto simp: larger_child_def parent_def)

lemma sift_up_step:
  "0 < i \<Longrightarrow> cmp (xs ! parent i) (xs ! i) \<Longrightarrow>
   sift_up cmp xs i = sift_up cmp (swap_at xs (parent i) i) (parent i)"
  by (subst sift_up.simps) simp

lemma sift_up_stop: "\<not> (0 < i \<and> cmp (xs ! parent i) (xs ! i)) \<Longrightarrow> sift_up cmp xs i = xs"
  by (subst sift_up.simps, rule if_not_P)

lemma sift_down_step:
  "2 * i + 1 < n \<Longrightarrow> cmp (xs ! i) (xs ! larger_child cmp xs n i) \<Longrightarrow>
   sift_down cmp n xs i =
   sift_down cmp n (swap_at xs i (larger_child cmp xs n i)) (larger_child cmp xs n i)"
  by (subst sift_down.simps) simp

lemma sift_down_stop:
  "\<not> (2 * i + 1 < n \<and> cmp (xs ! i) (xs ! larger_child cmp xs n i)) \<Longrightarrow> sift_down cmp n xs i = xs"
  by (subst sift_down.simps, rule if_not_P)

lemma mset_sift_up: "i < length xs \<Longrightarrow> mset (sift_up cmp xs i) = mset xs"
proof (induction cmp xs i rule: sift_up.induct)
  case (1 cmp xs i)
  show ?case
  proof (cases "0 < i \<and> cmp (xs ! parent i) (xs ! i)")
    case True
    then have "parent i < length xs" using 1(2) parent_less [of i] by linarith
    with True 1 show ?thesis by (simp add: sift_up_step)
  qed (simp add: sift_up_stop)
qed

lemma length_sift_up [simp]: "length (sift_up cmp xs i) = length xs"
proof (induction cmp xs i rule: sift_up.induct)
  case (1 cmp xs i)
  then show ?case by (subst sift_up.simps) simp
qed

lemma length_sift_down [simp]: "length (sift_down cmp n xs i) = length xs"
proof (induction cmp n xs i rule: sift_down.induct)
  case (1 cmp n xs i)
  then show ?case by (subst sift_down.simps) simp
qed

lemma mset_sift_down: "n \<le> length xs \<Longrightarrow> mset (sift_down cmp n xs i) = mset xs"
proof (induction cmp n xs i rule: sift_down.induct)
  case (1 cmp n xs i)
  show ?case
  proof (cases "2 * i + 1 < n \<and> cmp (xs ! i) (xs ! larger_child cmp xs n i)")
    case True
    then have "larger_child cmp xs n i < length xs" "i < length xs"
      using 1(2) larger_child_bounds(2) [of i n cmp xs] by linarith+
    then have "mset (swap_at xs i (larger_child cmp xs n i)) = mset xs" by simp
    with 1 True show ?thesis by (simp add: sift_down_step)
  qed (metis sift_down_stop)
qed

lemma sift_down_beyond:
  assumes "n \<le> k" "k < length xs"
  shows "sift_down cmp n xs i ! k = xs ! k"
  using assms
proof (induction cmp n xs i rule: sift_down.induct)
  case (1 cmp n xs i)
  show ?case
  proof (cases "2 * i + 1 < n \<and> cmp (xs ! i) (xs ! larger_child cmp xs n i)")
    case True
    let ?c = "larger_child cmp xs n i"
    have c: "?c < n" using True by (simp add: larger_child_bounds)
    have "sift_down cmp n xs i ! k = swap_at xs i ?c ! k"
      using 1 True by (simp add: sift_down_step)
    also have "\<dots> = xs ! k"
      using 1(2,3) c True by (simp add: nth_swap_at)
    finally show ?thesis .
  qed (metis sift_down_stop)
qed

section \<open>Heaps over a strict weak order\<close>

locale strict_weak_order =
  fixes cmp :: "'a \<Rightarrow> 'a \<Rightarrow> bool"
  assumes cmp_asym: "cmp x y \<Longrightarrow> \<not> cmp y x"
    and cmp_neg_trans: "\<not> cmp x y \<Longrightarrow> \<not> cmp y z \<Longrightarrow> \<not> cmp x z"
begin

lemma cmp_irrefl: "\<not> cmp x x"
  using cmp_asym by blast

lemma cmp_mixed: "cmp x y \<Longrightarrow> \<not> cmp x z \<Longrightarrow> \<not> cmp y z"
  using cmp_asym cmp_neg_trans by blast

lemma sift_up_heap:
  assumes "i < length xs"
    and "\<And>j. 0 < j \<Longrightarrow> j < length xs \<Longrightarrow> j \<noteq> i \<Longrightarrow> \<not> cmp (xs ! parent j) (xs ! j)"
    and "\<And>j. 0 < i \<Longrightarrow> 0 < j \<Longrightarrow> j < length xs \<Longrightarrow> parent j = i \<Longrightarrow> \<not> cmp (xs ! parent i) (xs ! j)"
  shows "is_heap cmp (sift_up cmp xs i)"
  using assms
proof (induction i arbitrary: xs rule: less_induct)
  case (less i)
  show ?case
  proof (cases "0 < i \<and> cmp (xs ! parent i) (xs ! i)")
    case False
    have "is_heap cmp xs"
      unfolding is_heap_def heap_upto_def using less.prems(2) False
      by (metis greaterThanLessThan_iff)
    then show ?thesis using False by (simp add: sift_up_stop)
  next
    case True
    let ?p = "parent i" let ?ys = "swap_at xs ?p i"
    have p: "?p < i" "?p < length xs" using True less.prems(1) parent_less [of i] by linarith+
    have nth: "?ys ! k = (if k = ?p then xs ! i else if k = i then xs ! ?p else xs ! k)" for k
      using p less.prems(1) by (simp add: nth_swap_at)
    have up: "\<not> cmp (xs ! parent ?p) (xs ! ?p)" if "0 < ?p"
      using less.prems(2) [of ?p] that p by simp
    have *: "is_heap cmp (sift_up cmp ?ys ?p)"
    proof (rule less.IH [OF p(1)])
      fix j assume j: "0 < j" "j < length ?ys" "j \<noteq> ?p"
      have pj: "parent j \<noteq> j" using parent_less [OF j(1)] by linarith
      consider "j = i" | "j \<noteq> i" "parent j = ?p" | "parent j = i" | "j \<noteq> i" "parent j \<noteq> ?p" "parent j \<noteq> i"
        by blast
      then show "\<not> cmp (?ys ! parent j) (?ys ! j)"
      proof cases
        case 1
        then show ?thesis using True p by (simp add: nth cmp_asym)
      next
        case 2
        then have "\<not> cmp (xs ! ?p) (xs ! j)" using less.prems(2) [of j] j by simp
        with True have "\<not> cmp (xs ! i) (xs ! j)" using cmp_mixed by blast
        then show ?thesis using 2 j by (simp add: nth)
      next
        case 3
        then show ?thesis using True j pj p less.prems(3) [of j] by (simp add: nth)
      next
        case 4
        then show ?thesis using j less.prems(2) [of j] by (simp add: nth)
      qed
    next
      fix j assume j: "0 < ?p" "0 < j" "j < length ?ys" "parent j = ?p"
      have pp: "parent ?p < ?p" using j by simp
      have "\<not> cmp (xs ! parent ?p) (xs ! j)" if "j \<noteq> i"
        using cmp_neg_trans [OF up [OF j(1)], of "xs ! j"] j that less.prems(2) [of j] by simp
      moreover have "j \<noteq> ?p" using j(2,4) parent_less [of j] by linarith
      ultimately show "\<not> cmp (?ys ! parent ?p) (?ys ! j)"
        using up [OF j(1)] pp p by (simp add: nth)
    qed (use p in simp)
    then show ?thesis using True by (simp add: sift_up_step)
  qed
qed

lemma sift_down_heap:
  assumes "n \<le> length xs" and "i < n"
    and "\<And>j. 0 < j \<Longrightarrow> j < n \<Longrightarrow> parent j \<noteq> i \<Longrightarrow> \<not> cmp (xs ! parent j) (xs ! j)"
    and "\<And>j. 0 < i \<Longrightarrow> 0 < j \<Longrightarrow> j < n \<Longrightarrow> parent j = i \<Longrightarrow> \<not> cmp (xs ! parent i) (xs ! j)"
  shows "heap_upto cmp n (sift_down cmp n xs i)"
  using assms
proof (induction "n - i" arbitrary: i xs rule: less_induct)
  case less
  let ?c = "larger_child cmp xs n i"
  have best: "\<not> cmp (xs ! ?c) (xs ! j)" if "0 < j" "j < n" "parent j = i" for j
    using that cmp_irrefl cmp_asym by (auto simp: parent_eq_iff larger_child_def)
  show ?case
  proof (cases "2 * i + 1 < n \<and> cmp (xs ! i) (xs ! ?c)")
    case False
    have "\<not> cmp (xs ! parent j) (xs ! j)" if j: "0 < j" "j < n" for j
    proof (cases "parent j = i")
      case True
      then have "2 * i + 1 < n" using j by (auto simp: parent_eq_iff)
      then have "\<not> cmp (xs ! i) (xs ! ?c)" using False by blast
      then show ?thesis using best [OF j True] cmp_neg_trans True by blast
    qed (use less.prems(3) j in blast)
    then have "heap_upto cmp n xs" by (simp add: heap_upto_def)
    then show ?thesis using False by (metis sift_down_stop)
  next
    case True
    have c: "i < ?c" "?c < n" "parent ?c = i" using True by (simp_all add: larger_child_bounds)
    let ?ys = "swap_at xs i ?c"
    have nth: "?ys ! k = (if k = i then xs ! ?c else if k = ?c then xs ! i else xs ! k)" for k
      using c less.prems(1) by (simp add: nth_swap_at)
    have "heap_upto cmp n (sift_down cmp n ?ys ?c)"
    proof (rule less.hyps)
      fix j assume j: "0 < j" "j < n" "parent j \<noteq> ?c"
      have pj: "parent j \<noteq> j" using parent_less [OF j(1)] by linarith
      consider "j = ?c" | "j \<noteq> ?c" "parent j = i" | "j = i" | "j \<noteq> ?c" "parent j \<noteq> i" "j \<noteq> i"
        by blast
      then show "\<not> cmp (?ys ! parent j) (?ys ! j)"
      proof cases
        case 1
        then show ?thesis using True c by (simp add: nth cmp_asym)
      next
        case 2
        then show ?thesis using best [OF j(1,2)] pj by (auto simp: nth)
      next
        case 3
        then show ?thesis using less.prems(4) [of ?c] j c pj by (simp add: nth)
      next
        case 4
        then show ?thesis using less.prems(3) [of j] j by (simp add: nth)
      qed
    next
      fix j assume j: "0 < j" "j < n" "parent j = ?c"
      then have "j > ?c" using parent_less [of j] by simp
      then show "\<not> cmp (?ys ! parent ?c) (?ys ! j)"
        using less.prems(3) [of j] j c by (simp add: nth)
    qed (use c less.prems in auto)
    then show ?thesis using True by (simp add: sift_down_step)
  qed
qed

lemma heap_root:
  assumes "is_heap cmp xs" and "k < length xs"
  shows "\<not> cmp (xs ! 0) (xs ! k)"
  using assms(2)
proof (induction k rule: less_induct)
  case (less k)
  show ?case
  proof (cases "k = 0")
    case False
    then have "\<not> cmp (xs ! parent k) (xs ! k)" and "parent k < k"
      using assms(1) less.prems by (simp_all add: is_heap_def heap_upto_def)
    then show ?thesis using less cmp_neg_trans by (meson less_trans)
  qed (simp add: cmp_irrefl)
qed

lemma heap_push:
  assumes "is_heap cmp q"
  shows "is_heap cmp (spq_push cmp x q)"
proof -
  have "is_heap cmp (sift_up cmp (q @ [x]) (length q))"
  proof (rule sift_up_heap)
    fix j assume j: "0 < j" "j < length (q @ [x])" "j \<noteq> length q"
    then have "parent j < length q" by (simp add: parent_bound)
    then show "\<not> cmp ((q @ [x]) ! parent j) ((q @ [x]) ! j)"
      using assms j by (simp add: is_heap_def heap_upto_def nth_append)
  next
    fix j assume "0 < j" "j < length (q @ [x])" "parent j = length q"
    then show "\<not> cmp ((q @ [x]) ! parent (length q)) ((q @ [x]) ! j)"
      using parent_less [of j] by simp
  qed simp
  then show ?thesis by (simp add: spq_push_def)
qed

lemma heap_pop:
  assumes "is_heap cmp q" and "spq_pop cmp q = Some (x, q')"
  shows "is_heap cmp q'" and "mset q = add_mset x (mset q')" and "x = q ! 0"
proof -
  let ?n = "length q - 1" let ?s = "swap_at q 0 ?n" let ?d = "sift_down cmp ?n ?s 0"
  have q: "q \<noteq> []" and x: "x = last ?d" and q': "q' = butlast ?d"
    using assms(2) by (auto simp: spq_pop_def pop_heap_def Let_def split: if_splits)
  have len: "length ?d = length q" "?n < length q" using q by simp_all
  then have ne: "?d \<noteq> []" using q by (metis length_0_conv)
  have nth: "?s ! k = (if k = 0 then q ! ?n else if k = ?n then q ! 0 else q ! k)" for k
    using q by (simp add: nth_swap_at)
  have "x = ?d ! ?n" using x ne len by (simp add: last_conv_nth)
  also have "\<dots> = q ! 0" using len nth [of ?n] by (auto simp: sift_down_beyond)
  finally show "x = q ! 0" .
  have "mset q = mset ?d" using q by (simp add: mset_sift_down)
  also have "\<dots> = add_mset x (mset q')" using ne x q' by (simp add: mset_last_butlast)
  finally show "mset q = add_mset x (mset q')" .
  have "heap_upto cmp ?n ?d"
  proof (cases "?n = 0")
    case False
    have old: "\<not> cmp (q ! parent j) (q ! j)" if "0 < j" "j < ?n" for j
      using assms(1) that by (simp add: is_heap_def heap_upto_def)
    show ?thesis
    proof (rule sift_down_heap)
      fix j assume j: "0 < j" "j < ?n" "parent j \<noteq> 0"
      then have "parent j < ?n" using parent_less [of j] by linarith
      then show "\<not> cmp (?s ! parent j) (?s ! j)" using j old nth [of j] nth [of "parent j"] by simp
    qed (use False in auto)
  qed (simp add: heap_upto_def)
  moreover have "q' ! k = ?d ! k" if "k < ?n" for k
    using that q' len by (simp add: nth_butlast)
  moreover have "length q' = ?n" using q' len by simp
  ultimately show "is_heap cmp q'"
    unfolding is_heap_def heap_upto_def using parent_less
    by (metis greaterThanLessThan_iff less_trans)
qed

end

section \<open>The contract of a priority queue\<close>

text \<open>
  What the event loop relies on: nothing is lost or duplicated, and \<^verbatim>\<open>pop\<close> returns an element that
  no queued element precedes. \<^term>\<open>cmp x y\<close> reads as in the C++ comparators: \<open>y\<close> is served before
  \<open>x\<close>.
\<close>

locale priority_queue =
  fixes cmp :: "'a \<Rightarrow> 'a \<Rightarrow> bool"
    and push :: "'a \<Rightarrow> 'q \<Rightarrow> 'q"
    and pop :: "'q \<Rightarrow> ('a \<times> 'q) option"
    and items :: "'q \<Rightarrow> 'a multiset"
    and ok :: "'q \<Rightarrow> bool"
  assumes items_push: "ok q \<Longrightarrow> items (push x q) = add_mset x (items q)"
    and ok_push: "ok q \<Longrightarrow> ok (push x q)"
    and pop_None: "ok q \<Longrightarrow> pop q = None \<longleftrightarrow> items q = {#}"
    and pop_items: "ok q \<Longrightarrow> pop q = Some (x, q') \<Longrightarrow> items q = add_mset x (items q')"
    and ok_pop: "ok q \<Longrightarrow> pop q = Some (x, q') \<Longrightarrow> ok q'"
    and pop_first: "ok q \<Longrightarrow> pop q = Some (x, q') \<Longrightarrow> y \<in># items q \<Longrightarrow> \<not> cmp x y"
begin

lemma pop_after_push:
  assumes "ok q"
  obtains y q' where "pop (push x q) = Some (y, q')" and "y = x \<or> y \<in># items q"
    and "items q' + {#y#} = items q + {#x#}"
proof -
  have "items (push x q) \<noteq> {#}" using assms by (simp add: items_push)
  then obtain y q' where p: "pop (push x q) = Some (y, q')"
    using assms by (metis ok_push pop_None option.exhaust surj_pair)
  have eq: "add_mset x (items q) = add_mset y (items q')"
    using assms pop_items [OF ok_push p] by (simp add: items_push)
  then have y: "y \<in># add_mset x (items q)" by simp
  show thesis
  proof (rule that [OF p])
    show "y = x \<or> y \<in># items q" using y by auto
    show "items q' + {#y#} = items q + {#x#}" using eq by simp
  qed
qed

lemma pop_pop_ordered:
  assumes "ok q" and "pop q = Some (x, q')" and "pop q' = Some (y, q'')"
  shows "\<not> cmp x y"
  using assms pop_items [of q x q'] pop_items [of q' y q''] ok_pop [of q x q'] pop_first [of q x q' y]
  by simp

end

lemma spq_pop_None [simp]: "spq_pop cmp q = None \<longleftrightarrow> q = []"
  by (simp add: spq_pop_def Let_def)

lemma spq_pop_Nil [simp]: "spq_pop cmp [] = None"
  by simp

lemma mset_spq_push [simp]: "mset (spq_push cmp x q) = add_mset x (mset q)"
  by (simp add: spq_push_def mset_sift_up)

lemma is_heap_Nil [simp]: "is_heap cmp []"
  by (simp add: is_heap_def heap_upto_def)

sublocale strict_weak_order \<subseteq> spq: priority_queue cmp "spq_push cmp" "spq_pop cmp" mset "is_heap cmp"
proof
  fix q x q' y
  assume h: "is_heap cmp q" and p: "spq_pop cmp q = Some (x, q')" and y: "y \<in># mset q"
  then obtain k where "k < length q" "y = q ! k" by (metis in_set_conv_nth set_mset_mset)
  then show "\<not> cmp x y" using heap_root [OF h] heap_pop(3) [OF h p] by simp
qed (use heap_push heap_pop in auto)

text \<open>Taking everything out of the queue, as the event loop does when nothing new arrives.\<close>

fun spq_drain :: "('a \<Rightarrow> 'a \<Rightarrow> bool) \<Rightarrow> nat \<Rightarrow> 'a list \<Rightarrow> 'a list" where
  "spq_drain cmp 0 q = []"
| "spq_drain cmp (Suc n) q =
     (case spq_pop cmp q of None \<Rightarrow> [] | Some (x, q') \<Rightarrow> x # spq_drain cmp n q')"

context strict_weak_order
begin

lemma drain_mset: "is_heap cmp q \<Longrightarrow> length q \<le> n \<Longrightarrow> mset (spq_drain cmp n q) = mset q"
proof (induction n arbitrary: q)
  case (Suc n)
  show ?case
  proof (cases "spq_pop cmp q")
    case (Some p)
    obtain x q' where p: "p = (x, q')" by (cases p)
    with Some have "mset q = add_mset x (mset q')" "is_heap cmp q'"
      using Suc.prems(1) heap_pop by auto
    moreover from this have "length q' \<le> n"
      using Suc.prems(2) by (metis Suc_le_mono size_add_mset size_mset)
    ultimately show ?thesis using Suc.IH Some p by simp
  qed simp
qed simp

lemma drain_subset: "is_heap cmp q \<Longrightarrow> set (spq_drain cmp n q) \<subseteq> set q"
proof (induction n arbitrary: q)
  case (Suc n)
  show ?case
  proof (cases "spq_pop cmp q")
    case (Some p)
    obtain x q' where p: "p = (x, q')" by (cases p)
    have h': "is_heap cmp q'" and "mset q = add_mset x (mset q')"
      using Some p Suc.prems heap_pop by auto
    then have "set q = insert x (set q')" by (metis set_mset_add_mset_insert set_mset_mset)
    with Suc.IH [OF h'] Some p show ?thesis by auto
  qed simp
qed simp

lemma drain_sorted: "is_heap cmp q \<Longrightarrow> sorted_wrt (\<lambda>x y. \<not> cmp x y) (spq_drain cmp n q)"
proof (induction n arbitrary: q)
  case (Suc n)
  show ?case
  proof (cases "spq_pop cmp q")
    case (Some p)
    obtain x q' where p: "p = (x, q')" by (cases p)
    have h': "is_heap cmp q'" and m: "mset q = add_mset x (mset q')"
      using Some p Suc.prems heap_pop by auto
    have "set (spq_drain cmp n q') \<subseteq> set_mset (mset q)"
      using drain_subset [OF h', of n] m by auto
    then have "\<forall>y \<in> set (spq_drain cmp n q'). \<not> cmp x y"
      using spq.pop_first [OF Suc.prems] Some p by blast
    then show ?thesis using Suc.IH [OF h'] Some p by simp
  qed simp
qed simp

end

end
