(* ===== verification/Priority_Event_Queue.thy ===== *)
theory Priority_Event_Queue
  imports Sectional_Priority_Queue Example_Runs "HOL-Library.Product_Lexorder"
begin

text \<open>
  The event queue \<^verbatim>\<open>TemplatePriorityQueue\<close> of \<^verbatim>\<open>src/src/ichor/event_queues/PriorityQueue.cpp\<close> with its two
  comparators, and the loop of \<^verbatim>\<open>start\<close> that hands the events to the dependency manager.

  The manager collects what it pushes in \<open>dm_pushed\<close>; the queue takes it over after each event, which is
  the order in which \<^verbatim>\<open>pushEventInternal\<close> was called, since nothing is taken out of the queue while an
  event is processed. Whether \<^verbatim>\<open>SIGINT\<close> arrived and the time are inputs of each round of the loop, and so
  are the events that other threads push. Waiting for a wake-up is a round that handles nothing.
\<close>

section \<open>The two orders\<close>

definition PriorityQueueCompare :: "event \<Rightarrow> event \<Rightarrow> bool" where
  "PriorityQueueCompare lhs rhs = (ev_priority lhs > ev_priority rhs)"

definition OrderedPriorityQueueCompare :: "event \<Rightarrow> event \<Rightarrow> bool" where
  "OrderedPriorityQueueCompare lhs rhs =
     (if ev_priority lhs = ev_priority rhs then ev_id lhs > ev_id rhs else ev_priority lhs > ev_priority rhs)"

section \<open>The queue\<close>

record event_queue =
  eq_events :: "event list"
  eq_quit :: bool
  eq_processingEvt :: bool
  eq_quitEventSent :: bool
  eq_whenQuitEventWasSent :: nat
  eq_quitTimeoutMs :: nat
  eq_dm :: dm

type_synonym order = "event \<Rightarrow> event \<Rightarrow> bool"

text \<open>\<open>pushEventInternal\<close> has no null pointer to refuse: an event is a value here.\<close>

definition pushEventInternal :: "order \<Rightarrow> event \<Rightarrow> event_queue \<Rightarrow> event_queue" where
  "pushEventInternal cmp e q = q\<lparr>eq_events := spq_push cmp e (eq_events q)\<rparr>"

definition take_over :: "order \<Rightarrow> event_queue \<Rightarrow> event_queue" where
  "take_over cmp q =
     (fold (pushEventInternal cmp) (dm_pushed (eq_dm q)) q)
       \<lparr>eq_dm := (eq_dm q)\<lparr>dm_pushed := []\<rparr>, eq_quit := eq_quit q \<or> dm_queueQuit (eq_dm q)\<rparr>"

definition pushPrioritisedEvent :: "order \<Rightarrow> service_id \<Rightarrow> priority \<Rightarrow> payload \<Rightarrow> event_queue \<Rightarrow> nat \<times> event_queue" where
  "pushPrioritisedEvent cmp orig prio p q =
     (dm_eventCounter (eq_dm q), take_over cmp (q\<lparr>eq_dm := push_event orig prio p (eq_dm q)\<rparr>))"

definition pushEvent :: "order \<Rightarrow> service_id \<Rightarrow> payload \<Rightarrow> event_queue \<Rightarrow> nat \<times> event_queue" where
  "pushEvent cmp orig p q = pushPrioritisedEvent cmp orig INTERNAL_EVENT_PRIORITY p q"

definition eq_empty :: "event_queue \<Rightarrow> bool" where
  "eq_empty q = (spq_empty (eq_events q) \<and> \<not> eq_processingEvt q)"

definition eq_size :: "event_queue \<Rightarrow> nat" where
  "eq_size q = spq_size (eq_events q) + (if eq_processingEvt q then 1 else 0)"

definition is_running :: "event_queue \<Rightarrow> bool" where
  "is_running q = (\<not> eq_quit q)"

definition shouldQuit :: "bool \<Rightarrow> nat \<Rightarrow> event_queue \<Rightarrow> bool \<times> event_queue" where
  "shouldQuit sigint now q =
     (let q' = (if sigint \<and> eq_quitEventSent q \<and> now - eq_whenQuitEventWasSent q \<ge> eq_quitTimeoutMs q
                then q\<lparr>eq_quit := True\<rparr> else q)
      in (eq_quit q', q'))"

definition shouldAddQuitEvent :: "order \<Rightarrow> bool \<Rightarrow> nat \<Rightarrow> event_queue \<Rightarrow> event_queue" where
  "shouldAddQuitEvent cmp sigint now q =
     (if sigint \<and> \<not> eq_quitEventSent q
      then (snd (pushPrioritisedEvent cmp 0 INTERNAL_EVENT_PRIORITY QuitEvent q))
             \<lparr>eq_quitEventSent := True, eq_whenQuitEventWasSent := now\<rparr>
      else q)"

definition eq_quit_now :: "event_queue \<Rightarrow> event_queue" where
  "eq_quit_now q = q\<lparr>eq_quit := True\<rparr>"

definition eq_processEvent :: "order \<Rightarrow> env \<Rightarrow> type_hash \<Rightarrow> event \<Rightarrow> event_queue \<Rightarrow> event_queue option" where
  "eq_processEvent cmp env iservice e q =
     map_option (\<lambda>st. take_over cmp (q\<lparr>eq_dm := st\<rparr>)) (processEvent env iservice e (eq_dm q))"

datatype round = Quits | Waits | Handles event

text \<open>One round of the loop in \<^verbatim>\<open>start\<close>.\<close>

definition eq_round ::
  "order \<Rightarrow> env \<Rightarrow> type_hash \<Rightarrow> bool \<Rightarrow> nat \<Rightarrow> event_queue \<Rightarrow> (round \<times> event_queue) option" where
  "eq_round cmp env iservice sigint now q =
     (case shouldQuit sigint now q of (quits, q0) \<Rightarrow>
        if quits then Some (Quits, q0)
        else case shouldQuit sigint now (shouldAddQuitEvent cmp sigint now q0) of (quits, q1) \<Rightarrow>
          if quits then Some (Quits, q1)
          else case spq_pop cmp (eq_events q1) of
            None \<Rightarrow> Some (Waits, q1)
          | Some (e, rest) \<Rightarrow>
              map_option (\<lambda>q2. (Handles e, q2\<lparr>eq_processingEvt := False\<rparr>))
                (eq_processEvent cmp env iservice e (q1\<lparr>eq_events := rest, eq_processingEvt := True\<rparr>)))"

text \<open>
  \<^verbatim>\<open>start\<close>: the loop over a sequence of rounds, each with its inputs, and \<^verbatim>\<open>stopDm\<close> when it quits. The second
  component of the result tells whether \<^verbatim>\<open>start\<close> has returned.
\<close>

fun eq_loop :: "order \<Rightarrow> env \<Rightarrow> type_hash \<Rightarrow> (bool \<times> nat) list \<Rightarrow> event_queue \<Rightarrow> (bool \<times> event_queue) option" where
  "eq_loop cmp env iservice [] q = Some (False, q)"
| "eq_loop cmp env iservice ((sigint, now) # inputs) q =
     Option.bind (eq_round cmp env iservice sigint now q) (\<lambda>(r, q').
       if r = Quits then map_option (\<lambda>st. (True, q'\<lparr>eq_dm := st\<rparr>)) (dm_stop env (eq_dm q'))
       else eq_loop cmp env iservice inputs q')"

definition eq_start ::
  "order \<Rightarrow> env \<Rightarrow> type_hash \<Rightarrow> bool \<Rightarrow> (bool \<times> nat) list \<Rightarrow> event_queue \<Rightarrow> (bool \<times> event_queue) option" where
  "eq_start cmp env iservice threadHasManager inputs q =
     Option.bind (dm_start threadHasManager (eq_dm q)) (\<lambda>st. eq_loop cmp env iservice inputs (q\<lparr>eq_dm := st\<rparr>))"

text \<open>
  The queue is modelled from \<^verbatim>\<open>createManager\<close> on: the manager registers itself and then the queue as internal
  services, whose ids come from the global counter, here \<open>sid\<close> and the next.
\<close>

definition createManager :: "nat \<Rightarrow> type_hash \<Rightarrow> type_hash \<Rightarrow> service_id \<Rightarrow> event_queue" where
  "createManager timeout dmHash queueHash sid =
     \<lparr>eq_events = [], eq_quit = False, eq_processingEvt = False, eq_quitEventSent = False,
      eq_whenQuitEventWasSent = 0, eq_quitTimeoutMs = timeout,
      eq_dm = (addInternalServiceManager (sid + 1) (new_internal_manager (sid + 1) queueHash) (new_manager dmHash sid))
        \<lparr>dm_serviceCounter := sid + 2\<rparr>\<rparr>"

section \<open>The queue keeps its events\<close>

lemma push_fold_fields [simp]:
  "eq_dm (fold (pushEventInternal cmp) es q) = eq_dm q"
  "eq_quit (fold (pushEventInternal cmp) es q) = eq_quit q"
  "eq_quitEventSent (fold (pushEventInternal cmp) es q) = eq_quitEventSent q"
  "eq_whenQuitEventWasSent (fold (pushEventInternal cmp) es q) = eq_whenQuitEventWasSent q"
  "eq_quitTimeoutMs (fold (pushEventInternal cmp) es q) = eq_quitTimeoutMs q"
  by (induction es arbitrary: q) (simp_all add: pushEventInternal_def)

lemma mset_push_fold [simp]:
  "mset (eq_events (fold (pushEventInternal cmp) es q)) = mset (eq_events q) + mset es"
  by (induction es arbitrary: q) (simp_all add: pushEventInternal_def)

lemma take_over_fields [simp]:
  "eq_dm (take_over cmp q) = (eq_dm q)\<lparr>dm_pushed := []\<rparr>"
  "eq_quitEventSent (take_over cmp q) = eq_quitEventSent q"
  "eq_whenQuitEventWasSent (take_over cmp q) = eq_whenQuitEventWasSent q"
  "eq_quitTimeoutMs (take_over cmp q) = eq_quitTimeoutMs q"
  "mset (eq_events (take_over cmp q)) = mset (eq_events q) + mset (dm_pushed (eq_dm q))"
  by (simp_all add: take_over_def)

lemma shouldQuit_fields:
  assumes "shouldQuit sigint now q = (b, q')"
  shows "eq_events q' = eq_events q \<and> eq_dm q' = eq_dm q \<and> eq_quitEventSent q' = eq_quitEventSent q \<and>
    eq_whenQuitEventWasSent q' = eq_whenQuitEventWasSent q \<and> eq_quitTimeoutMs q' = eq_quitTimeoutMs q \<and> (\<not> b \<longrightarrow> q' = q)"
  using assms by (auto simp: shouldQuit_def Let_def split: if_splits)

text \<open>What a round does, by its result.\<close>

lemma eq_round_cases:
  assumes "eq_round cmp env iservice sigint now q = Some (r, q')"
  obtains (quits) q1 where "r = Quits" "shouldQuit sigint now q1 = (True, q')" "q1 = q \<or> q1 = shouldAddQuitEvent cmp sigint now q"
  | (waits) "r = Waits" "q' = shouldAddQuitEvent cmp sigint now q" "eq_events q' = []"
  | (handles) e rest st where "r = Handles e"
      "spq_pop cmp (eq_events (shouldAddQuitEvent cmp sigint now q)) = Some (e, rest)"
      "processEvent env iservice e (eq_dm (shouldAddQuitEvent cmp sigint now q)) = Some st"
      "q' = (take_over cmp ((shouldAddQuitEvent cmp sigint now q)\<lparr>eq_events := rest, eq_processingEvt := True, eq_dm := st\<rparr>))
              \<lparr>eq_processingEvt := False\<rparr>"
proof -
  obtain b q0 where s: "shouldQuit sigint now q = (b, q0)" by fastforce
  show thesis
  proof (cases b)
    case True
    then show thesis using quits [of q] assms s by (simp add: eq_round_def)
  next
    case False
    then have q0: "q0 = q" using shouldQuit_fields [OF s] by simp
    let ?q1 = "shouldAddQuitEvent cmp sigint now q"
    obtain b' q1 where s': "shouldQuit sigint now ?q1 = (b', q1)" by fastforce
    note run = assms [unfolded eq_round_def s prod.case if_not_P [OF False] q0 s']
    show thesis
    proof (cases b')
      case True
      then show thesis using quits [of ?q1] run s' by simp
    next
      case False
      then have q1: "q1 = ?q1" using shouldQuit_fields [OF s'] by simp
      show thesis
        using run False waits handles by (auto simp: q1 eq_processEvent_def split: option.splits)
    qed
  qed
qed

lemma distinct_map_mset: "mset xs = mset ys \<Longrightarrow> distinct (map f xs) = distinct (map f ys)"
  by (metis mset_map mset_eq_imp_distinct_iff)

definition queue_ok :: "order \<Rightarrow> event_queue \<Rightarrow> bool" where
  "queue_ok cmp q \<longleftrightarrow> is_heap cmp (eq_events q) \<and> distinct (map ev_id (eq_events q)) \<and>
     (\<forall>e \<in> set (eq_events q). ev_id e < dm_eventCounter (eq_dm q)) \<and> dm_pushed (eq_dm q) = []"

section \<open>An order on events that respects the priority\<close>

locale event_order = strict_weak_order cmp for cmp :: "event \<Rightarrow> event \<Rightarrow> bool" +
  assumes cmp_priority: "ev_priority x > ev_priority y \<Longrightarrow> cmp x y"
begin

lemma push_fold_heap: "is_heap cmp (eq_events q) \<Longrightarrow> is_heap cmp (eq_events (fold (pushEventInternal cmp) es q))"
  by (induction es arbitrary: q) (simp_all add: pushEventInternal_def spq.ok_push)

lemma take_over_ok:
  assumes q: "queue_ok cmp (q\<lparr>eq_dm := st\<rparr>)" and "progress st st'"
  shows "queue_ok cmp (take_over cmp (q\<lparr>eq_dm := st'\<rparr>))"
proof -
  have st: "dm_pushed st = []" "dm_eventCounter st \<le> dm_eventCounter st'" and
    old: "distinct (map ev_id (eq_events q))" "\<forall>e \<in> set (eq_events q). ev_id e < dm_eventCounter st"
    using assms by (auto simp: queue_ok_def progress_def)
  then have new: "sorted_wrt (<) (map ev_id (dm_pushed st'))"
    "\<forall>e \<in> set (dm_pushed st'). dm_eventCounter st \<le> ev_id e \<and> ev_id e < dm_eventCounter st'"
    using assms(2) by (auto simp: progress_def)
  let ?q' = "take_over cmp (q\<lparr>eq_dm := st'\<rparr>)"
  have m: "mset (eq_events ?q') = mset (eq_events q @ dm_pushed st')" by simp
  have "distinct (map ev_id (eq_events q @ dm_pushed st'))"
    using old new strict_sorted_iff by fastforce
  then have "distinct (map ev_id (eq_events ?q'))" using distinct_map_mset [OF m] by blast
  moreover have "set (eq_events ?q') = set (eq_events q) \<union> set (dm_pushed st')"
    using mset_eq_setD [OF m] by simp
  moreover have "is_heap cmp (eq_events ?q')"
    using q push_fold_heap by (simp add: queue_ok_def take_over_def)
  ultimately show ?thesis using st old new unfolding queue_ok_def by (auto simp: less_le_trans)
qed

lemma push_ok: "queue_ok cmp q \<Longrightarrow> queue_ok cmp (snd (pushPrioritisedEvent cmp orig prio p q))"
  using take_over_ok [where q = q and st = "eq_dm q"] progress_push by (simp add: pushPrioritisedEvent_def)

lemma add_quit_ok: "queue_ok cmp q \<Longrightarrow> queue_ok cmp (shouldAddQuitEvent cmp sigint now q)"
  using push_ok by (simp add: shouldAddQuitEvent_def queue_ok_def)

lemma pop_ok:
  assumes "queue_ok cmp q" and "spq_pop cmp (eq_events q) = Some (e, rest)"
  shows "queue_ok cmp (q\<lparr>eq_events := rest\<rparr>)" and "e \<notin> set rest"
    and "x \<in> set rest \<Longrightarrow> \<not> cmp e x \<and> ev_priority e \<le> ev_priority x"
proof -
  have h: "is_heap cmp (eq_events q)" using assms(1) by (simp add: queue_ok_def)
  have m: "mset (eq_events q) = mset (e # rest)" using spq.pop_items [OF h assms(2)] by simp
  then have "distinct (map ev_id (e # rest))" "set (eq_events q) = set (e # rest)"
    using assms(1) distinct_map_mset [OF m, of ev_id] mset_eq_setD [OF m]
    by (simp_all add: queue_ok_def)
  then show "queue_ok cmp (q\<lparr>eq_events := rest\<rparr>)" "e \<notin> set rest"
    using assms(1) spq.ok_pop [OF h assms(2)] by (auto simp: queue_ok_def)
  assume "x \<in> set rest"
  then have "x \<in># mset (eq_events q)" by (simp add: m)
  then have "\<not> cmp e x" using spq.pop_first [OF h assms(2)] by simp
  then show "\<not> cmp e x \<and> ev_priority e \<le> ev_priority x" using cmp_priority [of x e] by (meson not_le)
qed

lemma round_ok:
  assumes ok: "queue_ok cmp q" and run: "eq_round cmp env iservice sigint now q = Some (r, q')"
    and adm: "\<And>e. r = Handles e \<Longrightarrow> admissible e"
  shows "queue_ok cmp q'"
  using run
proof (cases rule: eq_round_cases)
  case (quits q1)
  then show ?thesis
    using ok add_quit_ok [OF ok, of sigint now] shouldQuit_fields [OF quits(2)] by (auto simp: queue_ok_def)
next
  case waits
  then show ?thesis using add_quit_ok [OF ok] by simp
next
  case (handles e rest st)
  let ?q1 = "shouldAddQuitEvent cmp sigint now q"
  have "queue_ok cmp (?q1\<lparr>eq_events := rest\<rparr>)" by (rule pop_ok(1) [OF add_quit_ok [OF ok] handles(2)])
  then have "queue_ok cmp ((?q1\<lparr>eq_events := rest, eq_processingEvt := True\<rparr>)\<lparr>eq_dm := eq_dm ?q1\<rparr>)"
    by (simp add: queue_ok_def)
  then have "queue_ok cmp (take_over cmp ((?q1\<lparr>eq_events := rest, eq_processingEvt := True\<rparr>)\<lparr>eq_dm := st\<rparr>))"
    by (rule take_over_ok) (rule progress.R_processEvent [OF handles(3) adm [OF handles(1)]])
  then show ?thesis unfolding handles(4) by (simp add: queue_ok_def)
qed

end

interpretation unordered: event_order PriorityQueueCompare
  by unfold_locales (auto simp: PriorityQueueCompare_def)

interpretation ordered: event_order OrderedPriorityQueueCompare
  by unfold_locales (auto simp: OrderedPriorityQueueCompare_def split: if_splits)

section \<open>The states of the queue\<close>

inductive eq_reachable :: "order \<Rightarrow> env \<Rightarrow> type_hash \<Rightarrow> event_queue \<Rightarrow> bool" for cmp env iservice where
  eq_created: "eq_reachable cmp env iservice (createManager timeout dmHash queueHash sid)"
| eq_started: "eq_reachable cmp env iservice q \<Longrightarrow> dm_start b (eq_dm q) = Some st \<Longrightarrow>
    eq_reachable cmp env iservice (q\<lparr>eq_dm := st\<rparr>)"
| eq_pushed: "eq_reachable cmp env iservice q \<Longrightarrow> pushPrioritisedEvent cmp orig prio p q = (eid, q') \<Longrightarrow>
    eq_reachable cmp env iservice q'"
| eq_called: "eq_reachable cmp env iservice q \<Longrightarrow> apply_action a (eq_dm q) = Some st \<Longrightarrow>
    eq_reachable cmp env iservice (take_over cmp (q\<lparr>eq_dm := st\<rparr>))"
| eq_resumed: "eq_reachable cmp env iservice q \<Longrightarrow> resume_generator env pid (eq_dm q) = Some st \<Longrightarrow>
    eq_reachable cmp env iservice (take_over cmp (q\<lparr>eq_dm := st\<rparr>))"
| eq_looped: "eq_reachable cmp env iservice q \<Longrightarrow> eq_round cmp env iservice sigint now q = Some (r, q') \<Longrightarrow>
    (\<And>e. r = Handles e \<Longrightarrow> admissible e) \<Longrightarrow> eq_reachable cmp env iservice q'"

lemma progress_resume:
  assumes "resume_generator env pid st = Some st'"
  shows "progress st st'"
  using assms
proof (cases rule: resume_generator_cases)
  case (3 out st1 g sid m s sb)
  have "progress st1 (put_mgr sid (m\<lparr>m_state := s\<rparr>) st1)" by (simp add: put_mgr_def progress_services)
  then show ?thesis
    using progress.R_user [OF 3(1)] progress.R_finish_start_generator progress_trans 3(3) by blast
next
  case (4 out st1 orig prio)
  then show ?thesis
    using progress.R_user [OF 4(1)] progress.R_push_after [OF progress.R_set_body] progress_trans by blast
qed (use progress.R_refl progress.R_user in auto)

lemma safe_unpushed [simp]: "injection_safe (st\<lparr>dm_pushed := es\<rparr>) = injection_safe st"
  by (rule safe_services) simp

lemma safe_push [simp]: "injection_safe (push_event orig prio p st) = injection_safe st"
  by (rule safe_services) (simp add: push_event_def)

lemma safe_add_quit: "injection_safe (eq_dm (shouldAddQuitEvent cmp sigint now q)) = injection_safe (eq_dm q)"
  by (simp add: shouldAddQuitEvent_def pushPrioritisedEvent_def)

lemma safe_round:
  assumes "eq_round cmp env iservice sigint now q = Some (r, q')" and "injection_safe (eq_dm q)"
    and "\<And>e. r = Handles e \<Longrightarrow> admissible e"
  shows "injection_safe (eq_dm q')"
  using assms(1)
proof (cases rule: eq_round_cases)
  case (quits q1)
  then show ?thesis using assms(2) safe_add_quit [of cmp sigint now q] shouldQuit_fields [OF quits(2)] by auto
next
  case waits
  then show ?thesis using assms(2) safe_add_quit by simp
next
  case (handles e rest st)
  then show ?thesis
    using safe.R_processEvent [OF handles(3) assms(3) [OF handles(1)]] assms(2) by (simp add: keeps_safe_def safe_add_quit)
qed

lemma safe_created: "injection_safe (eq_dm (createManager timeout dmHash queueHash sid))"
  using safe_addInternal [OF safe_new_manager, of "sid + 1" queueHash dmHash sid]
  by (simp add: createManager_def safe_services [of "_\<lparr>dm_serviceCounter := _\<rparr>"])

lemma safe_start: "dm_start b st = Some st' \<Longrightarrow> injection_safe st' = injection_safe st"
  by (rule safe_services) (auto simp: dm_start_def split: if_splits)

context event_order
begin

lemma created_ok: "queue_ok cmp (createManager timeout dmHash queueHash sid)"
  by (simp add: queue_ok_def createManager_def new_manager_def addInternalServiceManager_def)

lemma reachable_ok: "eq_reachable cmp env iservice q \<Longrightarrow> queue_ok cmp q \<and> injection_safe (eq_dm q)"
proof (induction rule: eq_reachable.induct)
  case (eq_created timeout dmHash queueHash sid)
  show ?case using created_ok safe_created by simp
next
  case (eq_started q b st)
  then show ?case using safe_start by (auto simp: queue_ok_def dm_start_def split: if_splits)
next
  case (eq_pushed q orig prio p eid q')
  then show ?case using push_ok [of q orig prio p] by (auto simp: pushPrioritisedEvent_def)
next
  case (eq_called q a st)
  then show ?case
    using take_over_ok [where q = q and st = "eq_dm q"] progress.R_apply_action safe.R_apply_action
    by (simp add: keeps_safe_def)
next
  case (eq_resumed q pid st)
  then show ?case
    using take_over_ok [where q = q and st = "eq_dm q"] progress_resume safe_resume_generator [of "eq_dm q" env pid st] by simp
next
  case (eq_looped q sigint now r q')
  then show ?case using round_ok safe_round by blast
qed

end

text \<open>
  C4. The ordered queue handles events by priority, and events of the same priority in the order they
  were pushed. In every state of the queue that rounds of the loop, pushes from other threads and
  calls of services can lead to, the event a round handles comes strictly before all others that are
  queued, and no event is lost or duplicated: what is queued afterwards is the rest, together with what
  was pushed while the event was processed.
\<close>

theorem ordered_queue_fifo:
  assumes "eq_reachable OrderedPriorityQueueCompare env iservice q"
    and "eq_round OrderedPriorityQueueCompare env iservice sigint now q = Some (Handles e, q')"
    and "before = eq_events (shouldAddQuitEvent OrderedPriorityQueueCompare sigint now q)"
  shows "(\<forall>x \<in> set before. x \<noteq> e \<longrightarrow> (ev_priority e, ev_id e) < (ev_priority x, ev_id x)) \<and>
    (\<exists>st. processEvent env iservice e (eq_dm (shouldAddQuitEvent OrderedPriorityQueueCompare sigint now q)) = Some st \<and>
       mset (eq_events q') + {#e#} = mset before + mset (dm_pushed st))"
  using assms(2)
proof (cases rule: eq_round_cases)
  case (handles e' rest st)
  let ?q1 = "shouldAddQuitEvent OrderedPriorityQueueCompare sigint now q"
  have e: "e' = e" using handles(1) by simp
  have ok: "queue_ok OrderedPriorityQueueCompare ?q1" using ordered.reachable_ok [OF assms(1)] ordered.add_quit_ok by blast
  have m: "mset before = add_mset e (mset rest)"
    using ordered.spq.pop_items [OF _ handles(2)] ok e by (simp add: queue_ok_def assms(3))
  have "distinct (map ev_id (e # rest))"
    using ok distinct_map_mset [of before "e # rest" ev_id] m by (simp add: queue_ok_def assms(3))
  moreover have "set before = set (e # rest)" using m by (metis mset.simps(2) mset_eq_setD)
  ultimately have "\<forall>x \<in> set before. x \<noteq> e \<longrightarrow> (ev_priority e, ev_id e) < (ev_priority x, ev_id x)"
    using ordered.pop_ok(3) [OF ok handles(2)] e
    by (force simp: OrderedPriorityQueueCompare_def image_iff split: if_splits)
  moreover have "mset (eq_events q') + {#e#} = mset before + mset (dm_pushed st)"
    by (simp add: handles(4) m)
  ultimately show ?thesis using handles(3) e by blast
qed simp_all

definition ex_queue :: event_queue where
  "ex_queue = snd (pushPrioritisedEvent OrderedPriorityQueueCompare 0 7 DoWorkEvent
     (snd (pushPrioritisedEvent OrderedPriorityQueueCompare 0 7 QuitEvent (createManager 5000 7 8 1))))"

lemmas queue_eval = pushPrioritisedEvent_def pushEvent_def take_over_def pushEventInternal_def createManager_def
  addInternalServiceManager_def shouldQuit_def shouldAddQuitEvent_def eq_processEvent_def

lemma ex_queue_events:
  "eq_events ex_queue = [\<lparr>ev_id = 0, ev_origin = 0, ev_priority = 7, ev_payload = QuitEvent\<rparr>,
     \<lparr>ev_id = 1, ev_origin = 0, ev_priority = 7, ev_payload = DoWorkEvent\<rparr>]"
  by (simp add: ex_queue_def queue_eval container_eval manager_eval spq_push_def sift_up.simps parent_def
      OrderedPriorityQueueCompare_def Let_def)

theorem ordered_queue_fifo_witness:
  "\<exists>e q'. eq_round OrderedPriorityQueueCompare quiet_env 99 False 0 ex_queue = Some (Handles e, q') \<and> ev_payload e = QuitEvent \<and>
     (\<forall>x \<in> set (eq_events ex_queue). x \<noteq> e \<longrightarrow> (ev_priority e, ev_id e) < (ev_priority x, ev_id x))"
proof -
  have reach: "eq_reachable OrderedPriorityQueueCompare quiet_env 99 ex_queue"
    unfolding ex_queue_def by (rule eq_pushed [OF eq_pushed [OF eq_created prod.collapse [symmetric]] prod.collapse [symmetric]])
  have "\<exists>e q'. eq_round OrderedPriorityQueueCompare quiet_env 99 False 0 ex_queue = Some (Handles e, q') \<and> ev_payload e = QuitEvent"
    by (simp add: eq_round_def ex_queue_def queue_eval event_eval handler_eval container_eval manager_eval handle_quit_def
        quit_service_def allServicesStopped_def Let_def spq_push_def sift_up.simps parent_def OrderedPriorityQueueCompare_def
        spq_pop_def pop_heap_def sift_down.simps swap_at_def larger_child_def)
  then obtain e q' where run: "eq_round OrderedPriorityQueueCompare quiet_env 99 False 0 ex_queue = Some (Handles e, q')"
    "ev_payload e = QuitEvent" by blast
  have "shouldAddQuitEvent OrderedPriorityQueueCompare False 0 ex_queue = ex_queue" by (simp add: shouldAddQuitEvent_def)
  with ordered_queue_fifo [OF reach run(1) refl] run show ?thesis by auto
qed

text \<open>
  C16. The heap is a sorted list in disguise. Pushing events into an empty ordered queue and taking
  them all out again yields them sorted by priority and id, whatever the order in which they were
  pushed.
\<close>

theorem ordered_queue_sorts:
  assumes "distinct (map ev_id es)"
  shows "spq_drain OrderedPriorityQueueCompare (length es) (fold (spq_push OrderedPriorityQueueCompare) es []) =
    sort_key (\<lambda>e. (ev_priority e, ev_id e)) es"
proof -
  let ?cmp = OrderedPriorityQueueCompare let ?key = "\<lambda>e. (ev_priority e, ev_id e)"
  have heap: "is_heap ?cmp (fold (spq_push ?cmp) es q) \<and> mset (fold (spq_push ?cmp) es q) = mset q + mset es"
    if "is_heap ?cmp q" for q
    using that by (induction es arbitrary: q) (simp_all add: ordered.spq.ok_push)
  let ?q = "fold (spq_push ?cmp) es []" let ?d = "spq_drain ?cmp (length es) ?q"
  have q: "is_heap ?cmp ?q" "mset ?q = mset es" using heap [of "[]"] by simp_all
  then have m: "mset ?d = mset es"
    using ordered.drain_mset [OF q(1), of "length es"] mset_eq_length [OF q(2)] by simp
  have "sorted_wrt (\<lambda>x y. \<not> ?cmp x y) ?d" by (rule ordered.drain_sorted [OF q(1)])
  then have sorted: "sorted (map ?key ?d)"
    by (simp add: sorted_map OrderedPriorityQueueCompare_def) (rule sorted_wrt_mono_rel; auto split: if_splits)
  have "distinct (map ?key es)" using assms by (auto simp: distinct_map inj_on_def)
  then have inj: "inj_on ?key (set es)" by (simp add: distinct_map)
  show ?thesis using sort_key_inj_key_eq [OF m [symmetric] inj sorted] by simp
qed

theorem ordered_queue_sorts_witness:
  "spq_drain OrderedPriorityQueueCompare 2 (fold (spq_push OrderedPriorityQueueCompare)
     [(ex_event DoWorkEvent)\<lparr>ev_id := 2\<rparr>, (ex_event QuitEvent)\<lparr>ev_id := 1\<rparr>] []) =
   [(ex_event QuitEvent)\<lparr>ev_id := 1\<rparr>, (ex_event DoWorkEvent)\<lparr>ev_id := 2\<rparr>]"
  using ordered_queue_sorts [of "[(ex_event DoWorkEvent)\<lparr>ev_id := 2\<rparr>, (ex_event QuitEvent)\<lparr>ev_id := 1\<rparr>]"]
  by (simp add: ex_event_def numeral_2_eq_2 less_prod_def less_eq_prod_def)

section \<open>Quitting on \<^verbatim>\<open>SIGINT\<close>\<close>

lemma round_timeout:
  assumes "eq_quitEventSent q" and "eq_whenQuitEventWasSent q + eq_quitTimeoutMs q \<le> now"
  shows "\<exists>q'. eq_round cmp env iservice True now q = Some (Quits, q') \<and> eq_dm q' = eq_dm q"
proof -
  have "shouldQuit True now q = (True, q\<lparr>eq_quit := True\<rparr>)"
    using assms by (simp add: shouldQuit_def Let_def le_diff_conv2 add.commute)
  then show ?thesis by (simp add: eq_round_def)
qed

lemma add_quit_fields:
  "eq_quitTimeoutMs (shouldAddQuitEvent cmp sigint now q) = eq_quitTimeoutMs q"
  "\<not> eq_quitEventSent q \<Longrightarrow> eq_quitEventSent (shouldAddQuitEvent cmp True now q)"
  "\<not> eq_quitEventSent q \<Longrightarrow> eq_whenQuitEventWasSent (shouldAddQuitEvent cmp True now q) = now"
  by (simp_all add: shouldAddQuitEvent_def pushPrioritisedEvent_def)

lemma first_sigint_round:
  assumes "eq_round cmp env iservice True t0 q = Some (r, q1)" and "r \<noteq> Quits" and "\<not> eq_quitEventSent q"
  shows "eq_quitEventSent q1 \<and> eq_whenQuitEventWasSent q1 = t0 \<and> eq_quitTimeoutMs q1 = eq_quitTimeoutMs q"
  using assms(1)
proof (cases rule: eq_round_cases)
  case (handles e rest st)
  then show ?thesis using add_quit_fields assms(3) by simp
qed (use assms(2,3) add_quit_fields in simp_all)



text \<open>Stopping the manager from outside takes every active service directly to its stop.\<close>

lemma stop_each_active:
  assumes "sid \<in> set sids" and "get_mgr st sid = Some m" and "m_state m = ACTIVE" and "m_kind m \<noteq> Internal_Manager"
  shows "stop_each env sids st = None"
  using assms
proof (induction sids arbitrary: st m)
  case (Cons x sids)
  have stop: "stop_enter m = None"
    using Cons.prems(3,4) by (cases "m_kind m") (simp_all add: stop_enter_def internal_stop_enter_def)
  show ?case
  proof (rule ccontr)
    assume "stop_each env (x # sids) st \<noteq> None"
    then obtain st' where run: "stop_each env (x # sids) st = Some st'" by blast
    then obtain mx where mx: "get_mgr st x = Some mx" by (auto simp: bind_eq_Some_conv)
    have other: "x \<noteq> sid" if "m_state mx = ACTIVE"
      using run mx stop Cons.prems(2) that by (auto simp: bind_eq_Some_conv)
    then have sid: "sid \<in> set sids \<or> m_state mx \<noteq> ACTIVE \<and> x = sid" using Cons.prems(1) by auto
    show False
    proof (cases "m_state mx = ACTIVE")
      case False
      then show False using run mx Cons sid by (cases "x = sid") auto
    next
      case True
      then obtain m1 out st1 where step: "stop_each env sids st1 = Some st'"
        "(if m_kind mx = Internal_Manager then Some (O_Finished True, put_mgr x m1 st)
          else user env (U_Stop x) (put_mgr x m1 st)) = Some (out, st1)"
        using run mx by (simp add: bind_eq_Some_conv) blast
      have m: "get_mgr (put_mgr x m1 st) sid = Some m" using other [OF True] Cons.prems(2) by simp
      have "same_services (put_mgr x m1 st) st1"
        using step(2) calls.R_user calls.R_refl by (auto split: if_split_asm)
      then obtain p where "get_mgr st1 sid = Some (m\<lparr>m_priority := p\<rparr>)"
        using same_services_Some [OF _ m] by blast
      then show False using Cons.IH [of st1 "m\<lparr>m_priority := p\<rparr>"] Cons.prems(3,4) sid True step(1) by simp
    qed
  qed
qed simp

text \<open>
  C24. When the time for quitting is over while a service is still active, the program aborts instead of
  stopping it. \<^verbatim>\<open>DependencyManager::stop\<close> calls the stop of every active service, but a service refuses
  to be stopped in that state: the check in \<^verbatim>\<open>internal_stop\<close> terminates the program.
\<close>

theorem timeout_with_active_service_aborts:
  assumes "eq_quitEventSent q" and "eq_whenQuitEventWasSent q + eq_quitTimeoutMs q \<le> now"
    and "get_mgr (eq_dm q) sid = Some m" and "m_state m = ACTIVE" and "m_kind m \<noteq> Internal_Manager"
  shows "eq_loop cmp env iservice ((True, now) # inputs) q = None"
proof -
  obtain q' where q': "eq_round cmp env iservice True now q = Some (Quits, q')" "eq_dm q' = eq_dm q"
    using round_timeout [OF assms(1,2)] by blast
  have "sid \<in> set (map fst (dm_services (eq_dm q)))"
    using assms(3) by (force simp: get_mgr_def dm_find_def dest: map_of_SomeD)
  then have "dm_stop env (eq_dm q) = None"
    using stop_each_active [OF _ assms(3-5)] by (simp add: dm_stop_def)
  then show ?thesis by (simp add: q')
qed

theorem timeout_with_active_service_aborts_witness:
  "eq_loop OrderedPriorityQueueCompare quiet_env 99 [(True, 5010)]
     ((createManager 5000 7 8 1)\<lparr>eq_quitEventSent := True, eq_whenQuitEventWasSent := 10,
        eq_dm := (new_manager 7 1)\<lparr>dm_services := [(2, ex_plain\<lparr>m_state := ACTIVE\<rparr>)]\<rparr>\<rparr>) = None"
  by (rule timeout_with_active_service_aborts [where sid = 2 and m = "ex_plain\<lparr>m_state := ACTIVE\<rparr>"])
    (simp_all add: createManager_def container_eval example_eval manager_eval)

end
