(* ===== verification/Base64.thy ===== *)
theory Base64
  imports Ichor_Prelude "HOL-Library.Word"
begin

text \<open>
  \<^verbatim>\<open>src/src/base64/base64.cpp\<close>, which the etcd client uses for its keys and values. Characters and bytes are
  both bytes, as in the source. The two arrays that the loops fill are lists that grow up to their
  size. \<^verbatim>\<open>decode\<close> keeps the length of its input in an \<^verbatim>\<open>int\<close>; inputs are taken to be shorter than that allows.
\<close>

unbundle bit_operations_syntax

type_synonym byte = "8 word"

definition base64_chars :: "byte list" where
  "base64_chars = map of_char ''ABCDEFGHIJKLMNOPQRSTUVWXYZabcdefghijklmnopqrstuvwxyz0123456789+/''"

definition equals_sign :: byte where
  "equals_sign = 61"

definition is_base64 :: "byte \<Rightarrow> bool" where
  "is_base64 c \<longleftrightarrow> 48 \<le> c \<and> c \<le> 57 \<or> 65 \<le> c \<and> c \<le> 90 \<or> 97 \<le> c \<and> c \<le> 122 \<or> c = 43 \<or> c = 47"

section \<open>Encoding\<close>

definition char_array_4 :: "byte list \<Rightarrow> byte list" where
  "char_array_4 a =
     [drop_bit 2 (a ! 0 AND 0xfc),
      push_bit 4 (a ! 0 AND 0x03) + drop_bit 4 (a ! 1 AND 0xf0),
      push_bit 2 (a ! 1 AND 0x0f) + drop_bit 6 (a ! 2 AND 0xc0),
      a ! 2 AND 0x3f]"

definition letter :: "byte \<Rightarrow> byte" where
  "letter v = base64_chars ! unat v"

fun encode_loop :: "byte list \<Rightarrow> byte list \<Rightarrow> byte list \<Rightarrow> byte list \<times> byte list" where
  "encode_loop [] arr ret = (arr, ret)"
| "encode_loop (b # bytes) arr ret =
     (let arr' = arr @ [b]
      in if length arr' = 3 then encode_loop bytes [] (ret @ map letter (char_array_4 arr'))
         else encode_loop bytes arr' ret)"

definition base64_encode :: "byte list \<Rightarrow> byte list" where
  "base64_encode bytes =
     (case encode_loop bytes [] [] of (arr, ret) \<Rightarrow>
        if arr = [] then ret
        else ret @ map letter (take (length arr + 1) (char_array_4 (arr @ replicate (3 - length arr) 0)))
                 @ replicate (3 - length arr) equals_sign)"

section \<open>Decoding\<close>

definition char_array_3 :: "byte list \<Rightarrow> byte list" where
  "char_array_3 a =
     [push_bit 2 (a ! 0) + drop_bit 4 (a ! 1 AND 0x30),
      push_bit 4 (a ! 1 AND 0xf) + drop_bit 2 (a ! 2 AND 0x3c),
      push_bit 6 (a ! 2 AND 0x3) + a ! 3]"

text \<open>\<^verbatim>\<open>base64_chars.find\<close>: a character that is not there yields \<^verbatim>\<open>npos\<close>, which becomes 255 in a byte.\<close>

definition value_of :: "byte \<Rightarrow> byte" where
  "value_of c = (case find_index (\<lambda>x. x = c) base64_chars of None \<Rightarrow> 255 | Some i \<Rightarrow> word_of_nat i)"

fun decode_loop :: "byte list \<Rightarrow> byte list \<Rightarrow> byte list \<Rightarrow> byte list \<times> byte list" where
  "decode_loop [] arr ret = (arr, ret)"
| "decode_loop (c # str) arr ret =
     (if c = equals_sign \<or> \<not> is_base64 c then (arr, ret)
      else let arr' = arr @ [c]
           in if length arr' = 4 then decode_loop str [] (ret @ char_array_3 (map value_of arr'))
              else decode_loop str arr' ret)"

definition base64_decode :: "byte list \<Rightarrow> byte list" where
  "base64_decode str =
     (case decode_loop str [] [] of (arr, ret) \<Rightarrow>
        if arr = [] then ret
        else ret @ take (length arr - 1) (char_array_3 (map value_of (arr @ replicate (4 - length arr) 0))))"

section \<open>One group\<close>

lemma length_base64_chars [simp]: "length base64_chars = 64"
  by (simp add: base64_chars_def)

lemma letters_ok: "distinct base64_chars \<and> list_all (\<lambda>c. is_base64 c \<and> c \<noteq> equals_sign) base64_chars"
  by (simp add: base64_chars_def is_base64_def equals_sign_def)

lemma value_of_letter: "unat v < 64 \<Longrightarrow> value_of (letter v) = v"
  using letters_ok by (simp add: value_of_def letter_def find_index_nth)

lemma byteI:
  fixes a b :: byte
  assumes "bit a 0 = bit b 0" "bit a 1 = bit b 1" "bit a 2 = bit b 2" "bit a 3 = bit b 3"
    "bit a 4 = bit b 4" "bit a 5 = bit b 5" "bit a 6 = bit b 6" "bit a 7 = bit b 7"
  shows "a = b"
proof (rule bit_word_eqI)
  fix n assume "n < LENGTH(8)"
  then have "n = 0 \<or> n = 1 \<or> n = 2 \<or> n = 3 \<or> n = 4 \<or> n = 5 \<or> n = 6 \<or> n = 7" by (simp, presburger)
  then show "bit a n = bit b n" using assms by auto
qed

lemmas bit_eval = bit_push_bit_iff bit_drop_bit_eq bit_and_iff bit_or_iff

lemma add_or: "a AND b = 0 \<Longrightarrow> a + b = a OR b" for a b :: byte
  by (metis add_0 word_plus_and_or)

text \<open>The parts that the code adds have no bits in common.\<close>

lemma joins:
  fixes x y :: byte
  shows "push_bit 4 (x AND 0x03) + drop_bit 4 (y AND 0xf0) = push_bit 4 (x AND 0x03) OR drop_bit 4 (y AND 0xf0)"
    and "push_bit 2 (x AND 0x0f) + drop_bit 6 (y AND 0xc0) = push_bit 2 (x AND 0x0f) OR drop_bit 6 (y AND 0xc0)"
    and "push_bit 2 x + drop_bit 4 (y AND 0x30) = push_bit 2 x OR drop_bit 4 (y AND 0x30)"
    and "push_bit 4 (x AND 0xf) + drop_bit 2 (y AND 0x3c) = push_bit 4 (x AND 0xf) OR drop_bit 2 (y AND 0x3c)"
    and "push_bit 6 (x AND 0x3) + (y AND 0x3f) = push_bit 6 (x AND 0x3) OR (y AND 0x3f)"
  by (rule add_or, rule byteI; simp add: bit_eval)+

lemma char_array_4_or:
  "char_array_4 [x, y, z] =
     [drop_bit 2 (x AND 0xfc), push_bit 4 (x AND 0x03) OR drop_bit 4 (y AND 0xf0),
      push_bit 2 (y AND 0x0f) OR drop_bit 6 (z AND 0xc0), z AND 0x3f]"
  unfolding char_array_4_def joins by simp

lemma char_array_3_or:
  "char_array_3 [a, b, c, d AND 0x3f] =
     [push_bit 2 a OR drop_bit 4 (b AND 0x30), push_bit 4 (b AND 0xf) OR drop_bit 2 (c AND 0x3c),
      push_bit 6 (c AND 0x3) OR (d AND 0x3f)]"
proof -
  have "[a, b, c, d AND 0x3f] ! 3 = d AND 0x3f" by simp
  then show ?thesis unfolding char_array_3_def joins by (simp add: joins(5) del: push_bit_and)
qed

lemma group_roundtrip: "char_array_3 (char_array_4 [x, y, z]) = [x, y, z]"
proof -
  have "push_bit 2 (drop_bit 2 (x AND 0xfc)) OR drop_bit 4 ((push_bit 4 (x AND 0x03) OR drop_bit 4 (y AND 0xf0)) AND 0x30) = x"
    "push_bit 4 ((push_bit 4 (x AND 0x03) OR drop_bit 4 (y AND 0xf0)) AND 0xf) OR
       drop_bit 2 ((push_bit 2 (y AND 0x0f) OR drop_bit 6 (z AND 0xc0)) AND 0x3c) = y"
    "push_bit 6 ((push_bit 2 (y AND 0x0f) OR drop_bit 6 (z AND 0xc0)) AND 0x3) OR (z AND 0x3f) = z"
    by (rule byteI; simp add: bit_eval)+
  then show ?thesis by (simp only: char_array_4_or char_array_3_or)
qed

lemma small: "bit v 6 = False \<Longrightarrow> bit v 7 = False \<Longrightarrow> unat v < 64" for v :: byte
proof -
  assume "bit v 6 = False" "bit v 7 = False"
  then have "v = v AND 0x3f" by (intro byteI; simp add: bit_eval)
  then have "v \<le> 0x3f" by (metis word_and_le1)
  then show ?thesis by (simp add: word_le_nat_alt)
qed

lemma char_array_4_small: "\<forall>v \<in> set (char_array_4 [x, y, z]). unat v < 64"
  unfolding char_array_4_or by (auto; rule small; simp add: bit_eval)

lemma letter_in: "unat v < 64 \<Longrightarrow> is_base64 (letter v) \<and> letter v \<noteq> equals_sign"
  using letters_ok by (simp add: letter_def list_all_length)

section \<open>The loops, group by group\<close>

lemma encode_loop_ret: "encode_loop bs arr ret = (fst (encode_loop bs arr []), ret @ snd (encode_loop bs arr []))"
proof (induction bs arbitrary: arr ret)
  case (Cons b bs)
  show ?case
    using Cons.IH [of "[]" "ret @ map letter (char_array_4 (arr @ [b]))"] Cons.IH [of "[]" "map letter (char_array_4 (arr @ [b]))"]
      Cons.IH [of "arr @ [b]" ret]
    by (simp add: Let_def)
qed simp

lemma decode_loop_ret: "decode_loop cs arr ret = (fst (decode_loop cs arr []), ret @ snd (decode_loop cs arr []))"
proof (induction cs arbitrary: arr ret)
  case (Cons c cs)
  show ?case
    using Cons.IH [of "[]" "ret @ char_array_3 (map value_of (arr @ [c]))"] Cons.IH [of "[]" "char_array_3 (map value_of (arr @ [c]))"]
      Cons.IH [of "arr @ [c]" ret]
    by (simp add: Let_def)
qed simp

lemma encode_group: "base64_encode (x # y # z # bs) = map letter (char_array_4 [x, y, z]) @ base64_encode bs"
proof -
  have "encode_loop (x # y # z # bs) [] [] =
      (fst (encode_loop bs [] []), map letter (char_array_4 [x, y, z]) @ snd (encode_loop bs [] []))"
    using encode_loop_ret [of bs "[]" "map letter (char_array_4 [x, y, z])"] by simp
  then show ?thesis by (simp add: base64_encode_def case_prod_unfold)
qed

lemma decode_group:
  assumes "\<forall>v \<in> set [a, b, c, d]. unat v < 64"
  shows "base64_decode (map letter [a, b, c, d] @ cs) = char_array_3 [a, b, c, d] @ base64_decode cs"
proof -
  have "decode_loop (map letter [a, b, c, d] @ cs) [] [] =
      (fst (decode_loop cs [] []), char_array_3 [a, b, c, d] @ snd (decode_loop cs [] []))"
    using decode_loop_ret [of cs "[]" "char_array_3 [a, b, c, d]"] assms letter_in value_of_letter by simp
  then show ?thesis by (simp add: base64_decode_def case_prod_unfold)
qed

lemma char_array_4_four: "\<exists>a b c d. char_array_4 [x, y, z] = [a, b, c, d]"
  by (simp add: char_array_4_def)

lemma char_array_3_take:
  "take 1 (char_array_3 [a, b, c, d]) = take 1 (char_array_3 [a, b, c', d'])"
  "take 2 (char_array_3 [a, b, c, d]) = take 2 (char_array_3 [a, b, c, d'])"
  by (simp_all add: char_array_3_def)

lemma value_of_zero: "value_of 0 = 255"
proof -
  have "\<forall>c \<in> set base64_chars. c \<noteq> 0" using letters_ok by (auto simp: list_all_iff is_base64_def)
  then have "find_index (\<lambda>x. x = 0) base64_chars = None" unfolding find_index_None by blast
  then show ?thesis by (simp add: value_of_def)
qed

lemma padding_stops: "decode_loop (replicate n equals_sign) arr ret = (arr, ret)"
  by (cases n) simp_all


lemma encode_tail:
  "base64_encode [] = []"
  "base64_encode [x] = map letter (take 2 (char_array_4 [x, 0, 0])) @ replicate 2 equals_sign"
  "base64_encode [x, y] = map letter (take 3 (char_array_4 [x, y, 0])) @ replicate 1 equals_sign"
  by (simp_all add: base64_encode_def numeral_2_eq_2 numeral_3_eq_3)

lemma group_letters: "set (map letter (take n (char_array_4 [x, y, z]))) \<subseteq> set base64_chars"
proof -
  have "letter v \<in> set base64_chars" if "v \<in> set (char_array_4 [x, y, z])" for v
    using char_array_4_small [of x y z] that by (simp add: letter_def)
  then show ?thesis by (auto dest: in_set_takeD)
qed

lemma length_char_array_4 [simp]: "length (char_array_4 a) = 4"
  by (simp add: char_array_4_def)

text \<open>
  The encoding is well formed: its length is four for every three bytes begun, and it consists of
  letters of the alphabet followed by at most two equals signs.
\<close>

lemma base64_encode_shape:
  "length (base64_encode bs) = 4 * ((length bs + 2) div 3) \<and>
   (\<exists>body k. base64_encode bs = body @ replicate k equals_sign \<and> k \<le> 2 \<and> set body \<subseteq> set base64_chars)"
proof (induction "length bs" arbitrary: bs rule: less_induct)
  case less
  consider "bs = []" | x where "bs = [x]" | x y where "bs = [x, y]" | x y z rest where "bs = x # y # z # rest"
    by (cases bs; cases "tl bs"; cases "tl (tl bs)") auto
  then show ?case
  proof cases
    case (2 x)
    show ?thesis
      unfolding 2 encode_tail
      by (intro conjI exI [of _ "map letter (take 2 (char_array_4 [x, 0, 0]))"] exI [of _ 2] group_letters) simp_all
  next
    case (3 x y)
    show ?thesis
      unfolding 3 encode_tail
      by (intro conjI exI [of _ "map letter (take 3 (char_array_4 [x, y, 0]))"] exI [of _ 1] group_letters) simp_all
  next
    case (4 x y z rest)
    then obtain body k where IH: "length (base64_encode rest) = 4 * ((length rest + 2) div 3)"
      "base64_encode rest = body @ replicate k equals_sign" "k \<le> 2" "set body \<subseteq> set base64_chars"
      using less [of rest] by auto
    have "set (map letter (char_array_4 [x, y, z]) @ body) \<subseteq> set base64_chars"
      using group_letters [of 4 x y z] IH(4) by simp
    moreover have "length (base64_encode bs) = 4 * ((length bs + 2) div 3)"
    proof -
      have "(length bs + 2) div 3 = Suc ((length rest + 2) div 3)" by (simp add: 4)
      then show ?thesis using IH(1) by (simp add: 4 encode_group)
    qed
    ultimately show ?thesis using IH(2,3) by (metis 4 append.assoc encode_group)
  qed (simp add: encode_tail)
qed

end
