(* ===== verification/Static_Vector.thy ===== *)
theory Static_Vector
  imports Ichor_Prelude
begin

text \<open>
  \<^verbatim>\<open>src/include/ichor/stl/StaticVector.h\<close>: a vector with room for \<open>N\<close> elements inside the object, which the
  lifecycle managers use for their interfaces.

  The storage is a list of \<open>N\<close> slots. A slot without an object is \<open>None\<close>; it may be constructed but not read.
  Assigning to it is allowed only for types that are sufficiently trivial (\<open>sv_trivial\<close>). \<open>None\<close> as the
  result of an operation stands for undefined behaviour or a failed \<^verbatim>\<open>assert\<close>. Moving an element leaves an object
  behind that is not read before it is overwritten or destroyed, so a move is a copy. Sizes are natural
  numbers: the type of \<^verbatim>\<open>_size\<close> can hold \<open>N\<close>.
\<close>

section \<open>Slots\<close>

record 'a static_vector =
  sv_trivial :: bool
  sv_data :: "'a option list"
  sv_size :: nat

definition sv_capacity :: "'a static_vector \<Rightarrow> nat" where
  "sv_capacity v = length (sv_data v)"

definition sv_empty_vector :: "bool \<Rightarrow> nat \<Rightarrow> 'a static_vector" where
  "sv_empty_vector trivial N = \<lparr>sv_trivial = trivial, sv_data = replicate N None, sv_size = 0\<rparr>"

definition read_at :: "nat \<Rightarrow> 'a static_vector \<Rightarrow> 'a option" where
  "read_at i v = (if i < sv_capacity v then sv_data v ! i else None)"

definition construct_at :: "nat \<Rightarrow> 'a \<Rightarrow> 'a static_vector \<Rightarrow> 'a static_vector option" where
  "construct_at i x v = (if i < sv_capacity v then Some (v\<lparr>sv_data := (sv_data v)[i := Some x]\<rparr>) else None)"

definition assign_at :: "nat \<Rightarrow> 'a \<Rightarrow> 'a static_vector \<Rightarrow> 'a static_vector option" where
  "assign_at i x v =
     (if i < sv_capacity v \<and> (sv_trivial v \<or> sv_data v ! i \<noteq> None) then Some (v\<lparr>sv_data := (sv_data v)[i := Some x]\<rparr>) else None)"

definition destroy_at :: "nat \<Rightarrow> 'a static_vector \<Rightarrow> 'a static_vector option" where
  "destroy_at i v =
     (if i < sv_capacity v \<and> sv_data v ! i \<noteq> None then Some (v\<lparr>sv_data := (sv_data v)[i := None]\<rparr>) else None)"

text \<open>The loops of \<^verbatim>\<open>std::move\<close>, \<^verbatim>\<open>std::move_backward\<close> and of destroying a range, with the number of elements.\<close>

fun move_forward :: "nat \<Rightarrow> nat \<Rightarrow> nat \<Rightarrow> 'a static_vector \<Rightarrow> 'a static_vector option" where
  "move_forward 0 src dst v = Some v"
| "move_forward (Suc n) src dst v =
     Option.bind (read_at src v) (\<lambda>x. Option.bind (assign_at dst x v) (move_forward n (src + 1) (dst + 1)))"

fun move_backward :: "nat \<Rightarrow> nat \<Rightarrow> nat \<Rightarrow> 'a static_vector \<Rightarrow> 'a static_vector option" where
  "move_backward 0 src dst v = Some v"
| "move_backward (Suc n) src dst v =
     Option.bind (read_at (src - 1) v) (\<lambda>x. Option.bind (assign_at (dst - 1) x v) (move_backward n (src - 1) (dst - 1)))"

fun destroy_range :: "nat \<Rightarrow> nat \<Rightarrow> 'a static_vector \<Rightarrow> 'a static_vector option" where
  "destroy_range 0 i v = Some v"
| "destroy_range (Suc n) i v = Option.bind (destroy_at i v) (destroy_range n (i + 1))"

fun construct_range :: "'a list \<Rightarrow> nat \<Rightarrow> 'a static_vector \<Rightarrow> 'a static_vector option" where
  "construct_range [] i v = Some v"
| "construct_range (x # xs) i v = Option.bind (construct_at i x v) (construct_range xs (i + 1))"

section \<open>Operations\<close>

definition sv_index :: "nat \<Rightarrow> 'a static_vector \<Rightarrow> 'a option" where
  "sv_index n v = (if n < sv_size v then read_at n v else None)"

definition sv_front :: "'a static_vector \<Rightarrow> 'a option" where
  "sv_front v = read_at 0 v"

definition sv_back :: "'a static_vector \<Rightarrow> 'a option" where
  "sv_back v = (if sv_size v = 0 then None else read_at (sv_size v - 1) v)"

definition sv_push_back :: "'a \<Rightarrow> 'a static_vector \<Rightarrow> 'a static_vector option" where
  "sv_push_back x v =
     (if sv_size v < sv_capacity v
      then Option.bind (construct_at (sv_size v) x v) (\<lambda>v. Some (v\<lparr>sv_size := sv_size v + 1\<rparr>)) else None)"

definition sv_pop_back :: "'a static_vector \<Rightarrow> 'a static_vector option" where
  "sv_pop_back v =
     (if sv_size v = 0 then None
      else Option.bind (if sv_trivial v then Some v else destroy_at (sv_size v - 1) v)
             (\<lambda>v. Some (v\<lparr>sv_size := sv_size v - 1\<rparr>)))"

definition sv_insert_range :: "nat \<Rightarrow> 'a list \<Rightarrow> 'a static_vector \<Rightarrow> 'a static_vector option" where
  "sv_insert_range pos xs v =
     (let n = length xs; old = sv_size v
      in if old + n \<le> sv_capacity v \<and> pos \<le> old
         then Option.bind (move_backward (old - pos) old (old + n) (v\<lparr>sv_size := old + n\<rparr>)) (construct_range xs pos)
         else None)"

definition sv_insert :: "nat \<Rightarrow> 'a \<Rightarrow> 'a static_vector \<Rightarrow> 'a static_vector option" where
  "sv_insert pos x v =
     (let old = sv_size v
      in if old < sv_capacity v \<and> pos \<le> old
         then Option.bind (move_backward (old - pos) old (old + 1) (v\<lparr>sv_size := old + 1\<rparr>)) (construct_at pos x)
         else None)"

definition sv_insert_n :: "nat \<Rightarrow> nat \<Rightarrow> 'a \<Rightarrow> 'a static_vector \<Rightarrow> 'a static_vector option" where
  "sv_insert_n pos n x v = sv_insert_range pos (replicate n x) v"

definition sv_erase :: "nat \<Rightarrow> 'a static_vector \<Rightarrow> 'a static_vector option" where
  "sv_erase pos v =
     (if pos < sv_size v
      then Option.bind (if pos + 1 \<noteq> sv_size v then move_forward (sv_size v - (pos + 1)) (pos + 1) pos v else Some v) sv_pop_back
      else None)"

definition sv_erase_range :: "nat \<Rightarrow> nat \<Rightarrow> 'a static_vector \<Rightarrow> 'a static_vector option" where
  "sv_erase_range first till v =
     (if first \<le> till \<and> till \<le> sv_size v
      then if first = till then Some v
           else let n = sv_size v - till
                in Option.bind (move_forward n till first v)
                     (\<lambda>v. Option.bind (if sv_trivial v then Some v else destroy_range (sv_size v - (first + n)) (first + n) v)
                        (\<lambda>v. Some (v\<lparr>sv_size := sv_size v - (till - first)\<rparr>)))
      else None)"

definition sv_clear :: "'a static_vector \<Rightarrow> 'a static_vector option" where
  "sv_clear v =
     Option.bind (if sv_trivial v then Some v else destroy_range (sv_size v) 0 v) (\<lambda>v. Some (v\<lparr>sv_size := 0\<rparr>))"

fun sv_push_all :: "'a list \<Rightarrow> 'a static_vector \<Rightarrow> 'a static_vector option" where
  "sv_push_all [] v = Some v"
| "sv_push_all (x # xs) v = Option.bind (sv_push_back x v) (sv_push_all xs)"

definition sv_resize :: "nat \<Rightarrow> 'a \<Rightarrow> 'a static_vector \<Rightarrow> 'a static_vector option" where
  "sv_resize sz c v =
     (if sz \<le> sv_capacity v
      then Option.bind (if sz > sv_size v then sv_push_all (replicate (sz - sv_size v) c) v
                        else if \<not> sv_trivial v then destroy_range (sv_size v - sz) sz v else Some v)
             (\<lambda>v. Some (v\<lparr>sv_size := sz\<rparr>))
      else None)"

definition sv_resize_default :: "nat \<Rightarrow> 'a \<Rightarrow> 'a static_vector \<Rightarrow> 'a static_vector option" where
  "sv_resize_default sz d v =
     (if sz \<le> sv_capacity v
      then if sz > sv_size v then sv_push_all (replicate (sz - sv_size v) d) v
           else if sz < sv_size v then sv_erase_range sz (sv_size v) v
           else Some v
      else None)"

text \<open>\<^verbatim>\<open>assign\<close> never shrinks the vector.\<close>

fun assign_range :: "'a list \<Rightarrow> nat \<Rightarrow> 'a static_vector \<Rightarrow> 'a static_vector option" where
  "assign_range [] i v = Some v"
| "assign_range (x # xs) i v = Option.bind (assign_at i x (v\<lparr>sv_size := max (sv_size v) (i + 1)\<rparr>)) (assign_range xs (i + 1))"

definition sv_assign :: "'a list \<Rightarrow> 'a static_vector \<Rightarrow> 'a static_vector option" where
  "sv_assign xs v = assign_range xs 0 v"

fun assign_loop :: "nat \<Rightarrow> 'a \<Rightarrow> nat \<Rightarrow> 'a static_vector \<Rightarrow> 'a static_vector option" where
  "assign_loop 0 u i v = Some v"
| "assign_loop (Suc n) u i v = Option.bind (assign_at i u v) (assign_loop n u (i + 1))"

definition sv_assign_n :: "nat \<Rightarrow> 'a \<Rightarrow> 'a static_vector \<Rightarrow> 'a static_vector option" where
  "sv_assign_n n u v = (if n \<le> sv_capacity v then assign_loop n u 0 (v\<lparr>sv_size := max (sv_size v) n\<rparr>) else None)"

fun sv_read :: "nat \<Rightarrow> nat \<Rightarrow> 'a static_vector \<Rightarrow> 'a list option" where
  "sv_read 0 i v = Some []"
| "sv_read (Suc n) i v = Option.bind (read_at i v) (\<lambda>x. Option.bind (sv_read n (i + 1) v) (\<lambda>xs. Some (x # xs)))"

definition sv_copy_assign :: "'a static_vector \<Rightarrow> 'a static_vector \<Rightarrow> 'a static_vector option" where
  "sv_copy_assign other v =
     (if sv_size other \<le> sv_capacity v
      then Option.bind (sv_clear v) (\<lambda>v. Option.bind (sv_read (sv_size other) 0 other) (\<lambda>xs. sv_push_all xs v))
      else None)"

text \<open>The comparisons of \<^verbatim>\<open>IStaticVector\<close>; \<open>le\<close> and \<open>lt\<close> are those of the elements.\<close>

fun lexicographical_compare :: "('a \<Rightarrow> 'a \<Rightarrow> bool) \<Rightarrow> 'a list \<Rightarrow> 'a list \<Rightarrow> bool" where
  "lexicographical_compare lt xs [] = False"
| "lexicographical_compare lt [] (y # ys) = True"
| "lexicographical_compare lt (x # xs) (y # ys) =
     (if lt x y then True else if lt y x then False else lexicographical_compare lt xs ys)"

definition sv_list :: "'a static_vector \<Rightarrow> 'a list" where
  "sv_list v = map the (take (sv_size v) (sv_data v))"

definition sv_equal :: "'a static_vector \<Rightarrow> 'a static_vector \<Rightarrow> bool" where
  "sv_equal a b \<longleftrightarrow> sv_size a = sv_size b \<and> sv_list a = sv_list b"

definition sv_less :: "('a \<Rightarrow> 'a \<Rightarrow> bool) \<Rightarrow> 'a static_vector \<Rightarrow> 'a static_vector \<Rightarrow> bool" where
  "sv_less lt a b \<longleftrightarrow> sv_size a < sv_size b \<and> lexicographical_compare lt (sv_list a) (sv_list b)"

definition sv_less_equal :: "('a \<Rightarrow> 'a \<Rightarrow> bool) \<Rightarrow> 'a static_vector \<Rightarrow> 'a static_vector \<Rightarrow> bool" where
  "sv_less_equal lt a b \<longleftrightarrow> \<not> sv_less lt b a"

section \<open>Loops over slots\<close>

definition sv_repr :: "'a static_vector \<Rightarrow> 'a list \<Rightarrow> bool" where
  "sv_repr v xs \<longleftrightarrow>
     (\<exists>rest. sv_data v = map Some xs @ rest \<and> sv_size v = length xs \<and> (sv_trivial v \<or> (\<forall>r \<in> set rest. r = None)))"

lemma slot_update: "length pre = i \<Longrightarrow> (pre @ r # post)[i := x] = pre @ x # post"
  by auto

lemma slot_read: "length pre = i \<Longrightarrow> (pre @ r # post) ! i = r"
  by auto

lemma construct_range_data:
  assumes "sv_data v = pre @ gap @ post" and "length gap = length xs"
  shows "construct_range xs (length pre) v = Some (v\<lparr>sv_data := pre @ map Some xs @ post\<rparr>)"
  using assms
proof (induction xs arbitrary: v pre gap)
  case (Cons x xs)
  obtain g gap' where gap: "gap = g # gap'" using Cons.prems(2) by (cases gap) auto
  let ?v = "v\<lparr>sv_data := (pre @ [Some x]) @ gap' @ post\<rparr>"
  have "construct_at (length pre) x v = Some ?v"
    using Cons.prems gap by (simp add: construct_at_def sv_capacity_def slot_update)
  then show ?case using Cons.IH [of ?v "pre @ [Some x]" gap'] Cons.prems(2) gap by simp
qed simp

lemma destroy_range_data:
  assumes "sv_data v = pre @ map Some ys @ post"
  shows "destroy_range (length ys) (length pre) v = Some (v\<lparr>sv_data := pre @ replicate (length ys) None @ post\<rparr>)"
  using assms
proof (induction ys arbitrary: v pre)
  case (Cons y ys)
  let ?v = "v\<lparr>sv_data := (pre @ [None]) @ map Some ys @ post\<rparr>"
  have "destroy_at (length pre) v = Some ?v"
    using Cons.prems by (simp add: destroy_at_def sv_capacity_def slot_update slot_read)
  then show ?case using Cons.IH [of ?v "pre @ [None]"] by simp
qed simp

lemma move_forward_data:
  assumes "sv_data v = pre @ map Some gs @ map Some ys @ post" and "gs \<noteq> []"
  shows "move_forward (length ys) (length pre + length gs) (length pre) v =
    Some (v\<lparr>sv_data := pre @ map Some ys @ map Some (drop (length ys) (gs @ ys)) @ post\<rparr>)"
  using assms
proof (induction ys arbitrary: v pre gs)
  case (Cons y ys)
  obtain g gs' where gs: "gs = g # gs'" using Cons.prems(2) by (cases gs) auto
  let ?v = "v\<lparr>sv_data := (pre @ [Some y]) @ map Some (gs' @ [y]) @ map Some ys @ post\<rparr>"
  have "read_at (length pre + length gs) v = Some y"
    using Cons.prems(1) by (simp add: read_at_def sv_capacity_def nth_append)
  moreover have "assign_at (length pre) y v = Some ?v"
    using Cons.prems(1) gs by (simp add: assign_at_def sv_capacity_def slot_update slot_read)
  ultimately show ?case using Cons.IH [of ?v "pre @ [Some y]" "gs' @ [y]"] gs by simp
qed simp

lemma move_backward_data:
  assumes "sv_data v = pre @ map Some ys @ gap @ post" and "gap \<noteq> []" and "sv_trivial v \<or> ys = []"
  shows "move_backward (length ys) (length pre + length ys) (length pre + length ys + length gap) v =
    Some (v\<lparr>sv_data := pre @ take (length gap) (map Some ys @ gap) @ map Some ys @ post\<rparr>)"
  using assms
proof (induction ys arbitrary: v gap post rule: rev_induct)
  case (snoc y ys)
  obtain gap' g where gap: "gap = gap' @ [g]" using snoc.prems(2) by (cases gap rule: rev_cases) auto
  let ?v = "v\<lparr>sv_data := pre @ map Some ys @ (Some y # gap') @ Some y # post\<rparr>"
  have "read_at (length pre + length ys) v = Some y"
    using snoc.prems(1) by (simp add: read_at_def sv_capacity_def nth_append)
  moreover have "assign_at (length pre + length ys + length gap) y v = Some ?v"
    using snoc.prems gap slot_update [of "pre @ map Some ys @ Some y # gap'" "length pre + length ys + length gap" g post "Some y"]
    by (simp add: assign_at_def sv_capacity_def)
  moreover have "take (Suc (length gap') - length ys) (Some y # gap' @ [g]) = take (Suc (length gap') - length ys) (Some y # gap')"
    using take_append [of "Suc (length gap') - length ys" "Some y # gap'" "[g]"] by simp
  ultimately show ?case
    using snoc.IH [of ?v "Some y # gap'" "Some y # post"] snoc.prems(3) gap by simp
qed simp

section \<open>Operations and lists\<close>

text \<open>
  The operations as a client calls them, on the vector and on the list of its elements. On the list an
  operation fails when it exceeds the capacity or a position is out of range.
\<close>

datatype 'a sv_op =
    Push_Back 'a | Pop_Back | Insert nat 'a | Insert_N nat nat 'a | Insert_Range nat "'a list" | Erase nat | Erase_Range nat nat
  | Clear | Resize nat 'a | Resize_Default nat 'a | Copy_Assign "'a static_vector"

fun sv_step :: "'a sv_op \<Rightarrow> 'a static_vector \<Rightarrow> 'a static_vector option" where
  "sv_step (Push_Back x) v = sv_push_back x v"
| "sv_step Pop_Back v = sv_pop_back v"
| "sv_step (Insert i x) v = sv_insert i x v"
| "sv_step (Insert_N i n x) v = sv_insert_n i n x v"
| "sv_step (Insert_Range i xs) v = sv_insert_range i xs v"
| "sv_step (Erase i) v = sv_erase i v"
| "sv_step (Erase_Range i j) v = sv_erase_range i j v"
| "sv_step Clear v = sv_clear v"
| "sv_step (Resize n x) v = sv_resize n x v"
| "sv_step (Resize_Default n x) v = sv_resize_default n x v"
| "sv_step (Copy_Assign w) v = sv_copy_assign w v"

fun list_step :: "nat \<Rightarrow> 'a sv_op \<Rightarrow> 'a list \<Rightarrow> 'a list option" where
  "list_step N (Push_Back x) xs = (if length xs < N then Some (xs @ [x]) else None)"
| "list_step N Pop_Back xs = (if xs \<noteq> [] then Some (butlast xs) else None)"
| "list_step N (Insert i x) xs = (if length xs < N \<and> i \<le> length xs then Some (take i xs @ x # drop i xs) else None)"
| "list_step N (Insert_N i n x) xs =
     (if length xs + n \<le> N \<and> i \<le> length xs then Some (take i xs @ replicate n x @ drop i xs) else None)"
| "list_step N (Insert_Range i ys) xs =
     (if length xs + length ys \<le> N \<and> i \<le> length xs then Some (take i xs @ ys @ drop i xs) else None)"
| "list_step N (Erase i) xs = (if i < length xs then Some (take i xs @ drop (i + 1) xs) else None)"
| "list_step N (Erase_Range i j) xs = (if i \<le> j \<and> j \<le> length xs then Some (take i xs @ drop j xs) else None)"
| "list_step N Clear xs = Some []"
| "list_step N (Resize n x) xs = (if n \<le> N then Some (take n xs @ replicate (n - length xs) x) else None)"
| "list_step N (Resize_Default n x) xs = (if n \<le> N then Some (take n xs @ replicate (n - length xs) x) else None)"
| "list_step N (Copy_Assign w) xs = (if sv_repr w (sv_list w) \<and> sv_size w \<le> N then Some (sv_list w) else None)"

lemma sv_reprE:
  assumes "sv_repr v xs"
  obtains rest where "sv_data v = map Some xs @ rest" "sv_size v = length xs" "sv_trivial v \<or> (\<forall>r \<in> set rest. r = None)"
    "sv_capacity v = length xs + length rest"
  using assms by (auto simp: sv_repr_def sv_capacity_def)

lemma sv_reprI:
  "sv_data v = map Some xs @ rest \<Longrightarrow> sv_size v = length xs \<Longrightarrow> sv_trivial v \<or> (\<forall>r \<in> set rest. r = None) \<Longrightarrow> sv_repr v xs"
  by (auto simp: sv_repr_def)

definition sv_yields :: "'a static_vector \<Rightarrow> 'a static_vector option \<Rightarrow> 'a list \<Rightarrow> bool" where
  "sv_yields v r xs \<longleftrightarrow> (\<exists>v'. r = Some v' \<and> sv_repr v' xs \<and> sv_capacity v' = sv_capacity v \<and> sv_trivial v' = sv_trivial v)"

lemma sv_yieldsI:
  assumes "r = Some v'" and "sv_data v' = map Some xs @ rest" and "sv_size v' = length xs"
    and "sv_trivial v' \<or> (\<forall>r \<in> set rest. r = None)" and "sv_capacity v' = sv_capacity v" and "sv_trivial v' = sv_trivial v"
  shows "sv_yields v r xs"
  using assms sv_reprI unfolding sv_yields_def by blast

lemma push_back_repr:
  assumes "sv_repr v xs" and "length xs < sv_capacity v"
  shows "sv_yields v (sv_push_back x v) (xs @ [x])"
proof -
  obtain rest where r: "sv_data v = map Some xs @ rest" "sv_size v = length xs" "sv_trivial v \<or> (\<forall>r \<in> set rest. r = None)"
    "sv_capacity v = length xs + length rest" using assms(1) by (rule sv_reprE)
  obtain g rest' where g: "rest = g # rest'" using assms(2) r(4) by (cases rest) auto
  then have "sv_push_back x v = Some (v\<lparr>sv_data := map Some xs @ Some x # rest', sv_size := length xs + 1\<rparr>)"
    using r by (simp add: sv_push_back_def construct_at_def slot_update)
  then show ?thesis by (rule sv_yieldsI [where rest = rest']) (use r g in \<open>auto simp: sv_capacity_def\<close>)
qed

lemma push_all_repr:
  assumes "sv_repr v xs" and "length xs + length ys \<le> sv_capacity v"
  shows "sv_yields v (sv_push_all ys v) (xs @ ys)"
  using assms
proof (induction ys arbitrary: v xs)
  case (Cons y ys)
  obtain w where w: "sv_push_back y v = Some w" "sv_repr w (xs @ [y])" "sv_capacity w = sv_capacity v" "sv_trivial w = sv_trivial v"
    using push_back_repr [OF Cons.prems(1), of y] Cons.prems(2) by (auto simp: sv_yields_def)
  show ?case using Cons.IH [OF w(2)] Cons.prems(2) w by (auto simp: sv_yields_def)
qed (simp add: sv_yields_def)

lemma pop_back_repr:
  assumes "sv_repr v xs" and "xs \<noteq> []"
  shows "sv_yields v (sv_pop_back v) (butlast xs)"
proof -
  obtain rest where r: "sv_data v = map Some xs @ rest" "sv_size v = length xs" "sv_trivial v \<or> (\<forall>r \<in> set rest. r = None)"
    "sv_capacity v = length xs + length rest" using assms(1) by (rule sv_reprE)
  obtain ys y where xs: "xs = ys @ [y]" using assms(2) by (cases xs rule: rev_cases) auto
  show ?thesis
  proof (cases "sv_trivial v")
    case True
    then have "sv_pop_back v = Some (v\<lparr>sv_size := length ys\<rparr>)" using r xs by (simp add: sv_pop_back_def)
    then show ?thesis by (rule sv_yieldsI [where rest = "Some y # rest"]) (use r xs True in \<open>auto simp: sv_capacity_def\<close>)
  next
    case False
    have "destroy_at (length ys) v = Some (v\<lparr>sv_data := map Some ys @ None # rest\<rparr>)"
      using r xs by (simp add: destroy_at_def slot_update slot_read)
    then have "sv_pop_back v = Some (v\<lparr>sv_data := map Some ys @ None # rest, sv_size := length ys\<rparr>)"
      using r xs False by (simp add: sv_pop_back_def)
    then show ?thesis by (rule sv_yieldsI [where rest = "None # rest"]) (use r xs False in \<open>auto simp: sv_capacity_def\<close>)
  qed
qed

lemma move_backward_self:
  assumes "sv_data v = pre @ map Some ys @ post"
  shows "move_backward (length ys) (length pre + length ys) (length pre + length ys) v = Some v"
  using assms
proof (induction ys arbitrary: post rule: rev_induct)
  case (snoc y ys)
  have "read_at (length pre + length ys) v = Some y" "assign_at (length pre + length ys) y v = Some v"
    using snoc.prems slot_update [of "pre @ map Some ys" "length pre + length ys" "Some y" post "Some y"]
    by (simp_all add: read_at_def assign_at_def sv_capacity_def nth_append)
  then show ?case using snoc.IH [of "Some y # post"] snoc.prems by simp
qed simp

lemma insert_range_repr:
  assumes "sv_repr v xs" and "length xs + length ys \<le> sv_capacity v" and "pos \<le> length xs" and "sv_trivial v \<or> pos = length xs"
  shows "sv_yields v (sv_insert_range pos ys v) (take pos xs @ ys @ drop pos xs)"
proof -
  obtain rest where r: "sv_data v = map Some xs @ rest" "sv_size v = length xs" "sv_trivial v \<or> (\<forall>r \<in> set rest. r = None)"
    "sv_capacity v = length xs + length rest" using assms(1) by (rule sv_reprE)
  let ?n = "length ys" let ?a = "take pos xs" let ?b = "drop pos xs"
  let ?gap = "take ?n rest" let ?post = "drop ?n rest"
  let ?w = "v\<lparr>sv_size := length xs + ?n\<rparr>"
  have gap: "length ?gap = ?n" using assms(2) r(4) by simp
  have data: "sv_data ?w = map Some ?a @ map Some ?b @ ?gap @ ?post" by (simp add: r(1) flip: map_append append_assoc)
  have "\<exists>mid. move_backward (length xs - pos) (length xs) (length xs + ?n) ?w = Some (?w\<lparr>sv_data := map Some ?a @ mid @ map Some ?b @ ?post\<rparr>) \<and>
      length mid = ?n"
  proof (cases "ys = []")
    case True
    then show ?thesis using move_backward_self [of ?w "map Some ?a" ?b rest] data assms(3) by (cases v) simp
  next
    case False
    then have "?gap \<noteq> []" using gap by auto
    then have "move_backward (length xs - pos) (length xs) (length xs + ?n) ?w =
        Some (?w\<lparr>sv_data := map Some ?a @ take (length ?gap) (map Some ?b @ ?gap) @ map Some ?b @ ?post\<rparr>)"
      using move_backward_data [OF data] assms(3,4) gap by auto
    then show ?thesis using gap by (intro exI [of _ "take (length ?gap) (map Some ?b @ ?gap)"]) simp
  qed
  then obtain mid where mid: "length mid = ?n"
    "move_backward (length xs - pos) (length xs) (length xs + ?n) ?w = Some (?w\<lparr>sv_data := map Some ?a @ mid @ map Some ?b @ ?post\<rparr>)" by blast
  have "construct_range ys pos (?w\<lparr>sv_data := map Some ?a @ mid @ map Some ?b @ ?post\<rparr>) =
      Some (?w\<lparr>sv_data := map Some ?a @ map Some ys @ map Some ?b @ ?post\<rparr>)"
    using construct_range_data [of "?w\<lparr>sv_data := map Some ?a @ mid @ map Some ?b @ ?post\<rparr>" "map Some ?a" mid] mid(1) assms(3) by simp
  then have "sv_insert_range pos ys v = Some (?w\<lparr>sv_data := map Some ?a @ map Some ys @ map Some ?b @ ?post\<rparr>)"
    using mid(2) assms(2,3) r(2,4) by (simp add: sv_insert_range_def Let_def)
  then show ?thesis
    by (rule sv_yieldsI [where rest = ?post]) (use r assms(2,3) in \<open>auto simp: sv_capacity_def dest: in_set_dropD\<close>)
qed

lemma insert_as_range: "sv_insert pos x v = sv_insert_range pos [x] v"
proof -
  have "construct_range [x] pos = construct_at pos x"
  proof
    show "construct_range [x] pos w = construct_at pos x w" for w by (cases "construct_at pos x w") simp_all
  qed
  then show ?thesis by (simp add: sv_insert_def sv_insert_range_def Let_def Suc_le_eq)
qed

lemma erase_range_repr:
  assumes "sv_repr v (a @ g @ b)"
  shows "sv_yields v (sv_erase_range (length a) (length a + length g) v) (a @ b)"
proof (cases "g = []")
  case True
  then show ?thesis using assms by (auto simp: sv_erase_range_def sv_yields_def sv_repr_def)
next
  case False
  obtain rest where r: "sv_data v = map Some (a @ g @ b) @ rest" "sv_size v = length (a @ g @ b)"
    "sv_trivial v \<or> (\<forall>r \<in> set rest. r = None)" "sv_capacity v = length (a @ g @ b) + length rest" using assms by (rule sv_reprE)
  define t where "t = drop (length b) (g @ b)"
  have t: "length t = length g" by (simp add: t_def)
  let ?w = "v\<lparr>sv_data := map Some a @ map Some b @ map Some t @ rest\<rparr>"
  have moved: "move_forward (length b) (length a + length g) (length a) v = Some ?w"
    using move_forward_data [of v "map Some a" g b rest] r(1) False by (simp add: t_def)
  show ?thesis
  proof (cases "sv_trivial v")
    case True
    then have "sv_erase_range (length a) (length a + length g) v = Some (?w\<lparr>sv_size := length a + length b\<rparr>)"
      using False r(2) moved by (simp add: sv_erase_range_def Let_def)
    then show ?thesis
      by (rule sv_yieldsI [where rest = "map Some t @ rest"]) (use r t True in \<open>auto simp: sv_capacity_def\<close>)
  next
    case nontrivial: False
    have "destroy_range (length g) (length a + length b) ?w = Some (?w\<lparr>sv_data := map Some a @ map Some b @ replicate (length g) None @ rest\<rparr>)"
      using destroy_range_data [of ?w "map Some a @ map Some b" t rest] t by simp
    then have "sv_erase_range (length a) (length a + length g) v =
        Some (?w\<lparr>sv_data := map Some a @ map Some b @ replicate (length g) None @ rest, sv_size := length a + length b\<rparr>)"
      using False nontrivial r(2) moved by (simp add: sv_erase_range_def Let_def)
    then show ?thesis
      by (rule sv_yieldsI [where rest = "replicate (length g) None @ rest"]) (use r t nontrivial in \<open>auto simp: sv_capacity_def\<close>)
  qed
qed

lemma erase_repr:
  assumes "sv_repr v (a @ g # b)"
  shows "sv_yields v (sv_erase (length a) v) (a @ b)"
proof -
  obtain rest where r: "sv_data v = map Some (a @ g # b) @ rest" "sv_size v = length (a @ g # b)"
    "sv_trivial v \<or> (\<forall>r \<in> set rest. r = None)" "sv_capacity v = length (a @ g # b) + length rest" using assms by (rule sv_reprE)
  define t where "t = last (g # b)"
  let ?w = "v\<lparr>sv_data := map Some a @ map Some b @ Some t # rest\<rparr>"
  have "drop (length b) (g # b) = [t]" unfolding t_def using append_butlast_last_id [of "g # b"] by (metis append_eq_conv_conj length_butlast length_Cons diff_Suc_1 list.distinct(1))
  then have "Option.bind (if length a + 1 \<noteq> sv_size v then move_forward (sv_size v - (length a + 1)) (length a + 1) (length a) v else Some v) sv_pop_back
      = sv_pop_back ?w"
    using move_forward_data [of v "map Some a" "[g]" b rest] r(1,2) by (cases "b = []"; cases v) (auto simp: t_def)
  then have e: "sv_erase (length a) v = sv_pop_back ?w" using r(2) by (simp add: sv_erase_def)
  have "sv_repr ?w ((a @ b) @ [t])" by (rule sv_reprI [where rest = rest]) (use r in auto)
  then have "sv_yields ?w (sv_pop_back ?w) (a @ b)" using pop_back_repr [of ?w "(a @ b) @ [t]"] by (simp add: butlast_append)
  then show ?thesis using r(1) by (simp add: e sv_yields_def sv_capacity_def)
qed

lemma clear_repr:
  assumes "sv_repr v xs"
  shows "sv_yields v (sv_clear v) []"
proof -
  obtain rest where r: "sv_data v = map Some xs @ rest" "sv_size v = length xs" "sv_trivial v \<or> (\<forall>r \<in> set rest. r = None)"
    "sv_capacity v = length xs + length rest" using assms by (rule sv_reprE)
  show ?thesis
  proof (cases "sv_trivial v")
    case True
    then have "sv_clear v = Some (v\<lparr>sv_size := 0\<rparr>)" by (simp add: sv_clear_def)
    then show ?thesis by (rule sv_yieldsI [where rest = "sv_data v"]) (use True in \<open>auto simp: sv_capacity_def\<close>)
  next
    case False
    have "destroy_range (length xs) 0 v = Some (v\<lparr>sv_data := replicate (length xs) None @ rest\<rparr>)"
      using destroy_range_data [of v "[]" xs rest] r(1) by simp
    then have "sv_clear v = Some (v\<lparr>sv_data := replicate (length xs) None @ rest, sv_size := 0\<rparr>)"
      using False r(2) by (simp add: sv_clear_def)
    then show ?thesis
      by (rule sv_yieldsI [where rest = "replicate (length xs) None @ rest"]) (use r False in \<open>auto simp: sv_capacity_def\<close>)
  qed
qed

lemma resize_repr:
  assumes "sv_repr v xs" and "n \<le> sv_capacity v"
  shows "sv_yields v (sv_resize n c v) (take n xs @ replicate (n - length xs) c)"
proof -
  obtain rest where r: "sv_data v = map Some xs @ rest" "sv_size v = length xs" "sv_trivial v \<or> (\<forall>r \<in> set rest. r = None)"
    "sv_capacity v = length xs + length rest" using assms(1) by (rule sv_reprE)
  show ?thesis
  proof (cases "n > length xs")
    case True
    then obtain w where "sv_push_all (replicate (n - length xs) c) v = Some w" "sv_repr w (xs @ replicate (n - length xs) c)"
      "sv_capacity w = sv_capacity v" "sv_trivial w = sv_trivial v"
      using push_all_repr [OF assms(1), of "replicate (n - length xs) c"] assms(2) by (auto simp: sv_yields_def)
    then show ?thesis using True assms(2) r(2) by (auto simp: sv_resize_def sv_yields_def sv_repr_def sv_capacity_def)
  next
    case False
    let ?a = "take n xs" let ?b = "drop n xs"
    have data: "sv_data v = map Some ?a @ map Some ?b @ rest" by (simp add: r(1) flip: map_append append_assoc)
    show ?thesis
    proof (cases "sv_trivial v")
      case True
      then have "sv_resize n c v = Some (v\<lparr>sv_size := n\<rparr>)" using False assms(2) r(2) by (simp add: sv_resize_def)
      then show ?thesis
        by (rule sv_yieldsI [where rest = "map Some ?b @ rest"]) (use data False True in \<open>auto simp: sv_capacity_def\<close>)
    next
      case nontrivial: False
      have "destroy_range (length xs - n) n v = Some (v\<lparr>sv_data := map Some ?a @ replicate (length xs - n) None @ rest\<rparr>)"
        using destroy_range_data [OF data] False by simp
      then have "sv_resize n c v = Some (v\<lparr>sv_data := map Some ?a @ replicate (length xs - n) None @ rest, sv_size := n\<rparr>)"
        using False nontrivial assms(2) r(2) by (simp add: sv_resize_def)
      then show ?thesis
        by (rule sv_yieldsI [where rest = "replicate (length xs - n) None @ rest"]) (use r False nontrivial in \<open>auto simp: sv_capacity_def\<close>)
    qed
  qed
qed

lemma resize_default_repr:
  assumes "sv_repr v xs" and "n \<le> sv_capacity v"
  shows "sv_yields v (sv_resize_default n c v) (take n xs @ replicate (n - length xs) c)"
proof -
  have size: "sv_size v = length xs" using assms(1) by (auto simp: sv_repr_def)
  consider "n > length xs" | "n = length xs" | "n < length xs" by linarith
  then show ?thesis
  proof cases
    case 1
    then show ?thesis using push_all_repr [OF assms(1), of "replicate (n - length xs) c"] assms(2) size by (simp add: sv_resize_default_def)
  next
    case 2
    then show ?thesis using assms size by (simp add: sv_resize_default_def sv_yields_def)
  next
    case 3
    then show ?thesis
      using erase_range_repr [of v "take n xs" "drop n xs" "[]"] assms size by (simp add: sv_resize_default_def)
  qed
qed

lemma sv_read_repr: "sv_data w = pre @ map Some xs @ rest \<Longrightarrow> sv_read (length xs) (length pre) w = Some xs"
proof (induction xs arbitrary: pre)
  case (Cons x xs)
  then have "read_at (length pre) w = Some x" by (simp add: read_at_def sv_capacity_def nth_append)
  then show ?case using Cons.IH [of "pre @ [Some x]"] Cons.prems by simp
qed simp

lemma sv_list_repr: "sv_repr v xs \<Longrightarrow> sv_list v = xs"
  by (auto simp: sv_repr_def sv_list_def comp_def)

lemma copy_assign_repr:
  assumes "sv_repr v xs" and "sv_repr w ys" and "sv_size w \<le> sv_capacity v"
  shows "sv_yields v (sv_copy_assign w v) ys"
proof -
  obtain rest where "sv_data w = map Some ys @ rest" and size: "sv_size w = length ys" using assms(2) by (auto simp: sv_repr_def)
  then have read: "sv_read (sv_size w) 0 w = Some ys" using sv_read_repr [of w "[]" ys rest] by simp
  obtain u where u: "sv_clear v = Some u" "sv_repr u []" "sv_capacity u = sv_capacity v" "sv_trivial u = sv_trivial v"
    using clear_repr [OF assms(1)] by (auto simp: sv_yields_def)
  show ?thesis using push_all_repr [OF u(2), of ys] assms(3) size u read by (simp add: sv_copy_assign_def sv_yields_def)
qed

section \<open>Refinement\<close>

text \<open>Inserting before the end moves elements into raw storage; types that are not trivial do not allow it.\<close>

fun op_allowed :: "bool \<Rightarrow> nat \<Rightarrow> 'a sv_op \<Rightarrow> bool" where
  "op_allowed trivial n (Insert i x) = (trivial \<or> i = n)"
| "op_allowed trivial n (Insert_N i k x) = (trivial \<or> i = n)"
| "op_allowed trivial n (Insert_Range i xs) = (trivial \<or> i = n)"
| "op_allowed trivial n _ = True"

lemma step_refines:
  assumes "sv_repr v xs" and "list_step (sv_capacity v) op xs = Some ys" and "op_allowed (sv_trivial v) (length xs) op"
  shows "sv_yields v (sv_step op v) ys"
proof (cases op)
  case (Push_Back x)
  then show ?thesis using assms push_back_repr [OF assms(1)] by (auto split: if_split_asm)
next
  case Pop_Back
  then show ?thesis using assms pop_back_repr [OF assms(1)] by (auto split: if_split_asm)
next
  case (Insert i x)
  then show ?thesis using assms insert_range_repr [OF assms(1), of "[x]" i] by (auto simp: insert_as_range split: if_split_asm)
next
  case (Insert_N i n x)
  then show ?thesis using assms insert_range_repr [OF assms(1), of "replicate n x" i] by (auto simp: sv_insert_n_def split: if_split_asm)
next
  case (Insert_Range i zs)
  then show ?thesis using assms insert_range_repr [OF assms(1), of zs i] by (auto split: if_split_asm)
next
  case (Erase i)
  then show ?thesis
    using assms erase_repr [of v "take i xs" "xs ! i" "drop (Suc i) xs"] by (auto simp: id_take_nth_drop [symmetric] split: if_split_asm)
next
  case (Erase_Range i j)
  then have ij: "i \<le> j" "j \<le> length xs" "ys = take i xs @ drop j xs" using assms(2) by (auto split: if_split_asm)
  then have "xs = take i xs @ take (j - i) (drop i xs) @ drop j xs" by (metis append_take_drop_id drop_drop le_add_diff_inverse2)
  moreover have "length (take i xs) = i" "i + length (take (j - i) (drop i xs)) = j" using ij by auto
  ultimately show ?thesis
    using Erase_Range assms(1) erase_range_repr [of v "take i xs" "take (j - i) (drop i xs)" "drop j xs"] ij by simp
next
  case Clear
  then show ?thesis using assms clear_repr [OF assms(1)] by simp
next
  case (Resize n x)
  then show ?thesis using assms resize_repr [OF assms(1)] by (auto split: if_split_asm)
next
  case (Resize_Default n x)
  then show ?thesis using assms resize_default_repr [OF assms(1)] by (auto split: if_split_asm)
next
  case (Copy_Assign w)
  then show ?thesis using assms copy_assign_repr [OF assms(1)] by (auto split: if_split_asm)
qed

fun sv_run :: "'a sv_op list \<Rightarrow> 'a static_vector \<Rightarrow> 'a static_vector option" where
  "sv_run [] v = Some v"
| "sv_run (op # ops) v = Option.bind (sv_step op v) (sv_run ops)"

fun list_run :: "bool \<Rightarrow> nat \<Rightarrow> 'a sv_op list \<Rightarrow> 'a list \<Rightarrow> 'a list option" where
  "list_run trivial N [] xs = Some xs"
| "list_run trivial N (op # ops) xs =
     (if op_allowed trivial (length xs) op then Option.bind (list_step N op xs) (list_run trivial N ops) else None)"

lemma run_refines:
  assumes "sv_repr v xs" and "list_run (sv_trivial v) (sv_capacity v) ops xs = Some ys"
  shows "sv_yields v (sv_run ops v) ys"
  using assms
proof (induction ops arbitrary: v xs)
  case (Cons op ops)
  then obtain zs where zs: "op_allowed (sv_trivial v) (length xs) op" "list_step (sv_capacity v) op xs = Some zs"
    "list_run (sv_trivial v) (sv_capacity v) ops zs = Some ys"
    by (auto simp: bind_eq_Some_conv split: if_split_asm)
  obtain w where w: "sv_step op v = Some w" "sv_repr w zs" "sv_capacity w = sv_capacity v" "sv_trivial w = sv_trivial v"
    using step_refines [OF Cons.prems(1) zs(2,1)] by (auto simp: sv_yields_def)
  show ?case using Cons.IH [OF w(2)] zs(3) w by (simp add: sv_yields_def)
qed (simp add: sv_yields_def)

lemma empty_vector_repr: "sv_repr (sv_empty_vector trivial N) []"
  by (auto simp: sv_repr_def sv_empty_vector_def)

text \<open>
  C26. A static vector behaves like a list of bounded length. Every sequence of operations that is allowed on
  the list, starting from an empty vector of any capacity, is defined on the vector: no assertion fails, no
  slot is read that holds no object, nothing is constructed outside the storage, and the elements of the
  vector are those of the list. The operations include inserting and erasing at any position, resizing and
  assignment. For element types that are not trivial, inserting is covered at the end only.
\<close>

theorem static_vector_refines_list:
  assumes "list_run trivial N ops [] = Some xs"
  shows "\<exists>v. sv_run ops (sv_empty_vector trivial N) = Some v \<and> sv_list v = xs \<and> sv_size v = length xs \<and> sv_capacity v = N"
proof -
  let ?v = "sv_empty_vector trivial N"
  have v: "sv_trivial ?v = trivial" "sv_capacity ?v = N" by (simp_all add: sv_empty_vector_def sv_capacity_def)
  obtain v where "sv_run ops ?v = Some v" "sv_repr v xs" "sv_capacity v = N"
    using run_refines [OF empty_vector_repr, of trivial N ops xs, unfolded v, OF assms] unfolding sv_yields_def v by blast
  then show ?thesis using sv_list_repr [of v xs] by (auto simp: sv_repr_def)
qed

theorem static_vector_refines_list_witness:
  "\<exists>v. sv_run [Push_Back (1 :: nat), Insert_N 0 2 7, Erase 1, Resize 4 9] (sv_empty_vector True 4) = Some v \<and> sv_list v = [7, 1, 9, 9]"
proof -
  have "list_run True 4 [Push_Back (1 :: nat), Insert_N 0 2 7, Erase 1, Resize 4 9] [] = Some [7, 1, 9, 9]"
    by (simp add: numeral_2_eq_2)
  then show ?thesis using static_vector_refines_list by blast
qed

text \<open>
  Inserting before the end is undefined for element types that are not trivial. Whatever the elements
  are, making room moves the last element to a slot that holds no object, by assignment.
\<close>

theorem insert_assigns_to_raw_storage:
  assumes "sv_repr v xs" and "\<not> sv_trivial v" and "pos < length xs"
  shows "sv_insert pos x v = None"
proof -
  obtain rest where r: "sv_data v = map Some xs @ rest" "sv_size v = length xs" "sv_trivial v \<or> (\<forall>r \<in> set rest. r = None)"
    "sv_capacity v = length xs + length rest" using assms(1) by (rule sv_reprE)
  obtain n where n: "length xs - pos = Suc n" using assms(3) by (cases "length xs - pos") auto
  show ?thesis
  proof (cases rest)
    case Nil
    then show ?thesis using r by (simp add: sv_insert_def)
  next
    case (Cons g rest')
    then have "assign_at (length xs) y (v\<lparr>sv_size := length xs + 1\<rparr>) = None" for y
      using r assms(2) by (simp add: assign_at_def nth_append)
    then show ?thesis
      using n r(2) by (cases "read_at (length xs - 1) (v\<lparr>sv_size := length xs + 1\<rparr>)") (simp_all add: sv_insert_def Let_def)
  qed
qed

definition ex_vector :: "bool \<Rightarrow> nat list \<Rightarrow> nat static_vector" where
  "ex_vector trivial xs = \<lparr>sv_trivial = trivial, sv_data = map Some xs @ [None], sv_size = length xs\<rparr>"

lemma ex_vector_repr: "sv_repr (ex_vector trivial xs) xs"
  by (simp add: sv_repr_def ex_vector_def)

theorem insert_assigns_to_raw_storage_witness: "sv_insert 0 5 (ex_vector False [1, 2]) = None"
  using insert_assigns_to_raw_storage [OF ex_vector_repr [of False "[1, 2]"], of 0 5] by (simp add: ex_vector_def)

text \<open>
  The comparisons do not order vectors. Of two vectors of the same size neither is less than the other,
  whatever their elements are, so each is less than or equal to the other although they differ; and
  \<^verbatim>\<open>assign\<close> of fewer elements than the vector has keeps the rest.
\<close>

lemma static_vector_order_broken:
  "(sv_size a = sv_size b \<longrightarrow> \<not> sv_less lt a b \<and> sv_less_equal lt a b \<and> sv_less_equal lt b a) \<and>
   map_option sv_list (sv_assign_n 1 9 (ex_vector True [1, 2])) = Some [9, 2]"
  by (simp add: sv_less_def sv_less_equal_def sv_assign_n_def ex_vector_def sv_capacity_def assign_at_def sv_list_def)

end
