(* ===== verification/Robin_Hood.thy ===== *)
theory Robin_Hood
  imports Ichor_Prelude "HOL-Library.Word"
begin

text \<open>
  The hash table of \<^verbatim>\<open>src/include/ankerl/unordered_dense.h\<close> with its bucket array: Robin Hood hashing with
  backward shift deletion over a vector of values. The rest of the development uses the containers through
  the lists of \<^verbatim>\<open>Ichor_Prelude\<close>; this theory shows that the table is such a list, whatever the hash function.

  A bucket holds the distance to the home bucket of its key (from 1, in units of 256) together with the low
  byte of the hash, and the index of the value; 0 is an empty bucket. Both fields have 32 bits; reading
  outside the array is \<open>None\<close>, and so is a loop that does not end. Elements are pairs for maps and keys for
  sets, so the key of an element is a parameter, as is the hash.
\<close>

section \<open>Buckets\<close>

record bucket =
  m_dist_and_fingerprint :: nat
  m_value_idx :: nat

record 'e table =
  m_values :: "'e list"
  m_buckets :: "bucket list"
  m_max_bucket_capacity :: nat
  m_shifts :: nat

definition empty_bucket :: bucket where
  "empty_bucket = \<lparr>m_dist_and_fingerprint = 0, m_value_idx = 0\<rparr>"

definition dist_inc :: "nat \<Rightarrow> nat" where
  "dist_inc x = (x + 256) mod 2 ^ 32"

definition dist_dec :: "nat \<Rightarrow> nat" where
  "dist_dec x = (x + 2 ^ 32 - 256) mod 2 ^ 32"

definition next_idx :: "bucket list \<Rightarrow> nat \<Rightarrow> nat" where
  "next_idx bs i = (if i + 1 = length bs then 0 else (i + 1) mod 2 ^ 32)"

definition bucket_at :: "bucket list \<Rightarrow> nat \<Rightarrow> bucket option" where
  "bucket_at bs i = (if i < length bs then Some (bs ! i) else None)"

definition dist_and_fingerprint_from_hash :: "64 word \<Rightarrow> nat" where
  "dist_and_fingerprint_from_hash h = 256 + unat h mod 256"

definition bucket_idx_from_hash :: "nat \<Rightarrow> 64 word \<Rightarrow> nat" where
  "bucket_idx_from_hash shifts h = unat h div 2 ^ shifts mod 2 ^ 32"

definition max_bucket_count :: nat where
  "max_bucket_count = 2 ^ 32"

definition calc_num_buckets :: "nat \<Rightarrow> nat" where
  "calc_num_buckets shifts = min max_bucket_count (2 ^ (64 - shifts))"

text \<open>
  The load factor \<^verbatim>\<open>0.8F\<close> is \<open>13421773 / 2 ^ 24\<close>; its product with a power of two is exact, and the
  conversion to an integer drops the fraction.
\<close>

definition load_capacity :: "nat \<Rightarrow> nat" where
  "load_capacity n = n * 13421773 div 2 ^ 24"

definition allocate_buckets_from_shift :: "'e table \<Rightarrow> 'e table" where
  "allocate_buckets_from_shift t =
     (let n = calc_num_buckets (m_shifts t)
      in t\<lparr>m_buckets := replicate n empty_bucket,
           m_max_bucket_capacity := (if n = max_bucket_count then max_bucket_count else load_capacity n)\<rparr>)"

definition new_table :: "'e table" where
  "new_table = allocate_buckets_from_shift \<lparr>m_values = [], m_buckets = [], m_max_bucket_capacity = 0, m_shifts = 62\<rparr>"

section \<open>Searching and placing\<close>

partial_function (option) next_while_less :: "bucket list \<Rightarrow> nat \<Rightarrow> nat \<Rightarrow> (nat \<times> nat) option" where
  "next_while_less bs df i =
     (case bucket_at bs i of
        None \<Rightarrow> None
      | Some b \<Rightarrow>
          if df < m_dist_and_fingerprint b then next_while_less bs (dist_inc df) (next_idx bs i) else Some (df, i))"

partial_function (option) place_and_shift_up :: "bucket \<Rightarrow> nat \<Rightarrow> bucket list \<Rightarrow> bucket list option" where
  "place_and_shift_up b place bs =
     (case bucket_at bs place of
        None \<Rightarrow> None
      | Some c \<Rightarrow>
          if m_dist_and_fingerprint c \<noteq> 0
          then place_and_shift_up (c\<lparr>m_dist_and_fingerprint := dist_inc (m_dist_and_fingerprint c)\<rparr>)
                 (next_idx bs place) (bs[place := b])
          else Some (bs[place := b]))"

text \<open>The loop over the buckets of a key: the index of its value, or where a new bucket belongs.\<close>

datatype probe_result = Found nat | Place nat nat

partial_function (option) probe :: "('e \<Rightarrow> 'k) \<Rightarrow> 'e list \<Rightarrow> bucket list \<Rightarrow> 'k \<Rightarrow> nat \<Rightarrow> nat \<Rightarrow> probe_result option" where
  "probe key vs bs k df i =
     (case bucket_at bs i of
        None \<Rightarrow> None
      | Some b \<Rightarrow>
          if df = m_dist_and_fingerprint b \<and> k = key (vs ! m_value_idx b) then Some (Found (m_value_idx b))
          else if df > m_dist_and_fingerprint b then Some (Place df i)
          else probe key vs bs k (dist_inc df) (next_idx bs i))"

text \<open>\<^verbatim>\<open>do_find\<close> looks at two buckets without comparing the distances, then enters the loop.\<close>

definition try_bucket :: "('e \<Rightarrow> 'k) \<Rightarrow> 'e list \<Rightarrow> 'k \<Rightarrow> nat \<Rightarrow> bucket \<Rightarrow> bool" where
  "try_bucket key vs k df b = (df = m_dist_and_fingerprint b \<and> k = key (vs ! m_value_idx b))"

partial_function (option) find_loop :: "('e \<Rightarrow> 'k) \<Rightarrow> 'e list \<Rightarrow> bucket list \<Rightarrow> 'k \<Rightarrow> nat \<Rightarrow> nat \<Rightarrow> nat option option" where
  "find_loop key vs bs k df i =
     (case bucket_at bs i of
        None \<Rightarrow> None
      | Some b \<Rightarrow>
          if df = m_dist_and_fingerprint b \<and> k = key (vs ! m_value_idx b) then Some (Some (m_value_idx b))
          else if df > m_dist_and_fingerprint b then Some None
          else find_loop key vs bs k (dist_inc df) (next_idx bs i))"

definition do_find :: "('k \<Rightarrow> 64 word) \<Rightarrow> ('e \<Rightarrow> 'k) \<Rightarrow> 'k \<Rightarrow> 'e table \<Rightarrow> nat option option" where
  "do_find hash key k t =
     (if m_values t = [] then Some None
      else let bs = m_buckets t; vs = m_values t;
               df = dist_and_fingerprint_from_hash (hash k); i = bucket_idx_from_hash (m_shifts t) (hash k);
               df1 = dist_inc df; i1 = next_idx bs i
           in Option.bind (bucket_at bs i) (\<lambda>b.
                if try_bucket key vs k df b then Some (Some (m_value_idx b))
                else Option.bind (bucket_at bs i1) (\<lambda>b1.
                  if try_bucket key vs k df1 b1 then Some (Some (m_value_idx b1))
                  else find_loop key vs bs k (dist_inc df1) (next_idx bs i1))))"

section \<open>Adding\<close>

fun fill_buckets :: "('k \<Rightarrow> 64 word) \<Rightarrow> ('e \<Rightarrow> 'k) \<Rightarrow> nat \<Rightarrow> nat \<Rightarrow> 'e list \<Rightarrow> bucket list \<Rightarrow> bucket list option" where
  "fill_buckets hash key shifts value_idx [] bs = Some bs"
| "fill_buckets hash key shifts value_idx (v # vs) bs =
     Option.bind (next_while_less bs (dist_and_fingerprint_from_hash (hash (key v)))
                    (bucket_idx_from_hash shifts (hash (key v)))) (\<lambda>(df, i).
     Option.bind (place_and_shift_up \<lparr>m_dist_and_fingerprint = df, m_value_idx = value_idx\<rparr> i bs) (\<lambda>bs'.
     fill_buckets hash key shifts ((value_idx + 1) mod 2 ^ 32) vs bs'))"

definition clear_and_fill_buckets_from_values :: "('k \<Rightarrow> 64 word) \<Rightarrow> ('e \<Rightarrow> 'k) \<Rightarrow> 'e table \<Rightarrow> 'e table option" where
  "clear_and_fill_buckets_from_values hash key t =
     Option.bind (fill_buckets hash key (m_shifts t) 0 (m_values t)
                    (replicate (length (m_buckets t)) empty_bucket)) (\<lambda>bs. Some (t\<lparr>m_buckets := bs\<rparr>))"

definition increase_size :: "('k \<Rightarrow> 64 word) \<Rightarrow> ('e \<Rightarrow> 'k) \<Rightarrow> 'e table \<Rightarrow> 'e table option" where
  "increase_size hash key t =
     (if m_max_bucket_capacity t = max_bucket_count then None
      else clear_and_fill_buckets_from_values hash key
             (allocate_buckets_from_shift (t\<lparr>m_shifts := m_shifts t - 1\<rparr>)))"

definition is_full :: "'e table \<Rightarrow> bool" where
  "is_full t = (length (m_values t) > m_max_bucket_capacity t)"

text \<open>The new value is at the end of the vector already.\<close>

definition place_element :: "('k \<Rightarrow> 64 word) \<Rightarrow> ('e \<Rightarrow> 'k) \<Rightarrow> nat \<Rightarrow> nat \<Rightarrow> 'e table \<Rightarrow> 'e table option" where
  "place_element hash key df i t =
     (let value_idx = (length (m_values t) - 1) mod 2 ^ 32
      in if is_full t then increase_size hash key t
         else Option.bind (place_and_shift_up \<lparr>m_dist_and_fingerprint = df, m_value_idx = value_idx\<rparr> i (m_buckets t))
                (\<lambda>bs. Some (t\<lparr>m_buckets := bs\<rparr>)))"

text \<open>
  \<^verbatim>\<open>try_emplace\<close> constructs the value only when the key is new; \<^verbatim>\<open>emplace\<close> constructs it first and removes it
  again when the key is there. Both say where the value is and whether it is new.
\<close>

definition do_try_emplace :: "('k \<Rightarrow> 64 word) \<Rightarrow> ('e \<Rightarrow> 'k) \<Rightarrow> 'e \<Rightarrow> 'e table \<Rightarrow> ((nat \<times> bool) \<times> 'e table) option" where
  "do_try_emplace hash key e t =
     Option.bind (probe key (m_values t) (m_buckets t) (key e) (dist_and_fingerprint_from_hash (hash (key e)))
                    (bucket_idx_from_hash (m_shifts t) (hash (key e)))) (\<lambda>r.
     case r of
       Found v \<Rightarrow> Some ((v, False), t)
     | Place df i \<Rightarrow> Option.bind (place_element hash key df i (t\<lparr>m_values := m_values t @ [e]\<rparr>))
         (\<lambda>t'. Some ((length (m_values t), True), t')))"

definition emplace :: "('k \<Rightarrow> 64 word) \<Rightarrow> ('e \<Rightarrow> 'k) \<Rightarrow> 'e \<Rightarrow> 'e table \<Rightarrow> ((nat \<times> bool) \<times> 'e table) option" where
  "emplace hash key e t =
     (let t1 = t\<lparr>m_values := m_values t @ [e]\<rparr>
      in Option.bind (probe key (m_values t1) (m_buckets t1) (key e) (dist_and_fingerprint_from_hash (hash (key e)))
                    (bucket_idx_from_hash (m_shifts t1) (hash (key e)))) (\<lambda>r.
         case r of
           Found v \<Rightarrow> Some ((v, False), t1\<lparr>m_values := butlast (m_values t1)\<rparr>)
         | Place df i \<Rightarrow> Option.bind (place_element hash key df i t1) (\<lambda>t'. Some ((length (m_values t1) - 1, True), t'))))"

section \<open>Erasing\<close>

partial_function (option) shift_down :: "nat \<Rightarrow> bucket list \<Rightarrow> bucket list option" where
  "shift_down i bs =
     (case bucket_at bs (next_idx bs i) of
        None \<Rightarrow> None
      | Some c \<Rightarrow>
          if m_dist_and_fingerprint c \<ge> 512
          then shift_down (next_idx bs i)
                 (bs[i := \<lparr>m_dist_and_fingerprint = dist_dec (m_dist_and_fingerprint c), m_value_idx = m_value_idx c\<rparr>])
          else Some (bs[i := empty_bucket]))"

partial_function (option) find_value_idx :: "nat \<Rightarrow> bucket list \<Rightarrow> nat \<Rightarrow> nat option" where
  "find_value_idx v bs i =
     (case bucket_at bs i of
        None \<Rightarrow> None
      | Some b \<Rightarrow> if v \<noteq> m_value_idx b then find_value_idx v bs (next_idx bs i) else Some i)"

definition do_erase :: "('k \<Rightarrow> 64 word) \<Rightarrow> ('e \<Rightarrow> 'k) \<Rightarrow> nat \<Rightarrow> 'e table \<Rightarrow> 'e table option" where
  "do_erase hash key i t =
     Option.bind (bucket_at (m_buckets t) i) (\<lambda>b.
     Option.bind (shift_down i (m_buckets t)) (\<lambda>bs.
     let v = m_value_idx b; vs = m_values t; back = (length vs - 1) mod 2 ^ 32
     in if v \<noteq> length vs - 1
        then let vs' = vs[v := last vs]
             in Option.bind (find_value_idx back bs (bucket_idx_from_hash (m_shifts t) (hash (key (vs' ! v))))) (\<lambda>j.
                Some (t\<lparr>m_values := butlast vs', m_buckets := bs[j := (bs ! j)\<lparr>m_value_idx := v\<rparr>]\<rparr>))
        else Some (t\<lparr>m_values := butlast vs, m_buckets := bs\<rparr>)))"

partial_function (option) erase_probe :: "('e \<Rightarrow> 'k) \<Rightarrow> 'e list \<Rightarrow> bucket list \<Rightarrow> 'k \<Rightarrow> nat \<Rightarrow> nat \<Rightarrow> (nat \<times> nat) option" where
  "erase_probe key vs bs k df i =
     (case bucket_at bs i of
        None \<Rightarrow> None
      | Some b \<Rightarrow>
          if df = m_dist_and_fingerprint b \<and> k \<noteq> key (vs ! m_value_idx b)
          then erase_probe key vs bs k (dist_inc df) (next_idx bs i)
          else Some (df, i))"

definition do_erase_key :: "('k \<Rightarrow> 64 word) \<Rightarrow> ('e \<Rightarrow> 'k) \<Rightarrow> 'k \<Rightarrow> 'e table \<Rightarrow> (nat \<times> 'e table) option" where
  "do_erase_key hash key k t =
     (if m_values t = [] then Some (0, t)
      else Option.bind (next_while_less (m_buckets t) (dist_and_fingerprint_from_hash (hash k))
                          (bucket_idx_from_hash (m_shifts t) (hash k))) (\<lambda>(df, i).
           Option.bind (erase_probe key (m_values t) (m_buckets t) k df i) (\<lambda>(df', i').
           Option.bind (bucket_at (m_buckets t) i') (\<lambda>b.
           if df' \<noteq> m_dist_and_fingerprint b then Some (0, t)
           else Option.bind (do_erase hash key i' t) (\<lambda>t'. Some (1, t'))))))"

definition clear :: "'e table \<Rightarrow> 'e table" where
  "clear t = t\<lparr>m_values := [], m_buckets := replicate (length (m_buckets t)) empty_bucket\<rparr>"

section \<open>What the buckets keep\<close>

text \<open>
  The distance grows by at most one from a bucket to the next one, unless the next one is at home: on the way
  from the home of an entry to the entry, every bucket is at least as far from its own home.
\<close>

abbreviation df :: "bucket \<Rightarrow> nat" where "df \<equiv> m_dist_and_fingerprint"

definition chained :: "bucket \<Rightarrow> bucket \<Rightarrow> bool" where
  "chained b c \<longleftrightarrow> df c < 512 \<or> df c \<le> df b + 256"

definition bucket_ok :: "('k \<Rightarrow> 64 word) \<Rightarrow> ('e \<Rightarrow> 'k) \<Rightarrow> nat \<Rightarrow> nat \<Rightarrow> 'e list \<Rightarrow> nat \<Rightarrow> bucket \<Rightarrow> bool" where
  "bucket_ok hash key shifts n vs i b \<longleftrightarrow>
     (if df b = 0 then m_value_idx b = 0
      else 256 \<le> df b \<and> m_value_idx b < length vs \<and>
           df b mod 256 = unat (hash (key (vs ! m_value_idx b))) mod 256 \<and>
           i = (bucket_idx_from_hash shifts (hash (key (vs ! m_value_idx b))) + (df b div 256 - 1)) mod n)"

definition buckets_ok :: "('k \<Rightarrow> 64 word) \<Rightarrow> ('e \<Rightarrow> 'k) \<Rightarrow> nat \<Rightarrow> 'e list \<Rightarrow> bucket list \<Rightarrow> bool" where
  "buckets_ok hash key shifts vs bs \<longleftrightarrow>
     2 \<le> length bs \<and> length bs \<le> 2 ^ 23 \<and>
     (\<forall>i < length bs. chained (bs ! i) (bs ! ((i + 1) mod length bs))) \<and>
     (\<forall>i < length bs. bucket_ok hash key shifts (length bs) vs i (bs ! i))"

definition entries :: "bucket list \<Rightarrow> nat multiset" where
  "entries bs = image_mset m_value_idx (filter_mset (\<lambda>b. df b \<noteq> 0) (mset bs))"

definition free_at :: "bucket list \<Rightarrow> nat \<Rightarrow> bool" where
  "free_at bs f \<longleftrightarrow> f < length bs \<and> df (bs ! f) = 0"

lemma bucket_okD:
  assumes "bucket_ok hash key shifts n vs i b" and "df b \<noteq> 0"
  shows "256 \<le> df b" "m_value_idx b < length vs"
    "df b mod 256 = unat (hash (key (vs ! m_value_idx b))) mod 256"
    "i = (bucket_idx_from_hash shifts (hash (key (vs ! m_value_idx b))) + (df b div 256 - 1)) mod n"
  using assms by (auto simp: bucket_ok_def)

lemma buckets_okD:
  assumes "buckets_ok hash key shifts vs bs"
  shows "2 \<le> length bs" "length bs \<le> 2 ^ 23"
    "\<And>i. i < length bs \<Longrightarrow> chained (bs ! i) (bs ! ((i + 1) mod length bs))"
    "\<And>i. i < length bs \<Longrightarrow> bucket_ok hash key shifts (length bs) vs i (bs ! i)"
  using assms by (auto simp: buckets_ok_def)

lemma next_idx_mod:
  assumes "i < length bs" and "length bs \<le> 2 ^ 23"
  shows "next_idx bs i = (i + 1) mod length bs"
  using assms by (auto simp: next_idx_def)

lemma reach_position:
  assumes "f < (n :: nat)"
  obtains j where "j < n" "(h + j) mod n = f"
proof
  let ?j = "(f + (n - h mod n)) mod n"
  show "?j < n" using assms by simp
  have "(h + ?j) mod n = (h mod n + (f + (n - h mod n))) mod n" by (simp add: mod_simps)
  also have "h mod n + (f + (n - h mod n)) = f + n" using assms mod_less_divisor [of n h] by linarith
  finally show "(h + ?j) mod n = f" using assms by simp
qed

lemma on_the_way:
  assumes ok: "buckets_ok hash key shifts vs bs" and far: "(m + 1) * 256 + fp \<le> df (bs ! ((h + m) mod length bs))"
    and "j \<le> m"
  shows "(j + 1) * 256 + fp \<le> df (bs ! ((h + j) mod length bs))"
  using far \<open>j \<le> m\<close>
proof (induction m)
  case (Suc m)
  show ?case
  proof (cases "j = Suc m")
    case False
    let ?i = "(h + m) mod length bs"
    have "?i < length bs" using buckets_okD(1) [OF ok] by (intro mod_less_divisor) linarith
    moreover have "(?i + 1) mod length bs = (h + Suc m) mod length bs" by (simp add: mod_simps)
    ultimately have "chained (bs ! ?i) (bs ! ((h + Suc m) mod length bs))" using buckets_okD(3) [OF ok] by metis
    then have "(m + 1) * 256 + fp \<le> df (bs ! ?i)" using Suc.prems(1) by (auto simp: chained_def)
    then show ?thesis using Suc.IH Suc.prems(2) False by simp
  qed (use Suc.prems in simp)
qed simp

lemma distance_bound:
  assumes ok: "buckets_ok hash key shifts vs bs" and free: "free_at bs f" and i: "i < length bs"
  shows "df (bs ! i) < 256 * (length bs + 1)"
proof (cases "df (bs ! i) = 0")
  case False
  let ?n = "length bs" let ?d = "df (bs ! i) div 256 - 1" let ?fp = "df (bs ! i) mod 256"
  note b = bucket_okD [OF buckets_okD(4) [OF ok i] False]
  have eq: "(?d + 1) * 256 + ?fp = df (bs ! i)" using b(1) by (simp add: Suc_leI div_greater_zero_iff)
  show ?thesis
  proof (rule ccontr)
    assume "\<not> ?thesis"
    then have "256 * (?n + 1) div 256 \<le> df (bs ! i) div 256" by (intro div_le_mono) simp
    then have "?n \<le> ?d" by simp
    obtain j where j: "j < ?n" "(bucket_idx_from_hash shifts (hash (key (vs ! m_value_idx (bs ! i)))) + j) mod ?n = f"
      using reach_position free by (metis free_at_def)
    have "(?d + 1) * 256 + ?fp \<le> df (bs ! ((bucket_idx_from_hash shifts (hash (key (vs ! m_value_idx (bs ! i)))) + ?d) mod ?n))"
      by (simp only: eq b(4) [symmetric])
    from on_the_way [OF ok this, of j] j \<open>?n \<le> ?d\<close> have "(j + 1) * 256 + ?fp \<le> df (bs ! f)" by simp
    then show False using free by (simp add: free_at_def)
  qed
qed simp

lemma no_wrap_dist:
  assumes "buckets_ok hash key shifts vs bs" and "free_at bs f" and "i < length bs"
  shows "dist_inc (df (bs ! i)) = df (bs ! i) + 256"
  using distance_bound [OF assms] buckets_okD(2) [OF assms(1)] by (simp add: dist_inc_def)

lemma entries_update:
  assumes "i < length bs"
  shows "entries (bs[i := b]) + (if df (bs ! i) = 0 then {#} else {#m_value_idx (bs ! i)#}) =
    entries bs + (if df b = 0 then {#} else {#m_value_idx b#})"
proof -
  define R where "R = mset bs - {#bs ! i#}"
  have "mset bs = add_mset (bs ! i) R" using assms by (simp add: R_def nth_mem_mset)
  moreover have "mset (bs[i := b]) = add_mset b R" using mset_update [OF assms] by (simp add: R_def)
  ultimately show ?thesis by (simp add: entries_def)
qed

lemma entriesD:
  assumes "v \<in># entries bs"
  obtains i where "i < length bs" "df (bs ! i) \<noteq> 0" "m_value_idx (bs ! i) = v"
  using assms by (auto simp: entries_def in_set_conv_nth)

lemma entriesI: "i < length bs \<Longrightarrow> df (bs ! i) \<noteq> 0 \<Longrightarrow> m_value_idx (bs ! i) \<in># entries bs"
  by (auto simp: entries_def)

lemma size_entries: "size (entries bs) = length (filter (\<lambda>b. df b \<noteq> 0) bs)"
  unfolding entries_def size_image_mset by (metis mset_filter size_mset)

lemma free_exists:
  assumes "size (entries bs) < length bs"
  obtains f where "free_at bs f"
proof -
  have "\<exists>b \<in> set bs. df b = 0"
  proof (rule ccontr)
    assume "\<not> ?thesis"
    then have "filter (\<lambda>b. df b \<noteq> 0) bs = bs" by (simp add: filter_id_conv)
    then show False using assms by (simp add: size_entries)
  qed
  then show ?thesis using that by (auto simp: free_at_def in_set_conv_nth)
qed

section \<open>Placing and shifting\<close>

lemma bucket_ok_further:
  assumes "bucket_ok hash key shifts n vs i b" and "df b \<noteq> 0"
  shows "bucket_ok hash key shifts n vs ((i + 1) mod n) (b\<lparr>m_dist_and_fingerprint := df b + 256\<rparr>)"
proof -
  note b = bucket_okD [OF assms]
  have "df b div 256 \<ge> 1" using b(1) by (simp add: Suc_leI div_greater_zero_iff)
  then show ?thesis using b by (simp add: bucket_ok_def mod_simps div_add_self2)
qed

lemma bucket_ok_nearer:
  assumes "bucket_ok hash key shifts n vs ((i + 1) mod n) b" and "512 \<le> df b" and "i < n"
  shows "bucket_ok hash key shifts n vs i \<lparr>m_dist_and_fingerprint = df b - 256, m_value_idx = m_value_idx b\<rparr>"
proof -
  have nz: "df b \<noteq> 0" using assms(2) by simp
  note b = bucket_okD [OF assms(1) nz]
  let ?h = "bucket_idx_from_hash shifts (hash (key (vs ! m_value_idx b)))"
  obtain m where m: "df b = m + 512" using assms(2) by (metis add.commute le_Suc_ex)
  have "(m + 512) div 256 = m div 256 + 2" using div_mult_self1 [of 256 m 2] by simp
  then have "(i + 1) mod n = (?h + (m div 256 + 1)) mod n" using b(4) by (simp add: m)
  then have "(i + 1 + (n - 1)) mod n = (?h + (m div 256 + 1) + (n - 1)) mod n" by (metis mod_add_left_eq)
  then have "i = (?h + m div 256) mod n" using assms(3) by (simp flip: add.assoc)
  moreover have "m mod 256 = unat (hash (key (vs ! m_value_idx b))) mod 256" using b(3) mod_mult_self1 [of m 2 256] by (simp add: m)
  ultimately show ?thesis using b(2) by (simp add: bucket_ok_def m div_add_self1)
qed

lemma next_neq:
  assumes "i < n" and "2 \<le> (n :: nat)"
  shows "(i + 1) mod n \<noteq> i" "(i + 1) mod n < n"
  using assms by (auto simp: mod_Suc)

lemma next_inj:
  assumes "i < n" and "j < n" and "(i + 1) mod n = (j + 1) mod (n :: nat)"
  shows "i = j"
  using assms by (auto simp: mod_Suc split: if_splits)

lemma buckets_ok_update:
  assumes ok: "buckets_ok hash key shifts vs bs" and p: "p < length bs"
    and b: "bucket_ok hash key shifts (length bs) vs p b"
    and before: "\<forall>i < length bs. (i + 1) mod length bs = p \<longrightarrow> chained (bs ! i) b"
    and after: "chained b (bs ! ((p + 1) mod length bs))"
  shows "buckets_ok hash key shifts vs (bs[p := b])"
proof -
  let ?n = "length bs"
  have "chained (bs[p := b] ! i) (bs[p := b] ! ((i + 1) mod ?n))" if i: "i < ?n" for i
    using buckets_okD(3) [OF ok i] before after i p next_neq [OF p buckets_okD(1) [OF ok]]
    by (auto simp: nth_list_update)
  moreover have "bucket_ok hash key shifts ?n vs i (bs[p := b] ! i)" if i: "i < ?n" for i
    using buckets_okD(4) [OF ok i] b i by (cases "i = p") auto
  ultimately show ?thesis using buckets_okD(1,2) [OF ok] by (simp add: buckets_ok_def)
qed

lemma place_and_shift_up_ok:
  assumes "buckets_ok hash key shifts vs bs" and "p < length bs" and "free_at bs ((p + s) mod length bs)" and "s < length bs"
    and "bucket_ok hash key shifts (length bs) vs p b" and "df b \<noteq> 0" and "df (bs ! p) \<le> df b"
    and "\<forall>i < length bs. (i + 1) mod length bs = p \<longrightarrow> chained (bs ! i) b"
  shows "\<exists>bs'. place_and_shift_up b p bs = Some bs' \<and> length bs' = length bs \<and> buckets_ok hash key shifts vs bs' \<and>
    entries bs' = add_mset (m_value_idx b) (entries bs)"
  using assms
proof (induction s arbitrary: bs b p)
  case (Suc s)
  note ok = Suc.prems(1) and p = Suc.prems(2)
  let ?n = "length bs" let ?c = "bs ! p"
  have after: "chained b (bs ! ((p + 1) mod ?n))" using buckets_okD(3) [OF ok p] Suc.prems(7) by (auto simp: chained_def)
  have ok1: "buckets_ok hash key shifts vs (bs[p := b])"
    by (rule buckets_ok_update [OF ok p Suc.prems(5) Suc.prems(8) after])
  have ent: "entries (bs[p := b]) + (if df ?c = 0 then {#} else {#m_value_idx ?c#}) = add_mset (m_value_idx b) (entries bs)"
    using entries_update [OF p, of b] Suc.prems(6) by simp
  show ?case
  proof (cases "df ?c = 0")
    case True
    then have "place_and_shift_up b p bs = Some (bs[p := b])"
      using p by (subst place_and_shift_up.simps) (simp add: bucket_at_def)
    then show ?thesis using ok1 ent True by simp
  next
    case False
    let ?b' = "?c\<lparr>m_dist_and_fingerprint := df ?c + 256\<rparr>" let ?p' = "(p + 1) mod ?n"
    note neq = next_neq [OF p buckets_okD(1) [OF ok]]
    have c: "bucket_ok hash key shifts ?n vs p ?c" by (rule buckets_okD(4) [OF ok p])
    have step: "place_and_shift_up b p bs = place_and_shift_up ?b' ?p' (bs[p := b])"
      using p False no_wrap_dist [OF ok Suc.prems(3) p] next_idx_mod [OF p buckets_okD(2) [OF ok]]
      by (subst place_and_shift_up.simps) (simp add: bucket_at_def)
    have far: "(?p' + s) mod ?n = (p + Suc s) mod ?n" by (simp add: mod_simps)
    have "(p + Suc s) mod ?n \<noteq> p" using Suc.prems(3) False by (auto simp: free_at_def)
    then have free: "free_at (bs[p := b]) ((?p' + s) mod length (bs[p := b]))"
      using Suc.prems(3) far by (simp add: free_at_def)
    have le: "df (bs[p := b] ! ?p') \<le> df ?b'"
      using buckets_okD(3) [OF ok p] neq bucket_okD(1) [OF c False] by (auto simp: chained_def)
    have before: "\<forall>i < length (bs[p := b]). (i + 1) mod length (bs[p := b]) = ?p' \<longrightarrow> chained (bs[p := b] ! i) ?b'"
    proof clarsimp
      fix i assume "i < ?n" "Suc i mod ?n = Suc p mod ?n"
      then have "i = p" using next_inj [of i ?n p] p by simp
      then show "chained (bs[p := b] ! i) ?b'" using p Suc.prems(7) by (simp add: chained_def)
    qed
    have "\<exists>bs'. place_and_shift_up ?b' ?p' (bs[p := b]) = Some bs' \<and> length bs' = length (bs[p := b]) \<and>
        buckets_ok hash key shifts vs bs' \<and> entries bs' = add_mset (m_value_idx ?b') (entries (bs[p := b]))"
      using Suc.IH [OF ok1 _ free _ _ _ le before] neq(2) Suc.prems(4) bucket_ok_further [OF c False] by simp
    then show ?thesis using step ent False by (auto simp: add_mset_commute)
  qed
next
  case 0
  note ok = "0.prems"(1) and p = "0.prems"(2)
  have free: "df (bs ! p) = 0" using "0.prems"(3) p by (simp add: free_at_def)
  have after: "chained b (bs ! ((p + 1) mod length bs))" using buckets_okD(3) [OF ok p] free by (auto simp: chained_def)
  have "place_and_shift_up b p bs = Some (bs[p := b])"
    using p free by (subst place_and_shift_up.simps) (simp add: bucket_at_def)
  then show ?case
    using buckets_ok_update [OF ok p "0.prems"(5) "0.prems"(8) after] entries_update [OF p, of b] free "0.prems"(6) by simp
qed

lemma shift_down_ok:
  assumes "buckets_ok hash key shifts vs bs" and "i < length bs" and "free_at bs ((i + s) mod length bs)" and "s < length bs"
    and "df (bs ! i) \<noteq> 0"
  shows "\<exists>bs'. shift_down i bs = Some bs' \<and> length bs' = length bs \<and> buckets_ok hash key shifts vs bs' \<and>
    add_mset (m_value_idx (bs ! i)) (entries bs') = entries bs \<and> (\<exists>f. free_at bs' f)"
  using assms
proof (induction s arbitrary: bs i)
  case (Suc s)
  note ok = Suc.prems(1) and i = Suc.prems(2)
  let ?n = "length bs" let ?j = "(i + 1) mod ?n" let ?c = "bs ! ?j"
  note neq = next_neq [OF i buckets_okD(1) [OF ok]]
  have nxt: "next_idx bs i = ?j" by (rule next_idx_mod [OF i buckets_okD(2) [OF ok]])
  have here: "chained (bs ! i) ?c" by (rule buckets_okD(3) [OF ok i])
  show ?case
  proof (cases "512 \<le> df ?c")
    case False
    have "shift_down i bs = Some (bs[i := empty_bucket])"
      using nxt neq False by (subst shift_down.simps) (simp add: bucket_at_def)
    moreover have "buckets_ok hash key shifts vs (bs[i := empty_bucket])"
      by (rule buckets_ok_update [OF ok i]) (use False in \<open>simp_all add: bucket_ok_def chained_def empty_bucket_def\<close>)
    moreover have "add_mset (m_value_idx (bs ! i)) (entries (bs[i := empty_bucket])) = entries bs"
      using entries_update [OF i, of empty_bucket] Suc.prems(5) by (simp add: empty_bucket_def)
    moreover have "free_at (bs[i := empty_bucket]) i" using i by (simp add: free_at_def empty_bucket_def)
    ultimately show ?thesis by auto
  next
    case True
    let ?c' = "\<lparr>m_dist_and_fingerprint = df ?c - 256, m_value_idx = m_value_idx ?c\<rparr>" let ?bs = "bs[i := ?c']"
    have "df ?c < 2 ^ 32" using distance_bound [OF ok Suc.prems(3) neq(2)] buckets_okD(2) [OF ok] by simp
    then have dec: "dist_dec (df ?c) = df ?c - 256"
      using True by (simp add: dist_dec_def mod_if [of _ "2 ^ 32"] flip: add_diff_assoc2)
    have step: "shift_down i bs = shift_down ?j ?bs"
      using nxt neq True dec by (subst shift_down.simps) (simp add: bucket_at_def)
    have c': "bucket_ok hash key shifts ?n vs i ?c'"
      by (rule bucket_ok_nearer [OF buckets_okD(4) [OF ok neq(2)] True i])
    have le: "df ?c' \<le> df (bs ! i)" using here True by (auto simp: chained_def)
    have "chained (bs ! k) ?c'" if "k < ?n" "(k + 1) mod ?n = i" for k
      using buckets_okD(3) [OF ok that(1)] that(2) le by (auto simp: chained_def)
    then have ok1: "buckets_ok hash key shifts vs ?bs"
      by (intro buckets_ok_update [OF ok i c']) (auto simp: chained_def)
    have far: "(?j + s) mod ?n = (i + Suc s) mod ?n" by (simp add: mod_simps)
    have "(i + Suc s) mod ?n \<noteq> i" using Suc.prems(3,5) by (auto simp: free_at_def)
    then have free: "free_at ?bs ((?j + s) mod length ?bs)" using Suc.prems(3) far by (simp add: free_at_def)
    have "?bs ! ?j = ?c" using neq by simp
    then obtain bs' f where rest: "shift_down ?j ?bs = Some bs'" "length bs' = ?n" "buckets_ok hash key shifts vs bs'"
        "add_mset (m_value_idx ?c) (entries bs') = entries ?bs" "free_at bs' f"
      using Suc.IH [OF ok1 _ free] neq(2) Suc.prems(4) True by auto
    have "add_mset (m_value_idx (bs ! i)) (entries ?bs) = add_mset (m_value_idx ?c) (entries bs)"
      using entries_update [OF i, of ?c'] Suc.prems(5) True by simp
    then have "add_mset (m_value_idx ?c) (add_mset (m_value_idx (bs ! i)) (entries bs')) = add_mset (m_value_idx ?c) (entries bs)"
      by (simp only: rest(4) [symmetric] add_mset_commute)
    then show ?thesis using step rest by auto
  qed
qed (simp add: free_at_def)

section \<open>Searching\<close>

text \<open>The distance and the bucket a search for a key has reached after \<open>j\<close> steps.\<close>

definition probe_df :: "('k \<Rightarrow> 64 word) \<Rightarrow> 'k \<Rightarrow> nat \<Rightarrow> nat" where
  "probe_df hash k j = (j + 1) * 256 + unat (hash k) mod 256"

definition probe_pos :: "('k \<Rightarrow> 64 word) \<Rightarrow> nat \<Rightarrow> nat \<Rightarrow> 'k \<Rightarrow> nat \<Rightarrow> nat" where
  "probe_pos hash shifts n k j = (bucket_idx_from_hash shifts (hash k) + j) mod n"

lemma probe_start:
  assumes "n = 2 ^ (64 - shifts)" and "shifts \<le> 64" and "n \<le> 2 ^ 23"
  shows "dist_and_fingerprint_from_hash (hash k) = probe_df hash k 0"
    "bucket_idx_from_hash shifts (hash k) = probe_pos hash shifts n k 0"
proof -
  have "unat (hash k) < 2 ^ 64" using unsigned_less [of "hash k"] by simp
  then have "unat (hash k) < 2 ^ (64 - shifts) * 2 ^ shifts" using assms(2) by (simp flip: power_add)
  then have "unat (hash k) div 2 ^ shifts < n" by (simp add: assms(1) less_mult_imp_div_less)
  then show "bucket_idx_from_hash shifts (hash k) = probe_pos hash shifts n k 0"
    using assms(3) by (simp add: probe_pos_def bucket_idx_from_hash_def)
qed (simp add: dist_and_fingerprint_from_hash_def probe_df_def)

lemma probe_step:
  assumes "2 \<le> length bs" and "length bs \<le> 2 ^ 23" and "j \<le> length bs + 2"
  shows "dist_inc (probe_df hash k j) = probe_df hash k (Suc j)"
    "next_idx bs (probe_pos hash shifts (length bs) k j) = probe_pos hash shifts (length bs) k (Suc j)"
    "probe_pos hash shifts (length bs) k j < length bs"
proof -
  show lt: "probe_pos hash shifts (length bs) k j < length bs"
    unfolding probe_pos_def by (rule mod_less_divisor) (use assms(1) in linarith)
  show "next_idx bs (probe_pos hash shifts (length bs) k j) = probe_pos hash shifts (length bs) k (Suc j)"
    unfolding next_idx_mod [OF lt assms(2)] by (simp add: probe_pos_def mod_simps)
  have "unat (hash k) mod 256 < 256" by simp
  then show "dist_inc (probe_df hash k j) = probe_df hash k (Suc j)"
    using assms by (simp add: dist_inc_def probe_df_def del: mod_less) (subst mod_less; simp)
qed

definition nobody :: "('e \<Rightarrow> 'k) \<Rightarrow> 'e list \<Rightarrow> bucket list \<Rightarrow> 'k \<Rightarrow> bool" where
  "nobody key vs bs k \<longleftrightarrow> (\<forall>i < length bs. df (bs ! i) \<noteq> 0 \<longrightarrow> key (vs ! m_value_idx (bs ! i)) \<noteq> k)"

definition holder :: "('k \<Rightarrow> 64 word) \<Rightarrow> ('e \<Rightarrow> 'k) \<Rightarrow> nat \<Rightarrow> 'e list \<Rightarrow> bucket list \<Rightarrow> 'k \<Rightarrow> nat \<Rightarrow> nat \<Rightarrow> bool" where
  "holder hash key shifts vs bs k v d \<longleftrightarrow>
     d < length bs \<and>
     (\<forall>j \<le> d. probe_df hash k j \<le> df (bs ! probe_pos hash shifts (length bs) k j)) \<and>
     df (bs ! probe_pos hash shifts (length bs) k d) = probe_df hash k d \<and>
     m_value_idx (bs ! probe_pos hash shifts (length bs) k d) = v \<and> key (vs ! v) = k \<and>
     (\<forall>i < length bs. df (bs ! i) \<noteq> 0 \<and> key (vs ! m_value_idx (bs ! i)) = k \<longrightarrow> m_value_idx (bs ! i) = v)"

lemma probe_df_pos [simp]: "probe_df hash k j \<noteq> 0" "0 < probe_df hash k j"
  by (simp_all add: probe_df_def)

lemma nobody_misses:
  "nobody key vs bs k \<Longrightarrow> i < length bs \<Longrightarrow> probe_df hash k j = df (bs ! i) \<Longrightarrow> k \<noteq> key (vs ! m_value_idx (bs ! i))"
  by (metis nobody_def probe_df_pos(1))

lemma holder_hit:
  "holder hash key shifts vs bs k v d \<Longrightarrow> i < length bs \<Longrightarrow> probe_df hash k j = df (bs ! i) \<Longrightarrow>
    k = key (vs ! m_value_idx (bs ! i)) \<Longrightarrow> m_value_idx (bs ! i) = v"
  by (metis holder_def probe_df_pos(1))

lemma holder_passes:
  "holder hash key shifts vs bs k v d \<Longrightarrow> j \<le> d \<Longrightarrow> probe_df hash k j \<le> df (bs ! probe_pos hash shifts (length bs) k j)"
  by (simp add: holder_def)

lemma holder_here:
  assumes "holder hash key shifts vs bs k v d"
  shows "df (bs ! probe_pos hash shifts (length bs) k d) = probe_df hash k d"
    "m_value_idx (bs ! probe_pos hash shifts (length bs) k d) = v" "key (vs ! v) = k" "d < length bs"
  using assms unfolding holder_def by blast+

lemma find_loop_nobody:
  assumes "2 \<le> length bs" and "length bs \<le> 2 ^ 23" and "nobody key vs bs k"
    and "free_at bs (probe_pos hash shifts (length bs) k (j + s))" and "j + s \<le> length bs + 2"
  shows "find_loop key vs bs k (probe_df hash k j) (probe_pos hash shifts (length bs) k j) = Some None"
  using assms(4,5)
proof (induction s arbitrary: j)
  case 0
  then show ?case by (subst find_loop.simps) (simp add: bucket_at_def free_at_def)
next
  case (Suc s)
  have j: "j \<le> length bs + 2" using Suc.prems by simp
  note st = probe_step [OF assms(1,2) j]
  have lt: "probe_pos hash shifts (length bs) k j < length bs" by (rule st(3))
  show ?case
    using nobody_misses [OF assms(3) lt, of hash j] Suc.IH [of "Suc j"] Suc.prems lt
    by (subst find_loop.simps) (auto simp: bucket_at_def st)
qed

lemma find_loop_holder:
  assumes "2 \<le> length bs" and "length bs \<le> 2 ^ 23" and "holder hash key shifts vs bs k v (j + s)"
  shows "find_loop key vs bs k (probe_df hash k j) (probe_pos hash shifts (length bs) k j) = Some (Some v)"
  using assms(3)
proof (induction s arbitrary: j)
  case 0
  then have h: "holder hash key shifts vs bs k v j" by simp
  have "probe_pos hash shifts (length bs) k j < length bs"
    by (rule probe_step(3) [OF assms(1,2)]) (use holder_here(4) [OF h] in simp)
  then show ?case by (subst find_loop.simps) (simp add: bucket_at_def holder_here [OF h])
next
  case (Suc s)
  have "j \<le> length bs + 2" using holder_here(4) [OF Suc.prems] by simp
  note st = probe_step [OF assms(1,2) this]
  have lt: "probe_pos hash shifts (length bs) k j < length bs" by (rule st(3))
  show ?case
    using holder_hit [OF Suc.prems lt, of j] holder_passes [OF Suc.prems, of j] Suc.IH [of "Suc j"] Suc.prems lt
    by (subst find_loop.simps) (auto simp: bucket_at_def st)
qed

lemma probe_holder:
  assumes "2 \<le> length bs" and "length bs \<le> 2 ^ 23" and "holder hash key shifts vs bs k v (j + s)"
  shows "probe key vs bs k (probe_df hash k j) (probe_pos hash shifts (length bs) k j) = Some (Found v)"
  using assms(3)
proof (induction s arbitrary: j)
  case 0
  then have h: "holder hash key shifts vs bs k v j" by simp
  have "probe_pos hash shifts (length bs) k j < length bs"
    by (rule probe_step(3) [OF assms(1,2)]) (use holder_here(4) [OF h] in simp)
  then show ?case by (subst probe.simps) (simp add: bucket_at_def holder_here [OF h])
next
  case (Suc s)
  have "j \<le> length bs + 2" using holder_here(4) [OF Suc.prems] by simp
  note st = probe_step [OF assms(1,2) this]
  have lt: "probe_pos hash shifts (length bs) k j < length bs" by (rule st(3))
  show ?case
    using holder_hit [OF Suc.prems lt, of j] holder_passes [OF Suc.prems, of j] Suc.IH [of "Suc j"] Suc.prems lt
    by (subst probe.simps) (auto simp: bucket_at_def st)
qed

text \<open>Where a search that fails stops: a place for the new bucket.\<close>

definition place_for :: "('k \<Rightarrow> 64 word) \<Rightarrow> nat \<Rightarrow> bucket list \<Rightarrow> 'k \<Rightarrow> nat \<Rightarrow> bool" where
  "place_for hash shifts bs k j \<longleftrightarrow>
     df (bs ! probe_pos hash shifts (length bs) k j) \<le> probe_df hash k j \<and>
     (j > 0 \<longrightarrow> probe_df hash k (j - 1) \<le> df (bs ! probe_pos hash shifts (length bs) k (j - 1)))"

lemma probe_nobody:
  assumes "2 \<le> length bs" and "length bs \<le> 2 ^ 23" and "nobody key vs bs k"
    and "free_at bs (probe_pos hash shifts (length bs) k (j + s))" and "j + s \<le> length bs + 2"
    and "j > 0 \<longrightarrow> probe_df hash k (j - 1) \<le> df (bs ! probe_pos hash shifts (length bs) k (j - 1))"
  shows "\<exists>j'. probe key vs bs k (probe_df hash k j) (probe_pos hash shifts (length bs) k j) =
      Some (Place (probe_df hash k j') (probe_pos hash shifts (length bs) k j')) \<and>
      j' \<le> j + s \<and> place_for hash shifts bs k j'"
  using assms(4-6)
proof (induction s arbitrary: j)
  case 0
  then show ?case by (subst probe.simps) (auto simp: bucket_at_def free_at_def place_for_def)
next
  case (Suc s)
  have j: "j \<le> length bs + 2" using Suc.prems by simp
  note st = probe_step [OF assms(1,2) j]
  have lt: "probe_pos hash shifts (length bs) k j < length bs" by (rule st(3))
  show ?case
  proof (cases "probe_df hash k j > df (bs ! probe_pos hash shifts (length bs) k j)")
    case True
    then show ?thesis using lt Suc.prems
      by (subst probe.simps) (auto simp: bucket_at_def place_for_def)
  next
    case False
    then have "probe key vs bs k (probe_df hash k j) (probe_pos hash shifts (length bs) k j) =
        probe key vs bs k (probe_df hash k (Suc j)) (probe_pos hash shifts (length bs) k (Suc j))"
      using nobody_misses [OF assms(3) lt, of hash j] Suc.prems lt
      by (subst probe.simps) (auto simp: bucket_at_def st)
    then show ?thesis using Suc.IH [of "Suc j"] Suc.prems False by simp
  qed
qed

lemma next_while_less_stops:
  assumes "2 \<le> length bs" and "length bs \<le> 2 ^ 23"
    and "free_at bs (probe_pos hash shifts (length bs) k (j + s))" and "j + s \<le> length bs + 2"
  shows "\<exists>j'. next_while_less bs (probe_df hash k j) (probe_pos hash shifts (length bs) k j) =
      Some (probe_df hash k j', probe_pos hash shifts (length bs) k j') \<and> j \<le> j' \<and> j' \<le> j + s \<and>
      df (bs ! probe_pos hash shifts (length bs) k j') \<le> probe_df hash k j' \<and>
      (\<forall>i. j \<le> i \<and> i < j' \<longrightarrow> probe_df hash k i < df (bs ! probe_pos hash shifts (length bs) k i))"
  using assms(3,4)
proof (induction s arbitrary: j)
  case 0
  then show ?case by (subst next_while_less.simps) (auto simp: bucket_at_def free_at_def)
next
  case (Suc s)
  have j: "j \<le> length bs + 2" using Suc.prems by simp
  note st = probe_step [OF assms(1,2) j]
  have lt: "probe_pos hash shifts (length bs) k j < length bs" by (rule st(3))
  show ?case
  proof (cases "probe_df hash k j < df (bs ! probe_pos hash shifts (length bs) k j)")
    case False
    then show ?thesis using lt by (subst next_while_less.simps) (auto simp: bucket_at_def)
  next
    case True
    have "next_while_less bs (probe_df hash k j) (probe_pos hash shifts (length bs) k j) =
        next_while_less bs (probe_df hash k (Suc j)) (probe_pos hash shifts (length bs) k (Suc j))"
      using lt True by (subst next_while_less.simps) (simp add: bucket_at_def st)
    moreover obtain j' where "next_while_less bs (probe_df hash k (Suc j)) (probe_pos hash shifts (length bs) k (Suc j)) =
        Some (probe_df hash k j', probe_pos hash shifts (length bs) k j')" "Suc j \<le> j'" "j' \<le> Suc j + s"
      "df (bs ! probe_pos hash shifts (length bs) k j') \<le> probe_df hash k j'"
      and passed: "\<forall>i. Suc j \<le> i \<and> i < j' \<longrightarrow> probe_df hash k i < df (bs ! probe_pos hash shifts (length bs) k i)"
      using Suc.IH [of "Suc j"] Suc.prems by auto
    moreover have "probe_df hash k i < df (bs ! probe_pos hash shifts (length bs) k i)" if "j \<le> i" "i < j'" for i
      using that True passed by (cases "i = j") auto
    ultimately show ?thesis by (intro exI [of _ j']) auto
  qed
qed

lemma erase_probe_nobody:
  assumes "2 \<le> length bs" and "length bs \<le> 2 ^ 23" and "nobody key vs bs k"
    and "free_at bs (probe_pos hash shifts (length bs) k (j + s))" and "j + s \<le> length bs + 2"
  shows "\<exists>j'. erase_probe key vs bs k (probe_df hash k j) (probe_pos hash shifts (length bs) k j) =
      Some (probe_df hash k j', probe_pos hash shifts (length bs) k j') \<and> j' \<le> j + s \<and>
      probe_df hash k j' \<noteq> df (bs ! probe_pos hash shifts (length bs) k j')"
  using assms(4,5)
proof (induction s arbitrary: j)
  case 0
  then show ?case by (subst erase_probe.simps) (auto simp: bucket_at_def free_at_def)
next
  case (Suc s)
  have j: "j \<le> length bs + 2" using Suc.prems by simp
  note st = probe_step [OF assms(1,2) j]
  have lt: "probe_pos hash shifts (length bs) k j < length bs" by (rule st(3))
  show ?case
  proof (cases "probe_df hash k j = df (bs ! probe_pos hash shifts (length bs) k j)")
    case False
    then show ?thesis using lt by (subst erase_probe.simps) (auto simp: bucket_at_def)
  next
    case True
    have "erase_probe key vs bs k (probe_df hash k j) (probe_pos hash shifts (length bs) k j) =
        erase_probe key vs bs k (probe_df hash k (Suc j)) (probe_pos hash shifts (length bs) k (Suc j))"
      using lt nobody_misses [OF assms(3) lt True] by (subst erase_probe.simps) (simp add: bucket_at_def st True [symmetric])
    then show ?thesis using Suc.IH [of "Suc j"] Suc.prems by auto
  qed
qed

lemma erase_probe_holder:
  assumes ok: "buckets_ok hash key shifts vs bs" and "holder hash key shifts vs bs k v (j + s)"
    and "df (bs ! probe_pos hash shifts (length bs) k j) = probe_df hash k j"
  shows "\<exists>j'. erase_probe key vs bs k (probe_df hash k j) (probe_pos hash shifts (length bs) k j) =
      Some (probe_df hash k j', probe_pos hash shifts (length bs) k j') \<and> j' \<le> j + s \<and>
      df (bs ! probe_pos hash shifts (length bs) k j') = probe_df hash k j' \<and>
      m_value_idx (bs ! probe_pos hash shifts (length bs) k j') = v"
  using assms(2,3)
proof (induction s arbitrary: j)
  case 0
  then have h: "holder hash key shifts vs bs k v j" by simp
  have "probe_pos hash shifts (length bs) k j < length bs"
    by (rule probe_step(3) [OF buckets_okD(1,2) [OF ok]]) (use holder_here(4) [OF h] in simp)
  then show ?case by (subst erase_probe.simps) (auto simp: bucket_at_def holder_here [OF h])
next
  case (Suc s)
  let ?pos = "probe_pos hash shifts (length bs) k"
  have j: "j \<le> length bs + 2" using holder_here(4) [OF Suc.prems(1)] by simp
  note st = probe_step [OF buckets_okD(1,2) [OF ok] j]
  have lt: "?pos j < length bs" by (rule st(3))
  show ?case
  proof (cases "k = key (vs ! m_value_idx (bs ! ?pos j))")
    case True
    then have "erase_probe key vs bs k (probe_df hash k j) (?pos j) = Some (probe_df hash k j, ?pos j)"
      using lt by (subst erase_probe.simps) (simp add: bucket_at_def)
    then show ?thesis using holder_hit [OF Suc.prems(1) lt _ True, of j] Suc.prems(2) by auto
  next
    case False
    have "erase_probe key vs bs k (probe_df hash k j) (?pos j) = erase_probe key vs bs k (probe_df hash k (Suc j)) (?pos (Suc j))"
      using lt False Suc.prems(2) by (subst erase_probe.simps) (simp add: bucket_at_def st)
    moreover have "chained (bs ! ?pos j) (bs ! ?pos (Suc j))"
      using buckets_okD(3) [OF ok lt] next_idx_mod [OF lt buckets_okD(2) [OF ok]] by (simp add: st)
    then have "df (bs ! ?pos (Suc j)) = probe_df hash k (Suc j)"
      using holder_passes [OF Suc.prems(1), of "Suc j"] Suc.prems(2) by (auto simp: chained_def probe_df_def)
    ultimately show ?thesis using Suc.IH [of "Suc j"] Suc.prems(1) by simp
  qed
qed

lemma holder_exists:
  assumes ok: "buckets_ok hash key shifts vs bs" and "distinct (map key vs)" and free: "free_at bs f"
    and "v \<in># entries bs"
  obtains d where "holder hash key shifts vs bs (key (vs ! v)) v d"
proof -
  obtain i where i: "i < length bs" "df (bs ! i) \<noteq> 0" "m_value_idx (bs ! i) = v" using assms(4) by (rule entriesD)
  note b = bucket_okD [OF buckets_okD(4) [OF ok i(1)] i(2), unfolded i(3)]
  let ?d = "df (bs ! i) div 256 - 1" let ?k = "key (vs ! v)"
  have "(?d + 1) * 256 + df (bs ! i) mod 256 = df (bs ! i)" using b(1) by (simp add: Suc_leI div_greater_zero_iff)
  then have d: "df (bs ! i) = probe_df hash ?k ?d" using b(3) by (simp add: probe_df_def)
  have pos: "i = probe_pos hash shifts (length bs) ?k ?d" using b(4) by (simp add: probe_pos_def)
  have "?d < length bs" using distance_bound [OF ok free i(1)] d by (simp add: probe_df_def)
  moreover have "probe_df hash ?k j \<le> df (bs ! probe_pos hash shifts (length bs) ?k j)" if "j \<le> ?d" for j
    unfolding probe_df_def probe_pos_def
    by (rule on_the_way [OF ok _ that]) (use d pos in \<open>simp add: probe_df_def probe_pos_def\<close>)
  moreover have "m_value_idx (bs ! i') = v"
    if "i' < length bs" "df (bs ! i') \<noteq> 0" "key (vs ! m_value_idx (bs ! i')) = ?k" for i'
    using bucket_okD(2) [OF buckets_okD(4) [OF ok that(1)] that(2)] b(2) that(3) assms(2)
      nth_eq_iff_index_eq [of "map key vs" "m_value_idx (bs ! i')" v] by simp
  ultimately show ?thesis using that [of ?d] d pos i by (auto simp: holder_def)
qed

lemma nobody_absent:
  assumes ok: "buckets_ok hash key shifts vs bs" and "k \<notin> key ` set vs"
  shows "nobody key vs bs k"
  unfolding nobody_def
proof (intro allI impI)
  fix i assume "i < length bs" "df (bs ! i) \<noteq> 0"
  then have "m_value_idx (bs ! i) < length vs" using bucket_okD(2) [OF buckets_okD(4) [OF ok]] by blast
  then have "vs ! m_value_idx (bs ! i) \<in> set vs" by simp
  then show "key (vs ! m_value_idx (bs ! i)) \<noteq> k" using assms(2) by blast
qed

lemma find_value_idx_finds:
  assumes "length bs \<le> 2 ^ 23" and "i < length bs" and "m_value_idx (bs ! ((i + s) mod length bs)) = v"
  shows "\<exists>j. find_value_idx v bs i = Some j \<and> j < length bs \<and> m_value_idx (bs ! j) = v"
  using assms(2,3)
proof (induction s arbitrary: i)
  case 0
  then show ?case by (subst find_value_idx.simps) (simp add: bucket_at_def)
next
  case (Suc s)
  show ?case
  proof (cases "m_value_idx (bs ! i) = v")
    case True
    then show ?thesis using Suc.prems(1) by (subst find_value_idx.simps) (simp add: bucket_at_def)
  next
    case False
    have "find_value_idx v bs i = find_value_idx v bs ((i + 1) mod length bs)"
      using False Suc.prems(1) next_idx_mod [OF Suc.prems(1) assms(1)]
      by (subst find_value_idx.simps) (simp add: bucket_at_def)
    moreover have "((i + 1) mod length bs + s) mod length bs = (i + Suc s) mod length bs" by (simp add: mod_simps)
    moreover have "(i + 1) mod length bs < length bs" using Suc.prems(1) by (intro mod_less_divisor) linarith
    ultimately show ?thesis using Suc.IH [of "(i + 1) mod length bs"] Suc.prems by simp
  qed
qed

section \<open>The table as a list\<close>

definition table_ok :: "('k \<Rightarrow> 64 word) \<Rightarrow> ('e \<Rightarrow> 'k) \<Rightarrow> 'e table \<Rightarrow> bool" where
  "table_ok hash key t \<longleftrightarrow>
     m_shifts t \<le> 62 \<and> length (m_buckets t) = 2 ^ (64 - m_shifts t) \<and>
     m_max_bucket_capacity t = load_capacity (length (m_buckets t)) \<and>
     length (m_values t) \<le> m_max_bucket_capacity t \<and> distinct (map key (m_values t)) \<and>
     buckets_ok hash key (m_shifts t) (m_values t) (m_buckets t) \<and>
     entries (m_buckets t) = mset [0..<length (m_values t)]"

lemma load_capacity_less: "0 < n \<Longrightarrow> load_capacity n < n"
  by (simp add: load_capacity_def less_mult_imp_div_less)

lemma load_capacity_double: "2 * load_capacity n \<le> load_capacity (2 * n)"
proof -
  have "(n * 13421773 div 2 ^ 24) * 2 ^ 24 \<le> n * 13421773" by (rule div_times_less_eq_dividend)
  then have "2 * (n * 13421773 div 2 ^ 24) * 2 ^ 24 \<le> 2 * n * 13421773" by linarith
  then show ?thesis unfolding load_capacity_def by (subst less_eq_div_iff_mult_less_eq) simp_all
qed

lemma buckets_ok_empty:
  "2 \<le> n \<Longrightarrow> n \<le> 2 ^ 23 \<Longrightarrow> buckets_ok hash key shifts vs (replicate n empty_bucket)"
  "entries (replicate n empty_bucket) = {#}"
  by (simp_all add: buckets_ok_def chained_def bucket_ok_def empty_bucket_def entries_def)

lemma buckets_ok_append:
  assumes "buckets_ok hash key shifts vs bs"
  shows "buckets_ok hash key shifts (vs @ ws) bs"
proof -
  have "bucket_ok hash key shifts (length bs) (vs @ ws) i (bs ! i)" if "i < length bs" for i
    using buckets_okD(4) [OF assms that] by (auto simp: bucket_ok_def nth_append split: if_splits)
  then show ?thesis using assms by (simp add: buckets_ok_def)
qed

lemma place_new:
  assumes ok: "buckets_ok hash key shifts vs bs" and free: "free_at bs f" and v: "v < length vs"
    and j: "place_for hash shifts bs (key (vs ! v)) j"
  shows "\<exists>bs'. place_and_shift_up \<lparr>m_dist_and_fingerprint = probe_df hash (key (vs ! v)) j, m_value_idx = v\<rparr>
      (probe_pos hash shifts (length bs) (key (vs ! v)) j) bs = Some bs' \<and> length bs' = length bs \<and>
      buckets_ok hash key shifts vs bs' \<and> entries bs' = add_mset v (entries bs)"
proof -
  let ?k = "key (vs ! v)" let ?n = "length bs"
  let ?b = "\<lparr>m_dist_and_fingerprint = probe_df hash ?k j, m_value_idx = v\<rparr>" let ?p = "probe_pos hash shifts ?n ?k j"
  have n: "0 < ?n" using buckets_okD(1) [OF ok] by linarith
  then have p: "?p < ?n" by (simp add: probe_pos_def)
  obtain s where s: "s < ?n" "(?p + s) mod ?n = f" using reach_position free by (metis free_at_def)
  have "((j + 1) * 256 + unat (hash ?k) mod 256) div 256 = j + 1" by (simp add: div_plus_div_distrib_dvd_left)
  moreover have "((j + 1) * 256 + unat (hash ?k) mod 256) mod 256 = unat (hash ?k) mod 256"
    by (simp only: mod_mult_self3 mod_mod_trivial)
  ultimately have b: "bucket_ok hash key shifts ?n vs ?p ?b"
    using v by (simp add: bucket_ok_def probe_df_def probe_pos_def)
  have "chained (bs ! i) ?b" if i: "i < ?n" "(i + 1) mod ?n = ?p" for i
  proof (cases j)
    case 0
    then show ?thesis by (simp add: chained_def probe_df_def)
  next
    case (Suc m)
    have "(probe_pos hash shifts ?n ?k m + 1) mod ?n = ?p" by (simp add: Suc probe_pos_def mod_simps)
    then have "i = probe_pos hash shifts ?n ?k m" using next_inj [OF i(1)] i(2) n by (simp add: probe_pos_def)
    then show ?thesis using j by (simp add: Suc place_for_def chained_def probe_df_def)
  qed
  then have "\<exists>bs'. place_and_shift_up ?b ?p bs = Some bs' \<and> length bs' = ?n \<and> buckets_ok hash key shifts vs bs' \<and>
      entries bs' = add_mset (m_value_idx ?b) (entries bs)"
    using place_and_shift_up_ok [OF ok p _ s(1) b] free s(2) j by (simp add: place_for_def)
  then show ?thesis by simp
qed

lemma next_while_less_place:
  assumes ok: "buckets_ok hash key shifts vs bs" and "length bs = 2 ^ (64 - shifts)" and "shifts \<le> 64" and free: "free_at bs f"
  obtains j s where "next_while_less bs (dist_and_fingerprint_from_hash (hash k)) (bucket_idx_from_hash shifts (hash k)) =
      Some (probe_df hash k j, probe_pos hash shifts (length bs) k j)" and "place_for hash shifts bs k j"
    and "free_at bs (probe_pos hash shifts (length bs) k (j + s))" and "j + s < length bs" and "\<And>v d. holder hash key shifts vs bs k v d \<Longrightarrow> j \<le> d"
proof -
  let ?n = "length bs"
  obtain s where s: "s < ?n" "(bucket_idx_from_hash shifts (hash k) + s) mod ?n = f"
    using reach_position free by (metis free_at_def)
  then have free_s: "free_at bs (probe_pos hash shifts ?n k (0 + s))" using free by (simp add: probe_pos_def)
  then obtain j where j: "next_while_less bs (probe_df hash k 0) (probe_pos hash shifts ?n k 0) =
      Some (probe_df hash k j, probe_pos hash shifts ?n k j)" "j \<le> s"
      "df (bs ! probe_pos hash shifts ?n k j) \<le> probe_df hash k j"
      "\<forall>i < j. probe_df hash k i < df (bs ! probe_pos hash shifts ?n k i)"
    using next_while_less_stops [OF buckets_okD(1,2) [OF ok], of hash shifts k 0 s] s(1) by auto
  show ?thesis
  proof (rule that)
    show "next_while_less bs (dist_and_fingerprint_from_hash (hash k)) (bucket_idx_from_hash shifts (hash k)) =
        Some (probe_df hash k j, probe_pos hash shifts ?n k j)"
      using j(1) probe_start [OF assms(2,3) buckets_okD(2) [OF ok], of hash k] by simp
    show "place_for hash shifts bs k j" using j(3,4) by (simp add: place_for_def less_imp_le)
    show "free_at bs (probe_pos hash shifts ?n k (j + (s - j)))" "j + (s - j) < ?n" using j(2) s(1) free_s by simp_all
    show "j \<le> d" if "holder hash key shifts vs bs k v d" for v d
      using holder_here(1) [OF that] j(4) by (metis less_irrefl not_le_imp_less)
  qed
qed

lemma fill_buckets_ok:
  assumes "buckets_ok hash key shifts (pre @ vs) bs" and "length bs = 2 ^ (64 - shifts)" and "shifts \<le> 64"
    and "entries bs = mset [0..<length pre]" and "length (pre @ vs) < length bs"
  shows "\<exists>bs'. fill_buckets hash key shifts (length pre) vs bs = Some bs' \<and> length bs' = length bs \<and>
    buckets_ok hash key shifts (pre @ vs) bs' \<and> entries bs' = mset [0..<length (pre @ vs)]"
  using assms
proof (induction vs arbitrary: pre bs)
  case (Cons v vs)
  note ok = Cons.prems(1)
  have size: "size (entries bs) < length bs" using Cons.prems(4,5) by simp
  obtain f where free: "free_at bs f" using free_exists [OF size] .
  obtain j where j: "next_while_less bs (dist_and_fingerprint_from_hash (hash (key v))) (bucket_idx_from_hash shifts (hash (key v))) =
      Some (probe_df hash (key v) j, probe_pos hash shifts (length bs) (key v) j)" "place_for hash shifts bs (key v) j"
    using next_while_less_place [OF ok Cons.prems(2,3) free] by metis
  have nth: "(pre @ v # vs) ! length pre = v" by simp
  obtain bs1 where bs1: "place_and_shift_up \<lparr>m_dist_and_fingerprint = probe_df hash (key v) j, m_value_idx = length pre\<rparr>
      (probe_pos hash shifts (length bs) (key v) j) bs = Some bs1" "length bs1 = length bs"
      "buckets_ok hash key shifts (pre @ v # vs) bs1" "entries bs1 = add_mset (length pre) (entries bs)"
    using place_new [OF ok free, of "length pre" j] j(2) by (auto simp: nth)
  have "(length pre + 1) mod 2 ^ 32 = length (pre @ [v])" using Cons.prems(5) buckets_okD(2) [OF ok] by simp
  then have step: "fill_buckets hash key shifts (length pre) (v # vs) bs = fill_buckets hash key shifts (length (pre @ [v])) vs bs1"
    by (simp only: fill_buckets.simps j(1) bs1(1) bind.bind_lunit case_prod_conv)
  have "\<exists>bs'. fill_buckets hash key shifts (length (pre @ [v])) vs bs1 = Some bs' \<and> length bs' = length bs1 \<and>
      buckets_ok hash key shifts ((pre @ [v]) @ vs) bs' \<and> entries bs' = mset [0..<length ((pre @ [v]) @ vs)]"
    by (rule Cons.IH) (use bs1 Cons.prems in simp_all)
  then show ?case using step bs1(2) by simp
qed simp

lemma table_okD:
  assumes "table_ok hash key t"
  shows "m_shifts t \<le> 62" "length (m_buckets t) = 2 ^ (64 - m_shifts t)"
    "m_max_bucket_capacity t = load_capacity (length (m_buckets t))" "length (m_values t) \<le> m_max_bucket_capacity t"
    "distinct (map key (m_values t))" "buckets_ok hash key (m_shifts t) (m_values t) (m_buckets t)"
    "entries (m_buckets t) = mset [0..<length (m_values t)]"
  using assms unfolding table_ok_def by blast+

lemma table_ok_free:
  assumes "table_ok hash key t"
  obtains f where "free_at (m_buckets t) f"
proof (rule free_exists)
  have "0 < length (m_buckets t)" using buckets_okD(1) [OF table_okD(6) [OF assms]] by linarith
  then show "size (entries (m_buckets t)) < length (m_buckets t)"
    using table_okD(3,4,7) [OF assms] load_capacity_less [of "length (m_buckets t)"] by simp
qed

lemma new_table_values: "m_values new_table = []"
  by (simp add: new_table_def allocate_buckets_from_shift_def Let_def)

lemma table_ok_new: "table_ok hash key new_table"
proof -
  have "buckets_ok hash key 62 [] (replicate 4 empty_bucket)" by (rule buckets_ok_empty) simp_all
  then show ?thesis
    by (simp add: table_ok_def new_table_def allocate_buckets_from_shift_def calc_num_buckets_def max_bucket_count_def
        buckets_ok_empty(2))
qed

lemma table_ok_clear:
  assumes "table_ok hash key t"
  shows "table_ok hash key (clear t)"
  using table_okD [OF assms] buckets_ok_empty(1) [OF buckets_okD(1,2) [OF table_okD(6) [OF assms]]]
  by (simp add: table_ok_def clear_def buckets_ok_empty(2))

text \<open>There is room to double the buckets as long as the values fit into \<open>2 ^ 23\<close> of them.\<close>

lemma room_to_grow:
  assumes ok: "table_ok hash key t" and small: "length (m_values t) < 6710886"
    and full: "length (m_values t) = m_max_bucket_capacity t"
  shows "calc_num_buckets (m_shifts t - 1) = 2 * length (m_buckets t)" "2 * length (m_buckets t) \<le> 2 ^ 23"
    "length (m_values t) < load_capacity (2 * length (m_buckets t))" "2 * length (m_buckets t) = 2 ^ (64 - (m_shifts t - 1))"
proof -
  let ?n = "length (m_buckets t)" let ?a = "64 - m_shifts t"
  note n = buckets_okD(1,2) [OF table_okD(6) [OF ok]]
  have "(2 :: nat) ^ ?a \<le> 2 ^ 23" using n(2) table_okD(2) [OF ok] by simp
  then have "?a \<le> 23" by (simp only: power_increasing_iff)
  moreover have "?a \<noteq> 23" using full small table_okD(2,3) [OF ok] by (auto simp: load_capacity_def)
  ultimately have a: "?a \<le> 22" "64 - (m_shifts t - 1) = Suc ?a" using table_okD(1) [OF ok] by auto
  then have le: "(2 :: nat) ^ Suc ?a \<le> 2 ^ 23" by (intro power_increasing) simp_all
  then show "2 * ?n \<le> 2 ^ 23" using table_okD(2) [OF ok] by simp
  show eq: "2 * ?n = 2 ^ (64 - (m_shifts t - 1))" using a(2) table_okD(2) [OF ok] by simp
  have "(2 :: nat) ^ 23 \<le> 2 ^ 32" by (intro power_increasing) simp_all
  then have "2 * ?n \<le> 2 ^ 32" using \<open>2 * ?n \<le> 2 ^ 23\<close> by (rule order_trans [rotated])
  then show "calc_num_buckets (m_shifts t - 1) = 2 * ?n" unfolding calc_num_buckets_def max_bucket_count_def eq by simp
  have "1 \<le> load_capacity ?n" using n(1) by (simp add: load_capacity_def Suc_leI div_greater_zero_iff)
  moreover have "2 * load_capacity ?n \<le> load_capacity (2 * ?n)" by (rule load_capacity_double)
  ultimately show "length (m_values t) < load_capacity (2 * ?n)"
    using full table_okD(3) [OF ok] by linarith
qed

lemma place_element_ok:
  assumes ok: "table_ok hash key t" and new: "key e \<notin> key ` set (m_values t)" and small: "length (m_values t) < 6710886"
    and j: "place_for hash (m_shifts t) (m_buckets t) (key e) j"
  shows "\<exists>t'. place_element hash key (probe_df hash (key e) j) (probe_pos hash (m_shifts t) (length (m_buckets t)) (key e) j)
      (t\<lparr>m_values := m_values t @ [e]\<rparr>) = Some t' \<and> table_ok hash key t' \<and> m_values t' = m_values t @ [e]"
proof -
  let ?vs = "m_values t @ [e]" let ?bs = "m_buckets t" let ?t1 = "t\<lparr>m_values := ?vs\<rparr>"
  obtain f where free: "free_at ?bs f" using table_ok_free [OF ok] .
  have ok1: "buckets_ok hash key (m_shifts t) ?vs ?bs" by (rule buckets_ok_append [OF table_okD(6) [OF ok]])
  have dist: "distinct (map key ?vs)" using table_okD(5) [OF ok] new by simp
  show ?thesis
  proof (cases "length (m_values t) = m_max_bucket_capacity t")
    case False
    then have notfull: "\<not> is_full ?t1" using table_okD(4) [OF ok] by (simp add: is_full_def)
    have nth: "?vs ! length (m_values t) = e" by simp
    obtain bs' where "place_and_shift_up \<lparr>m_dist_and_fingerprint = probe_df hash (key e) j, m_value_idx = length (m_values t)\<rparr>
        (probe_pos hash (m_shifts t) (length ?bs) (key e) j) ?bs = Some bs'" "length bs' = length ?bs"
        "buckets_ok hash key (m_shifts t) ?vs bs'" "entries bs' = add_mset (length (m_values t)) (entries ?bs)"
      using place_new [OF ok1 free, of "length (m_values t)" j] j by (auto simp: nth)
    then show ?thesis
      using notfull small dist False table_okD [OF ok]
      by (intro exI [of _ "t\<lparr>m_values := ?vs, m_buckets := bs'\<rparr>"])
        (cases t; simp add: place_element_def table_ok_def Let_def)
  next
    case True
    note grow = room_to_grow [OF ok small True]
    let ?n = "2 * length ?bs" let ?s = "m_shifts t - 1"
    have n: "2 \<le> ?n" "?n < max_bucket_count" using buckets_okD(1) [OF table_okD(6) [OF ok]] grow(2)
      by (simp_all add: max_bucket_count_def)
    have cap: "m_max_bucket_capacity t \<noteq> max_bucket_count"
      using small True by (simp add: max_bucket_count_def)
    have "load_capacity ?n < ?n" by (rule load_capacity_less) (use n(1) in linarith)
    then have "length ?vs < ?n" using grow(3) by simp
    moreover have "?s \<le> 64" using table_okD(1) [OF ok] by simp
    ultimately obtain bs' where bs': "fill_buckets hash key ?s 0 ?vs (replicate ?n empty_bucket) = Some bs'" "length bs' = ?n"
        "buckets_ok hash key ?s ?vs bs'" "entries bs' = mset [0..<length ?vs]"
      using fill_buckets_ok [of hash key ?s "[]" ?vs "replicate ?n empty_bucket"]
        buckets_ok_empty(1) [OF n(1) grow(2), of hash key ?s ?vs] grow(4)
      by (auto simp: buckets_ok_empty(2))
    let ?t' = "t\<lparr>m_values := ?vs, m_buckets := bs', m_max_bucket_capacity := load_capacity ?n, m_shifts := ?s\<rparr>"
    have "place_element hash key d i ?t1 = Some ?t'" for d i
      using True cap bs'(1) grow(1) n(2)
      by (cases t) (simp add: place_element_def is_full_def increase_size_def allocate_buckets_from_shift_def
          clear_and_fill_buckets_from_values_def Let_def)
    moreover have "table_ok hash key ?t'"
      using bs' grow(3,4) dist table_okD(1) [OF ok] by (simp add: table_ok_def)
    ultimately show ?thesis by auto
  qed
qed

definition index_of :: "('e \<Rightarrow> 'k) \<Rightarrow> 'k \<Rightarrow> 'e list \<Rightarrow> nat option" where
  "index_of key k vs = find_index (\<lambda>e. key e = k) vs"

lemma index_of_None: "index_of key k vs = None \<longleftrightarrow> k \<notin> key ` set vs"
  by (auto simp: index_of_def find_index_None)

lemma index_of_Some: "distinct (map key vs) \<Longrightarrow> index_of key k vs = Some v \<longleftrightarrow> v < length vs \<and> key (vs ! v) = k"
  unfolding index_of_def find_index_Some
  by (metis (no_types, lifting) dual_order.strict_trans length_map less_irrefl nth_eq_iff_index_eq nth_map)

text \<open>A key is in nobody's bucket, or has its one holder.\<close>

lemma table_cases:
  assumes ok: "table_ok hash key t"
  obtains (absent) "index_of key k (m_values t) = None" "nobody key (m_values t) (m_buckets t) k"
  | (present) v d where "index_of key k (m_values t) = Some v" "v < length (m_values t)" "key (m_values t ! v) = k"
      "holder hash key (m_shifts t) (m_values t) (m_buckets t) k v d"
proof (cases "index_of key k (m_values t)")
  case None
  then show ?thesis using absent nobody_absent [OF table_okD(6) [OF ok]] by (simp add: index_of_None)
next
  case (Some v)
  then have v: "v < length (m_values t)" "key (m_values t ! v) = k" using index_of_Some [OF table_okD(5) [OF ok]] by auto
  obtain f where "free_at (m_buckets t) f" using table_ok_free [OF ok] .
  then obtain d where "holder hash key (m_shifts t) (m_values t) (m_buckets t) (key (m_values t ! v)) v d"
    by (rule holder_exists [OF table_okD(6,5) [OF ok]]) (use table_okD(7) [OF ok] v(1) in simp)
  then show ?thesis using present Some v by simp
qed

lemma table_start:
  assumes "table_ok hash key t"
  shows "dist_and_fingerprint_from_hash (hash k) = probe_df hash k 0"
    "bucket_idx_from_hash (m_shifts t) (hash k) = probe_pos hash (m_shifts t) (length (m_buckets t)) k 0"
proof -
  have s: "m_shifts t \<le> 64" using table_okD(1) [OF assms] by simp
  show "dist_and_fingerprint_from_hash (hash k) = probe_df hash k 0"
    "bucket_idx_from_hash (m_shifts t) (hash k) = probe_pos hash (m_shifts t) (length (m_buckets t)) k 0"
    by (rule probe_start [OF table_okD(2) [OF assms] s buckets_okD(2) [OF table_okD(6) [OF assms]]])+
qed

lemma free_from:
  assumes ok: "table_ok hash key t"
  obtains s where "s < length (m_buckets t)" "free_at (m_buckets t) (probe_pos hash (m_shifts t) (length (m_buckets t)) k (j + s))"
proof -
  obtain f where f: "free_at (m_buckets t) f" using table_ok_free [OF ok] .
  obtain s where "s < length (m_buckets t)" "(bucket_idx_from_hash (m_shifts t) (hash k) + j + s) mod length (m_buckets t) = f"
    using reach_position f by (metis free_at_def)
  then show ?thesis using that f by (simp add: probe_pos_def add.assoc)
qed

lemma do_find_index:
  assumes ok: "table_ok hash key t"
  shows "do_find hash key k t = Some (index_of key k (m_values t))"
proof (cases "m_values t = []")
  case True
  then show ?thesis by (simp add: do_find_def index_of_def)
next
  case False
  let ?bs = "m_buckets t" let ?vs = "m_values t" let ?pos = "probe_pos hash (m_shifts t) (length ?bs) k"
  note n = buckets_okD(1,2) [OF table_okD(6) [OF ok]]
  have st: "dist_inc (probe_df hash k j) = probe_df hash k (Suc j)" "next_idx ?bs (?pos j) = ?pos (Suc j)" "?pos j < length ?bs"
    if "j \<le> length ?bs + 2" for j by (rule probe_step [OF n that])+
  have run: "do_find hash key k t =
      (if try_bucket key ?vs k (probe_df hash k 0) (?bs ! ?pos 0) then Some (Some (m_value_idx (?bs ! ?pos 0)))
       else if try_bucket key ?vs k (probe_df hash k 1) (?bs ! ?pos 1) then Some (Some (m_value_idx (?bs ! ?pos 1)))
       else find_loop key ?vs ?bs k (probe_df hash k 2) (?pos 2))"
    using False st(1,2) [of 0] st(1,2) [of 1] st(3) [of 0] st(3) [of 1]
    by (simp add: do_find_def table_start [OF ok] Let_def bucket_at_def numeral_2_eq_2)
  show ?thesis
  proof (cases rule: table_cases [OF ok, of k])
    case 1
    obtain s where "s < length ?bs" "free_at ?bs (?pos (2 + s))" using free_from [OF ok] .
    then have "find_loop key ?vs ?bs k (probe_df hash k 2) (?pos 2) = Some None"
      using find_loop_nobody [OF n 1(2)] by simp
    moreover have "\<not> try_bucket key ?vs k (probe_df hash k j) (?bs ! ?pos j)" if "j < 2" for j
      using nobody_misses [OF 1(2) st(3)] that by (auto simp: try_bucket_def)
    ultimately show ?thesis using run 1(1) by simp
  next
    case (2 v d)
    have hit: "m_value_idx (?bs ! ?pos j) = v" if "j < 2" "try_bucket key ?vs k (probe_df hash k j) (?bs ! ?pos j)" for j
      using holder_hit [OF 2(4) st(3), of j j] that by (auto simp: try_bucket_def)
    have "try_bucket key ?vs k (probe_df hash k d) (?bs ! ?pos d)"
      using holder_here [OF 2(4)] by (simp add: try_bucket_def)
    then have "find_loop key ?vs ?bs k (probe_df hash k 2) (?pos 2) = Some (Some v)"
      if "\<not> try_bucket key ?vs k (probe_df hash k 0) (?bs ! ?pos 0)" "\<not> try_bucket key ?vs k (probe_df hash k 1) (?bs ! ?pos 1)"
      using find_loop_holder [OF n, of hash key "m_shifts t" ?vs k v 2 "d - 2"] 2(4) that
      by (cases d; cases "d - 1") auto
    then show ?thesis using run hit [of 0] hit [of 1] 2(1) by auto
  qed
qed

lemma probe_index:
  assumes ok: "table_ok hash key t"
  shows "(\<exists>v. index_of key k (m_values t) = Some v \<and>
      probe key (m_values t @ ws) (m_buckets t) k (probe_df hash k 0) (probe_pos hash (m_shifts t) (length (m_buckets t)) k 0) =
        Some (Found v)) \<or>
    (\<exists>j. index_of key k (m_values t) = None \<and>
      probe key (m_values t @ ws) (m_buckets t) k (probe_df hash k 0) (probe_pos hash (m_shifts t) (length (m_buckets t)) k 0) =
        Some (Place (probe_df hash k j) (probe_pos hash (m_shifts t) (length (m_buckets t)) k j)) \<and>
      place_for hash (m_shifts t) (m_buckets t) k j)"
proof -
  let ?bs = "m_buckets t" let ?vs = "m_values t"
  note n = buckets_okD(1,2) [OF table_okD(6) [OF ok]]
  have idx: "m_value_idx (?bs ! i) < length ?vs" if "i < length ?bs" "df (?bs ! i) \<noteq> 0" for i
    using bucket_okD(2) [OF buckets_okD(4) [OF table_okD(6) [OF ok] that(1)] that(2)] .
  show ?thesis
  proof (cases rule: table_cases [OF ok, of k])
    case 1
    have "nobody key (?vs @ ws) ?bs k" using 1(2) idx by (simp add: nobody_def nth_append)
    moreover obtain s where "s < length ?bs" "free_at ?bs (probe_pos hash (m_shifts t) (length ?bs) k (0 + s))"
      using free_from [OF ok] .
    ultimately show ?thesis using probe_nobody [OF n, of key "?vs @ ws" k hash "m_shifts t" 0 s] 1(1) by auto
  next
    case (2 v d)
    have "holder hash key (m_shifts t) (?vs @ ws) ?bs k v d"
      using 2(2,4) idx by (auto simp: holder_def nth_append)
    then show ?thesis using probe_holder [OF n, of hash key "m_shifts t" "?vs @ ws" k v 0 d] 2(1) by simp
  qed
qed

definition list_emplace :: "('e \<Rightarrow> 'k) \<Rightarrow> 'e \<Rightarrow> 'e list \<Rightarrow> (nat \<times> bool) \<times> 'e list" where
  "list_emplace key e vs =
     (case index_of key (key e) vs of
        Some v \<Rightarrow> ((v, False), vs)
      | None \<Rightarrow> ((length vs, True), vs @ [e]))"

lemma emplace_list:
  assumes ok: "table_ok hash key t" and small: "length (m_values t) < 6710886"
  shows "\<exists>t'. emplace hash key e t = Some (fst (list_emplace key e (m_values t)), t') \<and>
      table_ok hash key t' \<and> m_values t' = snd (list_emplace key e (m_values t))"
    and "\<exists>t'. do_try_emplace hash key e t = Some (fst (list_emplace key e (m_values t)), t') \<and>
      table_ok hash key t' \<and> m_values t' = snd (list_emplace key e (m_values t))"
proof -
  have place: "\<exists>t'. place_element hash key (probe_df hash (key e) j) (probe_pos hash (m_shifts t) (length (m_buckets t)) (key e) j)
      (t\<lparr>m_values := m_values t @ [e]\<rparr>) = Some t' \<and> table_ok hash key t' \<and> m_values t' = m_values t @ [e]"
    if "index_of key (key e) (m_values t) = None" "place_for hash (m_shifts t) (m_buckets t) (key e) j" for j
    using place_element_ok [OF ok _ small that(2)] that(1) by (simp add: index_of_None)
  show "\<exists>t'. emplace hash key e t = Some (fst (list_emplace key e (m_values t)), t') \<and>
      table_ok hash key t' \<and> m_values t' = snd (list_emplace key e (m_values t))"
    using probe_index [OF ok, of "key e" "[e]"] place ok
    by (fastforce simp: emplace_def list_emplace_def table_start [OF ok] Let_def)
  show "\<exists>t'. do_try_emplace hash key e t = Some (fst (list_emplace key e (m_values t)), t') \<and>
      table_ok hash key t' \<and> m_values t' = snd (list_emplace key e (m_values t))"
    using probe_index [OF ok, of "key e" "[]"] place ok
    by (fastforce simp: do_try_emplace_def list_emplace_def table_start [OF ok])
qed

lemma dense_erase_index:
  assumes "distinct (map key vs)" and "v < length vs"
  shows "dense_erase (\<lambda>e. key e = key (vs ! v)) vs = butlast (vs[v := last vs])"
  using assms
proof (induction vs arbitrary: v)
  case (Cons x vs)
  show ?case
  proof (cases v)
    case (Suc u)
    then have u: "u < length vs" using Cons.prems(2) by simp
    then have "key x \<noteq> key (vs ! u)" using Cons.prems(1) by (metis distinct.simps(2) imageI list.simps(9) list.set_map nth_mem)
    moreover have "vs \<noteq> []" using u by auto
    ultimately show ?thesis using Cons.IH [OF _ u] Cons.prems(1) by (simp add: Suc)
  qed (cases vs; simp)
qed simp

lemma buckets_ok_values:
  assumes ok: "buckets_ok hash key shifts vs bs" and "length bs' = length bs"
    and same: "\<And>i. i < length bs \<Longrightarrow> df (bs' ! i) = df (bs ! i)"
    and empty: "\<And>i. i < length bs \<Longrightarrow> df (bs ! i) = 0 \<Longrightarrow> bs' ! i = bs ! i"
    and moved: "\<And>i. i < length bs \<Longrightarrow> df (bs ! i) \<noteq> 0 \<Longrightarrow> m_value_idx (bs' ! i) < length vs' \<and>
      key (vs' ! m_value_idx (bs' ! i)) = key (vs ! m_value_idx (bs ! i))"
  shows "buckets_ok hash key shifts vs' bs'"
proof -
  have "chained (bs' ! i) (bs' ! ((i + 1) mod length bs))" if "i < length bs" for i
    using buckets_okD(3) [OF ok that] next_neq(2) [OF that buckets_okD(1) [OF ok]] that by (simp add: chained_def same)
  moreover have "bucket_ok hash key shifts (length bs) vs' i (bs' ! i)" if "i < length bs" for i
    using buckets_okD(4) [OF ok that] moved [OF that] same [OF that] empty [OF that] by (auto simp: bucket_ok_def)
  ultimately show ?thesis using buckets_okD(1,2) [OF ok] assms(2) by (simp add: buckets_ok_def)
qed

lemma distinct_erase_at:
  assumes "distinct (map key vs)" and "v < length vs"
  shows "distinct (map key (butlast (vs[v := last vs])))"
proof -
  obtain a x r where vs: "vs = a @ x # r" "length a = v" using assms(2) by (metis id_take_nth_drop length_take min.absorb4)
  have "mset (butlast (vs[v := last vs])) = mset (a @ r)"
    using erase_at [of a x r] mset_last_butlast [of r] vs by auto
  then have "mset (map key (butlast (vs[v := last vs]))) = mset (map key (a @ r))" by (metis mset_map)
  moreover have "distinct (map key (a @ r))" using assms(1) by (simp add: vs(1))
  ultimately show ?thesis by (metis mset_eq_imp_distinct_iff)
qed

text \<open>After a bucket has left, the value of its index is overwritten by the last one.\<close>

lemma entries_without:
  assumes "add_mset v (entries bs) = mset [0..<n]"
  shows "x \<in># entries bs \<longleftrightarrow> x < n \<and> x \<noteq> v"
proof (cases "x = v")
  case True
  have "Suc (count (entries bs) v) = count (mset [0..<n]) v"
    using arg_cong [OF assms, of "\<lambda>M. count M v"] by simp
  also have "\<dots> \<le> 1" by (simp add: count_mset_set')
  finally show ?thesis using True by (simp add: not_in_iff)
next
  case False
  have "x \<in># add_mset v (entries bs) \<longleftrightarrow> x < n" by (simp add: assms)
  then show ?thesis using False by simp
qed

lemma drop_last_value:
  assumes ok: "buckets_ok hash key shifts vs bs" and "vs \<noteq> []"
    and ents: "add_mset (length vs - 1) (entries bs) = mset [0..<length vs]"
  shows "buckets_ok hash key shifts (butlast vs) bs" "entries bs = mset [0..<length vs - 1]"
proof -
  obtain m where m: "length vs = Suc m" using assms(2) by (cases "length vs") auto
  then show "entries bs = mset [0..<length vs - 1]" using ents by simp
  show "buckets_ok hash key shifts (butlast vs) bs"
  proof (rule buckets_ok_values [OF ok])
    fix i assume "i < length bs" "df (bs ! i) \<noteq> 0"
    then have "m_value_idx (bs ! i) \<in># entries bs" by (rule entriesI)
    then have "m_value_idx (bs ! i) < length vs \<and> m_value_idx (bs ! i) \<noteq> length vs - 1"
      using entries_without [OF ents, of "m_value_idx (bs ! i)"] by blast
    then have "m_value_idx (bs ! i) < length vs - 1" by linarith
    then show "m_value_idx (bs ! i) < length (butlast vs) \<and> key (butlast vs ! m_value_idx (bs ! i)) = key (vs ! m_value_idx (bs ! i))"
      by (simp add: nth_butlast)
  qed simp_all
qed

lemma move_last_value:
  assumes ok: "buckets_ok hash key shifts vs bs" and n: "length bs = 2 ^ (64 - shifts)" "shifts \<le> 64"
    and v: "v < length vs" "v \<noteq> length vs - 1" and ents: "add_mset v (entries bs) = mset [0..<length vs]"
  shows "\<exists>j. find_value_idx (length vs - 1) bs (bucket_idx_from_hash shifts (hash (key (last vs)))) = Some j \<and> j < length bs \<and>
    buckets_ok hash key shifts (butlast (vs[v := last vs])) (bs[j := (bs ! j)\<lparr>m_value_idx := v\<rparr>]) \<and>
    entries (bs[j := (bs ! j)\<lparr>m_value_idx := v\<rparr>]) = mset [0..<length vs - 1]"
proof -
  let ?L = "length vs - 1" let ?h = "bucket_idx_from_hash shifts (hash (key (last vs)))"
  have last: "last vs = vs ! ?L" using v(1) by (intro last_conv_nth) auto
  have "?h mod length bs < length bs" by (rule mod_less_divisor) (use buckets_okD(1) [OF ok] in linarith)
  then have h: "?h < length bs"
    using probe_start(2) [OF n buckets_okD(2) [OF ok], of hash "key (last vs)"] unfolding probe_pos_def add_0_right by metis
  have "?L \<in># entries bs" using entries_without [OF ents] v by auto
  then obtain q where q: "q < length bs" "df (bs ! q) \<noteq> 0" "m_value_idx (bs ! q) = ?L" by (rule entriesD)
  then have "m_value_idx (bs ! ((?h + (df (bs ! q) div 256 - 1)) mod length bs)) = ?L"
    using bucket_okD(4) [OF buckets_okD(4) [OF ok q(1)] q(2)] by (simp add: last)
  then obtain j where j: "find_value_idx ?L bs ?h = Some j" "j < length bs" "m_value_idx (bs ! j) = ?L"
    using find_value_idx_finds [OF buckets_okD(2) [OF ok] h] by blast
  have L: "?L \<noteq> 0" using v by auto
  then have nz: "df (bs ! j) \<noteq> 0" using buckets_okD(4) [OF ok j(2)] j(3) by (cases "df (bs ! j) = 0") (simp_all add: bucket_ok_def)
  let ?bs = "bs[j := (bs ! j)\<lparr>m_value_idx := v\<rparr>]"
  have "[0..<length vs] = [0..<?L] @ [?L]" using v(1) by (cases "length vs") simp_all
  then have ents': "entries ?bs = mset [0..<?L]" using entries_update [OF j(2), of "(bs ! j)\<lparr>m_value_idx := v\<rparr>"] nz j(3) ents by simp
  have "buckets_ok hash key shifts (butlast (vs[v := last vs])) ?bs"
  proof (rule buckets_ok_values [OF ok])
    fix i assume i: "i < length bs" "df (bs ! i) \<noteq> 0"
    have "m_value_idx (?bs ! i) \<in># entries ?bs" by (rule entriesI) (use i in \<open>cases "i = j"; simp\<close>)+
    then have lt: "m_value_idx (?bs ! i) < ?L" by (simp add: ents')
    moreover have "m_value_idx (bs ! i) \<noteq> v" using entriesI [OF i] entries_without [OF ents] by blast
    ultimately show "m_value_idx (?bs ! i) < length (butlast (vs[v := last vs])) \<and>
        key (butlast (vs[v := last vs]) ! m_value_idx (?bs ! i)) = key (vs ! m_value_idx (bs ! i))"
      using i v j by (cases "i = j") (simp_all add: nth_butlast last)
  qed (use nz j(2) in \<open>auto simp: nth_list_update\<close>)
  then show ?thesis using j ents' by blast
qed

lemma do_erase_list:
  assumes ok: "table_ok hash key t" and i: "i < length (m_buckets t)" "df (m_buckets t ! i) \<noteq> 0" "m_value_idx (m_buckets t ! i) = v"
  shows "\<exists>t'. do_erase hash key i t = Some t' \<and> table_ok hash key t' \<and> m_values t' = butlast ((m_values t)[v := last (m_values t)])"
proof -
  let ?bs = "m_buckets t" let ?vs = "m_values t" let ?n = "length ?bs" let ?L = "length ?vs - 1"
  let ?vs' = "?vs[v := last ?vs]"
  note bok = table_okD(6) [OF ok]
  have v: "v < length ?vs" using bucket_okD(2) [OF buckets_okD(4) [OF bok i(1)] i(2)] i(3) by simp
  then have last: "last ?vs = ?vs ! ?L" by (intro last_conv_nth) auto
  obtain f where free: "free_at ?bs f" using table_ok_free [OF ok] .
  obtain s where s: "s < ?n" "(i + s) mod ?n = f" using reach_position free by (metis free_at_def)
  obtain bs where bs: "shift_down i ?bs = Some bs" "length bs = ?n" "buckets_ok hash key (m_shifts t) ?vs bs"
      "add_mset v (entries bs) = mset [0..<length ?vs]"
    using shift_down_ok [OF bok i(1) _ s(1) i(2)] free s(2) i(3) table_okD(7) [OF ok] by auto
  have "load_capacity ?n < ?n" by (rule load_capacity_less) (use i(1) in linarith)
  then have L: "?L mod 2 ^ 32 = ?L" using table_okD(3,4) [OF ok] buckets_okD(2) [OF bok] by simp
  have at: "bucket_at ?bs i = Some (?bs ! i)" using i(1) by (simp add: bucket_at_def)
  have "\<exists>bs'. do_erase hash key i t = Some (t\<lparr>m_values := butlast ?vs', m_buckets := bs'\<rparr>) \<and> length bs' = ?n \<and>
      buckets_ok hash key (m_shifts t) (butlast ?vs') bs' \<and> entries bs' = mset [0..<?L]"
  proof (cases "v = ?L")
    case True
    have "?vs' = ?vs" by (simp add: True last)
    moreover have "?vs \<noteq> []" using v by auto
    ultimately show ?thesis using drop_last_value [OF bs(3)] bs i(3) True at
      by (intro exI [of _ bs]) (simp add: do_erase_def Let_def)
  next
    case False
    have "m_shifts t \<le> 64" using table_okD(1) [OF ok] by simp
    then obtain j where "find_value_idx ?L bs (bucket_idx_from_hash (m_shifts t) (hash (key (last ?vs)))) = Some j" "j < ?n"
        "buckets_ok hash key (m_shifts t) (butlast ?vs') (bs[j := (bs ! j)\<lparr>m_value_idx := v\<rparr>])"
        "entries (bs[j := (bs ! j)\<lparr>m_value_idx := v\<rparr>]) = mset [0..<?L]"
      using move_last_value [OF bs(3) _ _ v False bs(4)] bs(2) table_okD(2) [OF ok] by auto
    then show ?thesis using v i(3) False at bs(1,2) L
      by (intro exI [of _ "bs[j := (bs ! j)\<lparr>m_value_idx := v\<rparr>]"]) (simp add: do_erase_def Let_def)
  qed
  then obtain bs' where "do_erase hash key i t = Some (t\<lparr>m_values := butlast ?vs', m_buckets := bs'\<rparr>)" "length bs' = ?n"
      "buckets_ok hash key (m_shifts t) (butlast ?vs') bs'" "entries bs' = mset [0..<?L]" by auto
  then show ?thesis using table_okD [OF ok] distinct_erase_at [OF table_okD(5) [OF ok] v] by (auto simp: table_ok_def)
qed

definition list_erase :: "('e \<Rightarrow> 'k) \<Rightarrow> 'k \<Rightarrow> 'e list \<Rightarrow> nat \<times> 'e list" where
  "list_erase key k vs = (if k \<in> key ` set vs then 1 else 0, dense_erase (\<lambda>e. key e = k) vs)"

lemma dense_erase_absent: "k \<notin> key ` set vs \<Longrightarrow> dense_erase (\<lambda>e. key e = k) vs = vs"
  by (induction vs) auto

lemma do_erase_key_list:
  assumes ok: "table_ok hash key t"
  shows "\<exists>t'. do_erase_key hash key k t = Some (fst (list_erase key k (m_values t)), t') \<and>
    table_ok hash key t' \<and> m_values t' = snd (list_erase key k (m_values t))"
proof (cases "m_values t = []")
  case True
  then show ?thesis using ok by (simp add: do_erase_key_def list_erase_def)
next
  case False
  let ?bs = "m_buckets t" let ?vs = "m_values t" let ?pos = "probe_pos hash (m_shifts t) (length ?bs) k"
  note bok = table_okD(6) [OF ok]
  obtain f where free: "free_at ?bs f" using table_ok_free [OF ok] .
  have shifts: "m_shifts t \<le> 64" using table_okD(1) [OF ok] by simp
  obtain j s where j: "next_while_less ?bs (dist_and_fingerprint_from_hash (hash k)) (bucket_idx_from_hash (m_shifts t) (hash k)) =
      Some (probe_df hash k j, ?pos j)" and place: "place_for hash (m_shifts t) ?bs k j" and s: "free_at ?bs (?pos (j + s))" "j + s < length ?bs"
    and le: "\<And>v d. holder hash key (m_shifts t) ?vs ?bs k v d \<Longrightarrow> j \<le> d"
    using next_while_less_place [OF bok table_okD(2) [OF ok] shifts free] by metis
  have at: "bucket_at ?bs (?pos i) = Some (?bs ! ?pos i)" for i
  proof -
    have "0 < length ?bs" using buckets_okD(1) [OF bok] by linarith
    then show ?thesis by (simp add: bucket_at_def probe_pos_def)
  qed
  show ?thesis
  proof (cases rule: table_cases [OF ok, of k])
    case 1
    obtain j' where "erase_probe key ?vs ?bs k (probe_df hash k j) (?pos j) = Some (probe_df hash k j', ?pos j')"
        "probe_df hash k j' \<noteq> df (?bs ! ?pos j')"
      using erase_probe_nobody [OF buckets_okD(1,2) [OF bok] 1(2), of hash "m_shifts t" j s] s by auto
    then have "do_erase_key hash key k t = Some (0, t)" using False by (simp add: do_erase_key_def j at)
    moreover have "k \<notin> key ` set ?vs" using 1(1) by (simp add: index_of_None)
    ultimately show ?thesis using ok by (simp add: list_erase_def dense_erase_absent)
  next
    case (2 v d)
    have "j + (d - j) = d" using le [OF 2(4)] by simp
    moreover have "df (?bs ! ?pos j) = probe_df hash k j"
      using place holder_passes [OF 2(4) le [OF 2(4)]] by (simp add: place_for_def)
    ultimately obtain j' where j': "erase_probe key ?vs ?bs k (probe_df hash k j) (?pos j) = Some (probe_df hash k j', ?pos j')"
        "df (?bs ! ?pos j') = probe_df hash k j'" "m_value_idx (?bs ! ?pos j') = v"
      using erase_probe_holder [OF bok, of k v j "d - j"] 2(4) by auto
    then have "do_erase_key hash key k t = Option.bind (do_erase hash key (?pos j') t) (\<lambda>t'. Some (1, t'))"
      using False by (simp add: do_erase_key_def j at)
    moreover have "?pos j' < length ?bs" using at [of j'] by (simp add: bucket_at_def split: if_splits)
    moreover have "k \<in> key ` set ?vs" using 2(1) index_of_None [of key k ?vs] by auto
    moreover have "dense_erase (\<lambda>e. key e = k) ?vs = butlast (?vs[v := last ?vs])"
      using dense_erase_index [OF table_okD(5) [OF ok] 2(2)] 2(3) by simp
    ultimately show ?thesis using do_erase_list [OF ok _ _ j'(3)] j'(2) by (fastforce simp: list_erase_def)
  qed
qed

section \<open>Refinement\<close>

datatype ('e, 'k) table_op = Emplace 'e | Try_Emplace 'e | Erase 'k | Find 'k | Clear

datatype table_result = Added nat bool | Erased nat | At "nat option" | Cleared

fun table_step :: "('k \<Rightarrow> 64 word) \<Rightarrow> ('e \<Rightarrow> 'k) \<Rightarrow> ('e, 'k) table_op \<Rightarrow> 'e table \<Rightarrow> (table_result \<times> 'e table) option" where
  "table_step hash key (Emplace e) t = map_option (\<lambda>((v, b), t'). (Added v b, t')) (emplace hash key e t)"
| "table_step hash key (Try_Emplace e) t = map_option (\<lambda>((v, b), t'). (Added v b, t')) (do_try_emplace hash key e t)"
| "table_step hash key (Erase k) t = map_option (\<lambda>(n, t'). (Erased n, t')) (do_erase_key hash key k t)"
| "table_step hash key (Find k) t = map_option (\<lambda>v. (At v, t)) (do_find hash key k t)"
| "table_step hash key Clear t = Some (Cleared, clear t)"

fun table_run :: "('k \<Rightarrow> 64 word) \<Rightarrow> ('e \<Rightarrow> 'k) \<Rightarrow> ('e, 'k) table_op list \<Rightarrow> 'e table \<Rightarrow> (table_result list \<times> 'e table) option" where
  "table_run hash key [] t = Some ([], t)"
| "table_run hash key (op # ops) t =
     Option.bind (table_step hash key op t) (\<lambda>(r, t'). map_option (\<lambda>(rs, t''). (r # rs, t'')) (table_run hash key ops t'))"

text \<open>The specification: a list of elements with different keys.\<close>

fun dense_step :: "('e \<Rightarrow> 'k) \<Rightarrow> ('e, 'k) table_op \<Rightarrow> 'e list \<Rightarrow> table_result \<times> 'e list" where
  "dense_step key (Emplace e) vs = (case list_emplace key e vs of ((v, b), vs') \<Rightarrow> (Added v b, vs'))"
| "dense_step key (Try_Emplace e) vs = (case list_emplace key e vs of ((v, b), vs') \<Rightarrow> (Added v b, vs'))"
| "dense_step key (Erase k) vs = (case list_erase key k vs of (n, vs') \<Rightarrow> (Erased n, vs'))"
| "dense_step key (Find k) vs = (At (index_of key k vs), vs)"
| "dense_step key Clear vs = (Cleared, [])"

fun dense_run :: "('e \<Rightarrow> 'k) \<Rightarrow> ('e, 'k) table_op list \<Rightarrow> 'e list \<Rightarrow> table_result list \<times> 'e list" where
  "dense_run key [] vs = ([], vs)"
| "dense_run key (op # ops) vs =
     (case dense_step key op vs of (r, vs') \<Rightarrow> case dense_run key ops vs' of (rs, vs'') \<Rightarrow> (r # rs, vs''))"

lemma dense_step_maps:
  "snd (dense_step fst (Emplace (k, v)) m) = dm_emplace k v m" "snd (dense_step fst (Erase k) m) = dm_erase k m"
  by (simp_all add: list_emplace_def list_erase_def dm_emplace_def dm_erase_def dm_contains_def index_of_None
      split: option.splits)
    (metis index_of_None not_None_eq)

lemma dense_step_sets:
  "snd (dense_step (\<lambda>x. x) (Emplace x) xs) = ds_insert x xs" "snd (dense_step (\<lambda>x. x) (Erase x) xs) = ds_erase x xs"
  using index_of_None [of "\<lambda>x. x" x xs]
  by (auto simp: list_emplace_def list_erase_def ds_insert_def ds_erase_def split: option.splits)

lemma dense_step_length: "length (snd (dense_step key op vs)) \<le> Suc (length vs)"
proof (cases op)
  case (Erase k)
  have "length (dense_erase p vs) \<le> length vs" for p by (induction vs) auto
  then show ?thesis by (simp add: Erase list_erase_def le_SucI)
qed (auto simp: list_emplace_def split: option.splits)

lemma table_step_list:
  assumes "table_ok hash key t" and "length (m_values t) < 6710886"
  shows "\<exists>t'. table_step hash key op t = Some (fst (dense_step key op (m_values t)), t') \<and> table_ok hash key t' \<and>
    m_values t' = snd (dense_step key op (m_values t))"
proof (cases op)
  case (Emplace e)
  then show ?thesis using emplace_list(1) [OF assms, of e] by (auto split: prod.splits)
next
  case (Try_Emplace e)
  then show ?thesis using emplace_list(2) [OF assms, of e] by (auto split: prod.splits)
next
  case (Erase k)
  then show ?thesis using do_erase_key_list [OF assms(1), of k] by (auto split: prod.splits)
next
  case (Find k)
  then show ?thesis using do_find_index [OF assms(1), of k] assms(1) by simp
next
  case Clear
  then show ?thesis using table_ok_clear [OF assms(1)] by (simp add: clear_def)
qed

lemma table_run_list:
  assumes "table_ok hash key t" and "length (m_values t) + length ops \<le> 6710886"
  shows "\<exists>t'. table_run hash key ops t = Some (fst (dense_run key ops (m_values t)), t') \<and> table_ok hash key t' \<and>
    m_values t' = snd (dense_run key ops (m_values t))"
  using assms
proof (induction ops arbitrary: t)
  case (Cons op ops)
  then obtain t1 where t1: "table_step hash key op t = Some (fst (dense_step key op (m_values t)), t1)" "table_ok hash key t1"
      "m_values t1 = snd (dense_step key op (m_values t))" using table_step_list [of hash key t op] by auto
  have "length (m_values t1) + length ops \<le> 6710886" using dense_step_length [of key op "m_values t"] Cons.prems(2) t1(3) by simp
  from Cons.IH [OF t1(2) this] obtain t' where "table_run hash key ops t1 = Some (fst (dense_run key ops (m_values t1)), t')"
      "table_ok hash key t'" "m_values t' = snd (dense_run key ops (m_values t1))" by blast
  then show ?case using t1 by (auto split: prod.splits)
qed simp

text \<open>
  C8. The hash table is the dense list. Whatever the hash function, any sequence of insertions, deletions,
  look-ups and clears on a new table terminates without reading outside the bucket array, and gives the
  results and the vector of values of the list that appends new elements at the end and erases an element
  by moving the last one into its place. (Up to 6,710,886 operations, so that at most \<open>2 ^ 23\<close> buckets are
  needed and the 24 bits of a distance do not overflow.)
\<close>

theorem table_refines_dense_list:
  assumes "length ops \<le> 6710886"
  shows "\<exists>t. table_run hash key ops new_table = Some (fst (dense_run key ops []), t) \<and>
    m_values t = snd (dense_run key ops [])"
  using table_run_list [OF table_ok_new, of ops hash key] assms by (auto simp: new_table_values)

theorem table_refines_dense_list_witness:
  "\<exists>t. table_run (\<lambda>_. 0) fst [Emplace (1 :: nat, ''a''), Emplace (2, ''b''), Emplace (1, ''c''), Erase 1, Find 2] new_table =
     Some ([Added 0 True, Added 1 True, Added 0 False, Erased 1, At (Some 0)], t) \<and> m_values t = [(2, ''b'')]"
  using table_refines_dense_list
    [of "[Emplace (1 :: nat, ''a''), Emplace (2, ''b''), Emplace (1, ''c''), Erase 1, Find 2]" "\<lambda>_. 0" fst]
  by (simp add: list_emplace_def list_erase_def index_of_def)

end
