(* ===== verification/String_Utils.thy ===== *)
theory String_Utils
  imports Ichor_Prelude "HOL-Library.Word" "HOL-Library.Sublist"
begin

text \<open>
  The string functions of \<^verbatim>\<open>src/include/ichor/stl/StringUtils.h\<close>: decimal and hexadecimal numbers, splitting
  at a delimiter, version numbers.

  A \<^verbatim>\<open>string_view\<close> is the list of its characters. A \<^verbatim>\<open>char const *\<close> is the list of the characters from there
  to the terminating NUL. Unsigned numbers are words and wrap around; in \<^verbatim>\<open>FastAtoi\<close> the accumulator is
  signed, where an overflow is undefined behaviour, which is the result \<open>None\<close> of the model.
\<close>

type_synonym u8 = "8 word"
type_synonym u64 = "64 word"

section \<open>Numbers\<close>

definition digit_of :: "char \<Rightarrow> u8" where
  "digit_of c = of_char c - 48"

definition in_int64 :: "int \<Rightarrow> bool" where
  "in_int64 v \<longleftrightarrow> - (2 ^ 63) \<le> v \<and> v < 2 ^ 63"

fun atoi_loop :: "string \<Rightarrow> int \<Rightarrow> int option" where
  "atoi_loop [] val = Some val"
| "atoi_loop (c # str) val =
     (if digit_of c \<le> 9
      then let val' = val * 10 + uint (digit_of c) in if in_int64 val' then atoi_loop str val' else None
      else Some val)"

definition FastAtoi :: "string \<Rightarrow> int option" where
  "FastAtoi str =
     (if str \<noteq> [] \<and> hd str = CHR ''-'' then map_option uminus (atoi_loop (tl str) 0) else atoi_loop str 0)"

fun atoiu_loop :: "string \<Rightarrow> u64 \<Rightarrow> u64" where
  "atoiu_loop [] val = val"
| "atoiu_loop (c # str) val =
     (if digit_of c \<le> 9 then atoiu_loop str (val * 10 + ucast (digit_of c)) else val)"

definition FastAtoiu :: "string \<Rightarrow> u64" where
  "FastAtoiu str = atoiu_loop str 0"

definition digittoval :: "char \<Rightarrow> int" where
  "digittoval c =
     (let n = (of_char c :: nat)
      in if 48 \<le> n \<and> n \<le> 57 then int n - 48
         else if 65 \<le> n \<and> n \<le> 70 then int n - 55
         else if 97 \<le> n \<and> n \<le> 102 then int n - 87
         else - 1)"

fun hex_loop :: "string \<Rightarrow> nat \<Rightarrow> u64 \<Rightarrow> u64" where
  "hex_loop [] shift ret = ret"
| "hex_loop (c # rev_str) shift ret =
     hex_loop rev_str (shift + 4) (ret + push_bit shift (word_of_int (digittoval c)))"

definition FastHexToUint :: "string \<Rightarrow> u64" where
  "FastHexToUint str = (if length str > 16 then - 1 else hex_loop (rev str) 0 0)"

fun safe_hex_loop :: "string \<Rightarrow> nat \<Rightarrow> u64 \<Rightarrow> u64 option" where
  "safe_hex_loop [] shift ret = Some ret"
| "safe_hex_loop (c # rev_str) shift ret =
     (if digittoval c = - 1 then None
      else safe_hex_loop rev_str (shift + 4) (ret + push_bit shift (word_of_int (digittoval c))))"

definition SafeHexToUint :: "string \<Rightarrow> u64 option" where
  "SafeHexToUint str = (if length str > 16 then None else safe_hex_loop (rev str) 0 0)"

section \<open>Splitting\<close>

text \<open>\<^verbatim>\<open>std::search\<close>: the position of the first occurrence, or the end.\<close>

fun search :: "string \<Rightarrow> string \<Rightarrow> nat" where
  "search [] pat = 0"
| "search (c # str) pat = (if prefix pat (c # str) then 0 else Suc (search str pat))"

text \<open>
  The loop of \<^verbatim>\<open>split\<close>, from \<^verbatim>\<open>first\<close> on. With an empty delimiter the loop of the code does not advance;
  \<open>None\<close> is a loop that does not return.
\<close>

partial_function (option) split_loop :: "string \<Rightarrow> bool \<Rightarrow> string \<Rightarrow> string list option" where
  "split_loop delims includeDelims str =
     (if str = [] then Some []
      else let second = search str delims;
               end' = (if includeDelims \<and> second < length str then second + length delims else second)
           in if second = length str then Some [take end' str]
              else Option.bind (split_loop delims includeDelims (drop (second + length delims) str))
                     (\<lambda>rest. Some (take end' str # rest)))"

definition split :: "string \<Rightarrow> string \<Rightarrow> bool \<Rightarrow> string list option" where
  "split str delims includeDelims = split_loop delims includeDelims str"

definition IsOnlyDigits :: "string \<Rightarrow> bool" where
  "IsOnlyDigits str = list_all (\<lambda>c. 48 \<le> (of_char c :: nat) \<and> (of_char c :: nat) \<le> 57) str"

section \<open>Versions\<close>

record Version =
  major :: u64
  minor :: u64
  patch :: u64

definition version_char :: "char \<Rightarrow> bool" where
  "version_char c \<longleftrightarrow> c \<in> set ''0123456789.''"

text \<open>
  The numbers are read through \<^verbatim>\<open>data()\<close> of the parts, which has lost the length of the view: a part
  extends to the end of the surrounding memory. \<open>beyond\<close> is what follows the view there, up to a NUL.
\<close>

definition offset :: "string \<Rightarrow> nat \<Rightarrow> string list \<Rightarrow> nat" where
  "offset delims i parts = (\<Sum>p \<leftarrow> take i parts. length p + length delims)"

definition parseStringAsVersion :: "string \<Rightarrow> string \<Rightarrow> Version option" where
  "parseStringAsVersion str beyond =
     (if length str < 5 then None
      else if list_ex (\<lambda>c. \<not> version_char c) str then None
      else if last str = CHR ''.'' then None
      else case split str ''.'' False of
        None \<Rightarrow> None
      | Some splitStr \<Rightarrow>
          if length splitStr \<noteq> 3 then None
          else let data = (\<lambda>i. drop (offset ''.'' i splitStr) (str @ beyond))
               in Some \<lparr>major = FastAtoiu (data 0), minor = FastAtoiu (data 1), patch = FastAtoiu (data 2)\<rparr>)"

text \<open>\<^verbatim>\<open>toString\<close> formats with fmt; \<open>fmt_u64\<close> is its rendering of a number.\<close>

definition version_toString :: "(u64 \<Rightarrow> string) \<Rightarrow> Version \<Rightarrow> string" where
  "version_toString fmt_u64 v = fmt_u64 (major v) @ ''.'' @ fmt_u64 (minor v) @ ''.'' @ fmt_u64 (patch v)"

definition basename :: "string \<Rightarrow> string" where
  "basename filename = rev (takeWhile (\<lambda>c. c \<noteq> CHR ''/'') (rev filename))"

section \<open>Decimal numbers\<close>

definition is_digit :: "char \<Rightarrow> bool" where
  "is_digit c \<longleftrightarrow> 48 \<le> (of_char c :: nat) \<and> (of_char c :: nat) \<le> 57"

definition digit_value :: "char \<Rightarrow> nat" where
  "digit_value c = of_char c - 48"

definition decimal :: "string \<Rightarrow> nat" where
  "decimal str = foldl (\<lambda>v c. v * 10 + digit_value c) 0 str"

lemma of_char_u8: "(of_char c :: u8) = word_of_nat (of_char c)"
  by (simp add: of_nat_of_char)

lemma digit_of_le [simp]: "digit_of c \<le> 9 \<longleftrightarrow> is_digit c"
  unfolding digit_of_def is_digit_def of_char_u8 word_le_nat_alt
  using nat_of_char_less_256 [of c]
  by (cases "48 \<le> (of_char c :: nat)") (auto simp: unat_of_nat unat_sub_if' word_le_nat_alt)

lemma digit_value_bound: "is_digit c \<Longrightarrow> digit_value c \<le> 9"
  by (auto simp: is_digit_def digit_value_def)

lemma unat_digit_of: "is_digit c \<Longrightarrow> unat (digit_of c) = digit_value c"
  unfolding digit_of_def is_digit_def digit_value_def of_char_u8
  by (simp add: unat_of_nat unat_sub_if' word_le_nat_alt)

lemma ucast_digit_of: "is_digit c \<Longrightarrow> (ucast (digit_of c) :: u64) = word_of_nat (digit_value c)"
  using unat_digit_of [of c] by (metis of_nat_unat)

lemma uint_digit_of: "is_digit c \<Longrightarrow> uint (digit_of c) = int (digit_value c)"
  using unat_digit_of [of c] by (simp add: uint_nat)

lemma atoiu_value:
  "atoiu_loop str (word_of_nat n) = word_of_nat (foldl (\<lambda>v c. v * 10 + digit_value c) n (takeWhile is_digit str))"
proof (induction str arbitrary: n)
  case (Cons c str)
  show ?case using Cons.IH [of "n * 10 + digit_value c"] by (simp add: ucast_digit_of)
qed simp

text \<open>
  \<^verbatim>\<open>FastAtoiu\<close> computes the number that its leading digits denote, modulo \<^verbatim>\<open>2^64\<close>: exactly the number when
  it fits, and what wraps around when it does not; anything after the digits is ignored.
\<close>

lemma FastAtoiu_value: "unat (FastAtoiu str) = decimal (takeWhile is_digit str) mod 2 ^ 64"
  using atoiu_value [of str 0] by (simp add: FastAtoiu_def decimal_def unat_of_nat)

lemma foldl_decimal_mono: "n \<le> foldl (\<lambda>v c. v * 10 + digit_value c) n ds"
proof (induction ds arbitrary: n)
  case (Cons c ds)
  show ?case using Cons.IH [of "n * 10 + digit_value c"] by simp
qed simp

lemma atoi_value:
  assumes "n < 2 ^ 63"
  shows "atoi_loop str (int n) =
    (let v = foldl (\<lambda>v c. v * 10 + digit_value c) n (takeWhile is_digit str) in if v < 2 ^ 63 then Some (int v) else None)"
  using assms
proof (induction str arbitrary: n)
  case (Cons c str)
  show ?case
  proof (cases "is_digit c")
    case True
    let ?n = "n * 10 + digit_value c"
    have v: "int n * 10 + uint (digit_of c) = int ?n" using True by (simp add: uint_digit_of)
    show ?thesis
    proof (cases "?n < 2 ^ 63")
      case small: True
      have "in_int64 (int ?n)" using small by (simp add: in_int64_def)
      then show ?thesis using Cons.IH [OF small] True v by (simp add: Let_def)
    next
      case False
      have "\<not> in_int64 (int ?n)" using False by (simp add: in_int64_def)
      moreover have "\<not> foldl (\<lambda>v c. v * 10 + digit_value c) ?n (takeWhile is_digit str) < 2 ^ 63"
        using foldl_decimal_mono [of ?n "takeWhile is_digit str"] False by linarith
      ultimately show ?thesis using True v by (simp add: Let_def)
    qed
  qed (use Cons.prems in \<open>simp add: Let_def\<close>)
qed simp

text \<open>
  \<^verbatim>\<open>FastAtoi\<close> yields the number its digits denote, with its sign, as long as the digits denote less than
  \<^verbatim>\<open>2^63\<close>; from there on its accumulator overflows, also for the text of the smallest 64 bit integer.
\<close>

lemma FastAtoi_value:
  "FastAtoi str =
     (let neg = (str \<noteq> [] \<and> hd str = CHR ''-'');
          v = decimal (takeWhile is_digit (if neg then tl str else str))
      in if v < 2 ^ 63 then Some (if neg then - int v else int v) else None)"
  using atoi_value [of 0 str] atoi_value [of 0 "tl str"]
  by (simp add: FastAtoi_def decimal_def Let_def)

section \<open>Hexadecimal numbers\<close>

definition is_hex :: "char \<Rightarrow> bool" where
  "is_hex c \<longleftrightarrow> digittoval c \<noteq> - 1"

definition hexadecimal :: "string \<Rightarrow> nat" where
  "hexadecimal str = foldl (\<lambda>v c. v * 16 + nat (digittoval c)) 0 str"

lemma digittoval_range: "is_hex c \<Longrightarrow> 0 \<le> digittoval c \<and> digittoval c < 16"
  by (auto simp: is_hex_def digittoval_def Let_def split: if_splits)

fun rev_hex :: "string \<Rightarrow> nat" where
  "rev_hex [] = 0"
| "rev_hex (c # rs) = nat (digittoval c) + 16 * rev_hex rs"

lemma hexadecimal_rev: "hexadecimal str = rev_hex (rev str)"
  by (induction str rule: rev_induct) (simp_all add: hexadecimal_def)

lemma rev_hex_bound: "list_all is_hex rs \<Longrightarrow> rev_hex rs < 16 ^ length rs"
proof (induction rs)
  case (Cons c rs)
  then have "nat (digittoval c) \<le> 15" using digittoval_range [of c] by auto
  then show ?case using Cons by simp
qed simp

lemma shifted_digit:
  "is_hex c \<Longrightarrow> (push_bit k (word_of_int (digittoval c)) :: u64) = word_of_nat (2 ^ k * nat (digittoval c))"
  using digittoval_range [of c]
  by (simp add: push_bit_eq_mult)

lemma safe_hex_loop_value:
  "safe_hex_loop rs k (word_of_nat n) =
     (if list_all is_hex rs then Some (word_of_nat (n + 2 ^ k * rev_hex rs)) else None)"
proof (induction rs arbitrary: k n)
  case (Cons c rs)
  show ?case
  proof (cases "is_hex c")
    case True
    then have "digittoval c \<noteq> - 1" by (simp add: is_hex_def)
    then have "safe_hex_loop (c # rs) k (word_of_nat n) = safe_hex_loop rs (k + 4) (word_of_nat (n + 2 ^ k * nat (digittoval c)))"
      using shifted_digit [OF True, of k] by simp
    also have "\<dots> = (if list_all is_hex rs then Some (word_of_nat (n + 2 ^ k * nat (digittoval c) + 2 ^ (k + 4) * rev_hex rs)) else None)"
      by (rule Cons.IH)
    finally show ?thesis using True by (simp add: power_add algebra_simps)
  qed (simp add: is_hex_def)
qed simp

text \<open>
  C40. \<^verbatim>\<open>SafeHexToUint\<close> is safe: it yields the number its input denotes, never one that wrapped around, and
  yields nothing exactly when the input is longer than sixteen characters or has a character that is
  not a hexadecimal digit.
\<close>

theorem SafeHexToUint_value:
  "map_option unat (SafeHexToUint str) =
     (if length str \<le> 16 \<and> list_all is_hex str then Some (hexadecimal str) else None)"
proof (cases "length str \<le> 16 \<and> list_all is_hex str")
  case True
  then have "rev_hex (rev str) < 16 ^ length str" using rev_hex_bound [of "rev str"] by (simp add: list_all_iff)
  also have "\<dots> \<le> (16 :: nat) ^ 16" using True by (intro power_increasing) auto
  finally show ?thesis
    using True safe_hex_loop_value [of "rev str" 0 0]
    by (simp add: SafeHexToUint_def hexadecimal_rev unat_of_nat list_all_iff)
next
  case False
  then show ?thesis
    using safe_hex_loop_value [of "rev str" 0 0] by (auto simp: SafeHexToUint_def list_all_iff)
qed

text \<open>A rendering of numbers by sixteen hexadecimal digits.\<close>

definition hex_char :: "nat \<Rightarrow> char" where
  "hex_char d = (if d < 10 then char_of (48 + d) else char_of (87 + d))"

primrec rev_hex_digits :: "nat \<Rightarrow> nat \<Rightarrow> string" where
  "rev_hex_digits 0 n = []"
| "rev_hex_digits (Suc k) n = hex_char (n mod 16) # rev_hex_digits k (n div 16)"

definition hex_digits :: "nat \<Rightarrow> string" where
  "hex_digits n = rev (rev_hex_digits 16 n)"

lemma digittoval_hex_char: "d < 16 \<Longrightarrow> digittoval (hex_char d) = int d"
  by (auto simp: digittoval_def hex_char_def Let_def)

lemma rev_hex_digits_value:
  "list_all is_hex (rev_hex_digits k n) \<and> length (rev_hex_digits k n) = k \<and> rev_hex (rev_hex_digits k n) = n mod 16 ^ k"
proof (induction k arbitrary: n)
  case (Suc k)
  have "n mod 16 ^ Suc k = n mod 16 + 16 * (n div 16 mod 16 ^ k)" by (simp add: mod_mult2_eq add.commute)
  then show ?case using Suc [of "n div 16"] digittoval_hex_char [of "n mod 16"] by (simp add: is_hex_def)
qed simp

lemma SafeHexToUint_hex_digits: "n < 2 ^ 64 \<Longrightarrow> SafeHexToUint (hex_digits n) = Some (word_of_nat n)"
  using safe_hex_loop_value [of "rev_hex_digits 16 n" 0 0] rev_hex_digits_value [of 16 n]
  by (simp add: SafeHexToUint_def hex_digits_def)

section \<open>Splitting ends\<close>

lemma search_bound: "search str pat \<le> length str"
  by (induction str) auto

lemma search_found: "search str pat < length str \<Longrightarrow> prefix pat (drop (search str pat) str)"
  by (induction str) auto

lemma search_room:
  assumes "search str pat < length str"
  shows "search str pat + length pat \<le> length str"
proof -
  have "length pat \<le> length (drop (search str pat) str)"
    using search_found [OF assms] prefix_length_le by blast
  then show ?thesis using assms by simp
qed

fun join :: "string \<Rightarrow> string list \<Rightarrow> string" where
  "join d [] = []"
| "join d [p] = p"
| "join d (p # ps) = p @ d @ join d ps"

lemma join_Cons: "ps \<noteq> [] \<Longrightarrow> join d (p # ps) = p @ d @ join d ps"
  by (cases ps) simp_all

lemma split_cut:
  assumes "str \<noteq> []" and "search str delims < length str"
  shows "str = take (search str delims) str @ delims @ drop (search str delims + length delims) str"
proof -
  have "drop (search str delims) str = delims @ drop (length delims) (drop (search str delims) str)"
    using search_found [OF assms(2)] by (metis append_eq_conv_conj prefixE)
  then show ?thesis by (metis append_take_drop_id drop_drop add.commute)
qed

lemma split_joins:
  assumes "delims \<noteq> []"
  shows "\<exists>with without. split_loop delims True str = Some with \<and> split_loop delims False str = Some without \<and>
    concat with = str \<and> (without = [] \<longleftrightarrow> str = []) \<and> (str = join delims without \<or> str = join delims without @ delims)"
proof (induction "length str" arbitrary: str rule: less_induct)
  case less
  let ?k = "search str delims"
  show ?case
  proof (cases "str = [] \<or> ?k = length str")
    case True
    then have "split_loop delims b str = Some (if str = [] then [] else [str])" for b
      by (subst split_loop.simps) (auto simp: Let_def)
    then show ?thesis by simp
  next
    case False
    then have k: "?k < length str" using search_bound [of str delims] by simp
    let ?rest = "drop (?k + length delims) str"
    have cut: "str = take ?k str @ delims @ ?rest" using split_cut [OF _ k] False by blast
    have "length ?rest < length str" using assms k False by auto
    then obtain pw po where IH: "split_loop delims True ?rest = Some pw" "split_loop delims False ?rest = Some po"
      "concat pw = ?rest" "po = [] \<longleftrightarrow> ?rest = []" "?rest = join delims po \<or> ?rest = join delims po @ delims"
      using less by blast
    have "split_loop delims True str = Some (take (?k + length delims) str # pw)"
      using False k IH(1) by (subst split_loop.simps) (simp add: Let_def)
    moreover have "split_loop delims False str = Some (take ?k str # po)"
      using False k IH(2) by (subst split_loop.simps) (simp add: Let_def)
    moreover have "str = join delims (take ?k str # po) \<or> str = join delims (take ?k str # po) @ delims"
      using IH(4,5) cut by (cases "po = []") (auto simp: join_Cons)
    ultimately show ?thesis using IH(3) False by simp
  qed
qed

lemma split_empty_delims: "split_loop delims b str = Some parts \<Longrightarrow> delims = [] \<longrightarrow> str = []"
proof (erule split_loop.raw_induct [rotated])
  fix f :: "string \<Rightarrow> bool \<Rightarrow> string \<Rightarrow> string list option" and d b s r
  assume IH: "\<And>d b s r. f d b s = Some r \<Longrightarrow> d = [] \<longrightarrow> s = []"
    and run: "(if s = [] then Some []
      else let second = search s d; end' = if b \<and> second < length s then second + length d else second
           in if second = length s then Some [take end' s]
              else Option.bind (f d b (drop (second + length d) s)) (\<lambda>rest. Some (take end' s # rest))) = Some r"
  show "d = [] \<longrightarrow> s = []"
  proof
    assume d: "d = []"
    have "search s [] = 0" by (cases s) simp_all
    then show "s = []" using run IH [of d b s] d by (auto simp: Let_def bind_eq_Some_conv split: if_splits)
  qed
qed



section \<open>Reading back a version\<close>

lemma search_char: "d \<notin> set a \<Longrightarrow> search (a @ d # rest) [d] = length a"
  by (induction a) auto

lemma search_char_absent: "d \<notin> set a \<Longrightarrow> search a [d] = length a"
  by (induction a) auto

lemma split_char_last: "d \<notin> set a \<Longrightarrow> a \<noteq> [] \<Longrightarrow> split_loop [d] False a = Some [a]"
  by (subst split_loop.simps) (simp add: search_char_absent)

lemma split_char: "d \<notin> set a \<Longrightarrow> split_loop [d] False (a @ d # rest) = map_option ((#) a) (split_loop [d] False rest)"
  by (subst split_loop.simps) (simp add: search_char Let_def map_conv_bind_option comp_def)

lemma digit_version_char: "is_digit c \<Longrightarrow> version_char c \<and> c \<noteq> CHR ''.''"
proof -
  assume c: "is_digit c"
  define n where "n = (of_char c :: nat)"
  have "n = 48 \<or> n = 49 \<or> n = 50 \<or> n = 51 \<or> n = 52 \<or> n = 53 \<or> n = 54 \<or> n = 55 \<or> n = 56 \<or> n = 57"
    using c unfolding is_digit_def n_def [symmetric] by presburger
  moreover have "c = char_of n" by (simp add: n_def)
  ultimately show ?thesis by (elim disjE) (simp_all add: version_char_def char_of_def bit_0)
qed

text \<open>
  The decimal notation fmt prints: digits, at least one, denoting the number.
\<close>

definition decimal_notation :: "(u64 \<Rightarrow> string) \<Rightarrow> bool" where
  "decimal_notation fmt_u64 \<longleftrightarrow> (\<forall>n. fmt_u64 n \<noteq> [] \<and> list_all is_digit (fmt_u64 n) \<and> decimal (fmt_u64 n) = unat n)"

lemma FastAtoiu_notation:
  assumes "decimal_notation fmt_u64" and "rest = [] \<or> \<not> is_digit (hd rest)"
  shows "FastAtoiu (fmt_u64 n @ rest) = n"
proof -
  have "takeWhile is_digit (fmt_u64 n @ rest) = fmt_u64 n"
    using assms unfolding decimal_notation_def
    by (cases rest) (auto simp: list_all_iff takeWhile_eq_all_conv takeWhile_append2)
  then show ?thesis
    using atoiu_value [of "fmt_u64 n @ rest" 0] assms(1) by (simp add: FastAtoiu_def decimal_notation_def decimal_def)
qed

text \<open>
  C39. A version that was printed is read back. For every version, whatever its numbers,
  \<^verbatim>\<open>parseStringAsVersion\<close> of its text is that version again, if the view ends where the memory it points
  to goes on with something that is not a digit.
\<close>

theorem version_roundtrip:
  assumes "decimal_notation fmt_u64" and "beyond = [] \<or> \<not> is_digit (hd beyond)"
  shows "parseStringAsVersion (version_toString fmt_u64 v) beyond = Some v"
proof -
  let ?a = "fmt_u64 (major v)" let ?b = "fmt_u64 (minor v)" let ?c = "fmt_u64 (patch v)"
  have d: "fmt_u64 n \<noteq> []" "\<forall>x \<in> set (fmt_u64 n). is_digit x" for n
    using assms(1) by (auto simp: decimal_notation_def list_all_iff)
  have dots: "CHR ''.'' \<notin> set (fmt_u64 n)" "\<forall>x \<in> set (fmt_u64 n). version_char x" for n
    using d(2) digit_version_char by blast+
  let ?s = "version_toString fmt_u64 v"
  have s: "?s = ?a @ CHR ''.'' # ?b @ CHR ''.'' # ?c" by (simp add: version_toString_def)
  have "0 < length (fmt_u64 n)" for n using d(1) by simp
  from this [of "major v"] this [of "minor v"] this [of "patch v"]
  have len: "\<not> length ?s < 5" unfolding s length_append list.size by linarith
  have "version_char CHR ''.''" by (simp add: version_char_def)
  then have chars: "\<not> list_ex (\<lambda>c. \<not> version_char c) ?s"
    using dots(2) [of "major v"] dots(2) [of "minor v"] dots(2) [of "patch v"] unfolding s list_ex_iff by auto
  have "last ?s = last ?c" "last ?c \<in> set ?c" using d(1) [of "patch v"] by (simp_all add: s)
  then have last: "last ?s \<noteq> CHR ''.''" using dots(1) [of "patch v"] by metis
  have parts: "split ?s ''.'' False = Some [?a, ?b, ?c]"
    using dots(1) d(1) by (simp add: split_def s split_char split_char_last)
  have nodigit: "\<not> is_digit CHR ''.''" by (simp add: is_digit_def)
  have "FastAtoiu (?s @ beyond) = major v" "FastAtoiu (?b @ CHR ''.'' # ?c @ beyond) = minor v" "FastAtoiu (?c @ beyond) = patch v"
    using FastAtoiu_notation [OF assms(1)] assms(2) nodigit by (simp_all add: s)
  moreover have "offset ''.'' 0 [?a, ?b, ?c] = 0" "offset ''.'' 1 [?a, ?b, ?c] = Suc (length ?a)"
    "offset ''.'' 2 [?a, ?b, ?c] = Suc (Suc (length ?a + length ?b))"
    by (simp_all add: offset_def numeral_2_eq_2)
  moreover have "drop (Suc (length ?a)) (?s @ beyond) = ?b @ CHR ''.'' # ?c @ beyond"
    "drop (Suc (Suc (length ?a + length ?b))) (?s @ beyond) = ?c @ beyond"
    by (simp_all add: s)
  ultimately show ?thesis
    unfolding parseStringAsVersion_def if_not_P [OF len] if_not_P [OF chars] if_not_P [OF last] parts option.case
    by simp
qed

text \<open>A rendering of numbers that has the property asked of fmt.\<close>

fun decimal_digits :: "nat \<Rightarrow> string" where
  "decimal_digits n = (if n < 10 then [char_of (48 + n)] else decimal_digits (n div 10) @ [char_of (48 + n mod 10)])"

declare decimal_digits.simps [simp del]

lemma digit_char: "n < 10 \<Longrightarrow> is_digit (char_of (48 + n)) \<and> digit_value (char_of (48 + n)) = n"
  by (simp add: is_digit_def digit_value_def)

lemma decimal_digits_correct: "decimal_digits n \<noteq> [] \<and> list_all is_digit (decimal_digits n) \<and> decimal (decimal_digits n) = n"
proof (induction n rule: decimal_digits.induct)
  case (1 n)
  show ?case
    using 1 digit_char [of n] digit_char [of "n mod 10"]
    by (subst (1 2 3) decimal_digits.simps) (simp add: decimal_def)
qed

lemma decimal_notation_digits: "decimal_notation (\<lambda>n. decimal_digits (unat n))"
  using decimal_digits_correct by (simp add: decimal_notation_def)

theorem version_roundtrip_witness:
  "\<exists>fmt_u64. decimal_notation fmt_u64 \<and>
     parseStringAsVersion (version_toString fmt_u64 \<lparr>major = 1, minor = 20, patch = 3\<rparr>) ''-rc'' = Some \<lparr>major = 1, minor = 20, patch = 3\<rparr>"
  using version_roundtrip [OF decimal_notation_digits, of "''-rc''"] decimal_notation_digits
  by (auto simp: is_digit_def)

text \<open>
  \<^verbatim>\<open>parseStringAsVersion\<close> reads past its argument, and accepts a version with a missing number. Of the view
  \<^verbatim>\<open>1.2.3\<close> in a buffer that goes on with \<^verbatim>\<open>45\<close>, the last number comes out as 345; and \<^verbatim>\<open>1..23\<close> passes for
  1.0.23.
\<close>

lemma version_reads_past_view:
  "parseStringAsVersion ''1.2.3'' ''45'' = Some \<lparr>major = 1, minor = 2, patch = 345\<rparr> \<and>
   parseStringAsVersion ''1..23'' [] = Some \<lparr>major = 1, minor = 0, patch = 23\<rparr>"
proof -
  have "split ''1.2.3'' ''.'' False = Some [''1'', ''2'', ''3'']" "split ''1..23'' ''.'' False = Some [''1'', [], ''23'']"
    by (simp_all add: split_def split_loop.simps Let_def)
  then show ?thesis
    by (simp add: parseStringAsVersion_def version_char_def offset_def FastAtoiu_def is_digit_def digit_of_def)
qed

end
