(* ===== verification/Http_Common.thy ===== *)
theory Http_Common
  imports String_Utils
begin

text \<open>
  The vocabulary of the HTTP services: methods, statuses and the tables between them and their texts, from
  \<^verbatim>\<open>HttpCommon.h\<close> and \<^verbatim>\<open>HttpInternal.cpp\<close> (under \<^verbatim>\<open>src/include/ichor/services/network/http/\<close> and
  \<^verbatim>\<open>src/src/services/network/http/\<close>), the requests and responses, and the errors of parsing them.

  A status is a number, as the client casts whatever number it read to the enumeration.
\<close>

datatype HttpMethod =
    M_unknown | M_delete | M_get | M_head | M_post | M_put | M_connect | M_options | M_trace
    | M_copy | M_lock | M_mkcol | M_move | M_propfind | M_proppatch | M_search | M_unlock | M_bind
    | M_rebind | M_unbind | M_acl | M_report | M_mkactivity | M_checkout | M_merge | M_msearch
    | M_notify | M_subscribe | M_unsubscribe | M_patch | M_purge | M_mkcalendar | M_link | M_unlink

text \<open>The enumerators of \<^verbatim>\<open>HttpStatus\<close> with their values.\<close>

type_synonym HttpStatus = nat

definition HttpStatus_values :: "(string \<times> HttpStatus) list" where
  "HttpStatus_values =
     [(''continue'', 100), (''switching_protocols'', 101), (''processing'', 102), (''ok'', 200),
      (''created'', 201), (''accepted'', 202), (''non_authoritative_information'', 203),
      (''no_content'', 204), (''reset_content'', 205), (''partial_content'', 206),
      (''multi_status'', 207), (''already_reported'', 208), (''im_used'', 226),
      (''multiple_choices'', 300), (''moved_permanently'', 301), (''found'', 302),
      (''see_other'', 303), (''not_modified'', 304), (''use_proxy'', 305),
      (''temporary_redirect'', 307), (''permanent_redirect'', 308), (''bad_request'', 400),
      (''unauthorized'', 401), (''payment_required'', 402), (''forbidden'', 403),
      (''not_found'', 404), (''method_not_allowed'', 405), (''not_acceptable'', 406),
      (''proxy_authentication_required'', 407), (''request_timeout'', 408), (''conflict'', 409),
      (''gone'', 410), (''length_required'', 411), (''precondition_failed'', 412),
      (''payload_too_large'', 413), (''uri_too_long'', 414), (''unsupported_media_type'', 415),
      (''range_not_satisfiable'', 416), (''expectation_failed'', 417),
      (''misdirected_request'', 421), (''unprocessable_entity'', 422), (''locked'', 423),
      (''failed_dependency'', 424), (''upgrade_required'', 426), (''precondition_required'', 428),
      (''too_many_requests'', 429), (''request_header_fields_too_large'', 431),
      (''connection_closed_without_response'', 444), (''unavailable_for_legal_reasons'', 451),
      (''client_closed_request'', 499), (''internal_server_error'', 500),
      (''not_implemented'', 501), (''bad_gateway'', 502), (''service_unavailable'', 503),
      (''gateway_timeout'', 504), (''http_version_not_supported'', 505),
      (''variant_also_negotiates'', 506), (''insufficient_storage'', 507), (''loop_detected'', 508),
      (''not_extended'', 510), (''network_authentication_required'', 511),
      (''network_connect_timeout_error'', 599)]"

definition status_value :: "string \<Rightarrow> HttpStatus" where
  "status_value name = (case map_of HttpStatus_values name of None \<Rightarrow> 0 | Some v \<Rightarrow> v)"

definition ICHOR_METHOD_MATCHING :: "(string \<times> HttpMethod) list" where
  "ICHOR_METHOD_MATCHING =
     [(''DELETE'', M_delete), (''GET'', M_get), (''HEAD'', M_head), (''POST'', M_post),
      (''PUT'', M_put), (''CONNECT'', M_connect), (''OPTIONS'', M_options), (''TRACE'', M_trace),
      (''COPY'', M_copy), (''LOCK'', M_lock), (''MKCOL'', M_mkcol), (''MOVE'', M_move),
      (''PROPFIND'', M_propfind), (''PROPPATCH'', M_proppatch), (''SEARCH'', M_search),
      (''UNLOCK'', M_unlock), (''BIND'', M_bind), (''REBIND'', M_rebind), (''UNBIND'', M_unbind),
      (''ACL'', M_acl), (''REPORT'', M_report), (''MKACTIVITY'', M_mkactivity),
      (''CHECKOUT'', M_checkout), (''MERGE'', M_merge), (''MSEARCH'', M_msearch),
      (''NOTIFY'', M_notify), (''SUBSCRIBE'', M_subscribe), (''UNSUBSCRIBE'', M_unsubscribe),
      (''PATCH'', M_patch), (''PURGE'', M_purge), (''MKCALENDAR'', M_mkcalendar),
      (''LINK'', M_link), (''UNLINK'', M_unlink)]"

definition ICHOR_REVERSE_METHOD_MATCHING :: "(HttpMethod \<times> string) list" where
  "ICHOR_REVERSE_METHOD_MATCHING =
     [(M_delete, ''DELETE''), (M_get, ''GET''), (M_head, ''HEAD''), (M_post, ''POST''),
      (M_put, ''PUT''), (M_connect, ''CONNECT''), (M_options, ''OPTIONS''), (M_trace, ''TRACE''),
      (M_copy, ''COPY''), (M_lock, ''LOCK''), (M_mkcol, ''MKCOL''), (M_move, ''MOVE''),
      (M_propfind, ''PROPFIND''), (M_proppatch, ''PROPPATCH''), (M_search, ''SEARCH''),
      (M_unlock, ''UNLOCK''), (M_bind, ''BIND''), (M_rebind, ''REBIND''), (M_unbind, ''UNBIND''),
      (M_acl, ''ACL''), (M_report, ''REPORT''), (M_mkactivity, ''MKACTIVITY''),
      (M_checkout, ''CHECKOUT''), (M_merge, ''MERGE''), (M_msearch, ''MSEARCH''),
      (M_notify, ''NOTIFY''), (M_subscribe, ''SUBSCRIBE''), (M_unsubscribe, ''UNSUBSCRIBE''),
      (M_patch, ''PATCH''), (M_purge, ''PURGE''), (M_mkcalendar, ''MKCALENDAR''),
      (M_link, ''LINK''), (M_unlink, ''UNLINK'')]"

definition ICHOR_STATUS_MATCHING :: "(HttpStatus \<times> string) list" where
  "ICHOR_STATUS_MATCHING =
     [(100, ''Continue''), (101, ''Switching Protocols''),
      (102, ''Processing''), (200, ''OK''), (201, ''Created''),
      (202, ''Accepted''),
      (203, ''Non Authoritative Information''),
      (204, ''No Content''), (205, ''Reset Content''),
      (206, ''Partial Content''), (207, ''Multi Status''),
      (208, ''Already Reported''), (226, ''IM Used''),
      (300, ''Multiple Choices''), (301, ''Moved Permanently''),
      (302, ''Found''), (303, ''See Other''), (304, ''Not Modified''),
      (305, ''Use Proxy''), (307, ''Temporary Redirect''),
      (308, ''Permanent Redirect''), (400, ''Bad Request''),
      (401, ''Unauthorized''), (402, ''Payment Required''),
      (403, ''Forbidden''), (404, ''Not Found''),
      (405, ''Method Not Allowed''), (406, ''Not Acceptable''),
      (407, ''Proxy Authentication Required''),
      (408, ''Request Timeout''), (409, ''Conflict''), (410, ''Gone''),
      (411, ''Length Required''), (412, ''Precondition Failed''),
      (413, ''Payload Too Large''), (414, ''URI Too Long''),
      (415, ''Unsupported Media Type''),
      (416, ''Range Not Satisfiable''),
      (417, ''Expectation Failed''),
      (421, ''Misdirected Request''),
      (422, ''Unprocessable Entity''), (423, ''Locked''),
      (424, ''Failed Dependency''), (426, ''Upgrade Required''),
      (428, ''Precondition Required''),
      (429, ''Too Many Requests''),
      (431, ''Request Header Fields Too Large''),
      (444, ''Connection Closed Without Response''),
      (451, ''Unavailable For Legal Reasons''),
      (499, ''Client Closed Request''),
      (500, ''Internal Server Error''),
      (501, ''Not Implemented''), (502, ''Bad Gateway''),
      (503, ''Service Unavailable''), (504, ''Gateway Timeout''),
      (505, ''HTTP Version Not Supported''),
      (506, ''Variant Also Negotiates''),
      (507, ''Insufficient Storage''), (508, ''Loop Detected''),
      (510, ''Not Extended''),
      (511, ''Network Authentication Required''),
      (599, ''Network Connect Timeout Error'')]"

definition method_of :: "string \<Rightarrow> HttpMethod option" where
  "method_of word = map_of ICHOR_METHOD_MATCHING word"

definition method_text :: "HttpMethod \<Rightarrow> string option" where
  "method_text m = map_of ICHOR_REVERSE_METHOD_MATCHING m"

definition status_text :: "HttpStatus \<Rightarrow> string option" where
  "status_text n = map_of ICHOR_STATUS_MATCHING n"

definition ICHOR_HTTP_VERSION_MATCH :: string where
  "ICHOR_HTTP_VERSION_MATCH = ''HTTP/1.1''"

datatype HttpParseError =
    PE_NONE | PE_BADREQUEST | PE_WRONGHTTPVERSION | PE_QUITTING | PE_BUFFEROVERFLOW | PE_INCOMPLETEREQUEST | PE_CHUNKED

record HttpRequest =
  rq_body :: string
  rq_method :: HttpMethod
  rq_route :: string
  rq_regex_params :: "string list"
  rq_address :: string
  rq_headers :: "(string, string) dense_map"

record HttpResponse =
  rs_status :: nat
  rs_contentType :: "string option"
  rs_body :: string
  rs_headers :: "(string, string) dense_map"

definition CRLF :: string where
  "CRLF = [CHR 0x0D, CHR 0x0A]"

definition CRLFCRLF :: string where
  "CRLFCRLF = CRLF @ CRLF"

text \<open>The parts \<^verbatim>\<open>split\<close> hands to its callback.\<close>

definition parts :: "string \<Rightarrow> string \<Rightarrow> string list" where
  "parts delims str = (case split str delims False of None \<Rightarrow> [] | Some ps \<Rightarrow> ps)"

text \<open>The response a client gets is printed with fmt; \<open>fmt_u64\<close> is its rendering of a number.\<close>

definition format_header :: "string \<Rightarrow> string \<Rightarrow> string" where
  "format_header k v = k @ '': '' @ v @ CRLF"

section \<open>The tables\<close>

lemma methods_swapped: "ICHOR_REVERSE_METHOD_MATCHING = map prod.swap ICHOR_METHOD_MATCHING"
  by (simp add: ICHOR_METHOD_MATCHING_def ICHOR_REVERSE_METHOD_MATCHING_def)

lemma methods_distinct:
  "distinct (map fst ICHOR_METHOD_MATCHING)" "distinct (map fst ICHOR_REVERSE_METHOD_MATCHING)"
  by code_simp+

lemma method_of_iff: "method_of word = Some m \<longleftrightarrow> method_text m = Some word"
  using methods_distinct by (auto simp: method_of_def method_text_def map_of_eq_Some_iff methods_swapped)

lemma method_text_chars:
  assumes "method_text m = Some t"
  shows "t \<noteq> [] \<and> CHR '' '' \<notin> set t \<and> CHR 0x0D \<notin> set t"
proof -
  have "list_all (\<lambda>(_, t). t \<noteq> [] \<and> CHR '' '' \<notin> set t \<and> CHR 0x0D \<notin> set t) ICHOR_REVERSE_METHOD_MATCHING"
    by code_simp
  then show ?thesis using assms map_of_SomeD by (fastforce simp: method_text_def list_all_iff)
qed

text \<open>
  The two tables of methods are inverse to each other: a word is the text of a method exactly when
  the parser reads it as that method. Only the unknown method has no text.
\<close>

lemma method_tables_inverse:
  "(method_of word = Some m \<longleftrightarrow> method_text m = Some word) \<and> (method_text m = None \<longleftrightarrow> m = M_unknown)"
proof
  show "method_of word = Some m \<longleftrightarrow> method_text m = Some word" by (rule method_of_iff)
  have "m \<in> set (map fst ICHOR_REVERSE_METHOD_MATCHING) \<longleftrightarrow> m \<noteq> M_unknown"
    by (cases m) (simp_all add: ICHOR_REVERSE_METHOD_MATCHING_def)
  then show "method_text m = None \<longleftrightarrow> m = M_unknown"
    unfolding method_text_def map_of_eq_None_iff by simp
qed

section \<open>Lines and words\<close>

lemma search_at: "d \<noteq> [] \<Longrightarrow> hd d \<notin> set a \<Longrightarrow> search (a @ d @ rest) d = length a"
proof (induction a)
  case Nil
  then show ?case by (cases d) simp_all
next
  case (Cons x a)
  then have "\<not> prefix d (x # a @ d @ rest)" by (cases d) auto
  then show ?case using Cons by simp
qed

lemma search_absent: "d \<noteq> [] \<Longrightarrow> hd d \<notin> set a \<Longrightarrow> search a d = length a"
  by (induction a) (auto simp: prefix_Cons neq_Nil_conv)

lemma parts_Nil [simp]: "parts d [] = []"
  by (simp add: parts_def split_def split_loop.simps)

lemma parts_found:
  assumes "d \<noteq> []" and "search s d < length s"
  shows "parts d s = take (search s d) s # parts d (drop (search s d + length d) s)"
proof -
  obtain ps where "split_loop d False (drop (search s d + length d) s) = Some ps" using split_joins [OF assms(1)] by blast
  then show ?thesis
    using assms by (subst parts_def, subst split_def, subst split_loop.simps) (auto simp: parts_def split_def Let_def)
qed

lemma parts_last: "search s d = length s \<Longrightarrow> s \<noteq> [] \<Longrightarrow> parts d s = [s]"
  by (simp add: parts_def split_def split_loop.simps)

lemma parts_at: "d \<noteq> [] \<Longrightarrow> hd d \<notin> set a \<Longrightarrow> parts d (a @ d @ rest) = a # parts d rest"
  using parts_found [of d "a @ d @ rest"] search_at [of d a rest] by simp

definition with_CRLF :: "string list \<Rightarrow> string" where
  "with_CRLF ls = concat (map (\<lambda>l. l @ CRLF) ls)"

lemma with_CRLF_simps [simp]: "with_CRLF [] = []" "with_CRLF (l # ls) = l @ CRLF @ with_CRLF ls"
  "with_CRLF (ls @ ls') = with_CRLF ls @ with_CRLF ls'"
  by (simp_all add: with_CRLF_def)

lemma length_with_CRLF: "length (with_CRLF ls) = (\<Sum>l \<leftarrow> ls. length l + 2)"
  by (induction ls) (simp_all add: CRLF_def)

lemma parts_lines: "\<forall>l \<in> set ls. CHR 0x0D \<notin> set l \<Longrightarrow> parts CRLF (with_CRLF ls) = ls"
proof (induction ls)
  case (Cons l ls)
  then show ?case using parts_at [of CRLF l "with_CRLF ls"] by (simp add: CRLF_def)
qed simp

text \<open>A text that ends with a line break is the sequence of its lines.\<close>

lemma with_CRLF_parts: "s = [] \<or> suffix CRLF s \<Longrightarrow> with_CRLF (parts CRLF s) = s"
proof (induction "length s" arbitrary: s rule: less_induct)
  case less
  show ?case
  proof (cases "s = []")
    case False
    let ?k = "search s CRLF"
    obtain q where q: "s = q @ CRLF" using less.prems False by (auto simp: suffix_def)
    have k: "?k < length s"
    proof (rule ccontr)
      assume "\<not> ?k < length s"
      moreover have "search (q @ CRLF) CRLF \<le> length q" by (induction q) (simp_all add: CRLF_def)
      ultimately show False by (simp add: q CRLF_def)
    qed
    let ?rest = "drop (?k + length CRLF) s"
    have cut: "s = take ?k s @ CRLF @ ?rest" using split_cut [OF False k] .
    have "?rest = [] \<or> suffix CRLF ?rest"
    proof (cases "length ?rest \<ge> 2")
      case True
      have "suffix ?rest s" by (rule suffix_drop)
      moreover have "suffix CRLF s" unfolding q by (rule suffixI) simp
      ultimately show ?thesis using True by (auto simp: CRLF_def intro: suffix_length_suffix)
    next
      case one: False
      show ?thesis
      proof (rule ccontr)
        assume "\<not> ?thesis"
        then obtain x where x: "?rest = [x]" using one by (cases ?rest) (auto simp: Suc_le_eq)
        have "q @ [CHR 0x0D, CHR 0x0A] = (take ?k s @ [CHR 0x0D]) @ [CHR 0x0A, x]"
          using cut unfolding x by (simp add: CRLF_def q)
        then show False by simp
      qed
    qed
    then have "with_CRLF (parts CRLF ?rest) = ?rest" using less.hyps [of ?rest] k by (simp add: CRLF_def)
    then show ?thesis using cut parts_found [OF _ k] by (simp add: CRLF_def)
  qed simp
qed

text \<open>A head: lines that are not empty and contain no carriage return, and an empty line.\<close>

definition plain_line :: "string \<Rightarrow> bool" where
  "plain_line l \<longleftrightarrow> l \<noteq> [] \<and> CHR 0x0D \<notin> set l"

definition head_text :: "string list \<Rightarrow> string" where
  "head_text ls = with_CRLF (ls @ [[]])"

lemma search_skip: "hd d \<notin> set a \<Longrightarrow> d \<noteq> [] \<Longrightarrow> search (a @ s) d = length a + search s d"
  by (induction a) (auto simp: neq_Nil_conv)

lemma head_end:
  assumes "list_all plain_line ls" and "ls \<noteq> []"
  shows "search (head_text ls @ rest) CRLFCRLF + 4 = length (head_text ls)"
  using assms
proof (induction ls)
  case (Cons l ls)
  have CR: "hd CRLFCRLF \<notin> set l" "CRLFCRLF \<noteq> []" using Cons.prems by (simp_all add: plain_line_def CRLFCRLF_def CRLF_def)
  show ?case
  proof (cases "ls = []")
    case True
    have "search (CRLF @ CRLF @ rest) CRLFCRLF = 0" by (simp add: CRLFCRLF_def CRLF_def)
    then show ?thesis
      using True search_skip [OF CR, of "CRLF @ CRLF @ rest"] by (simp add: head_text_def CRLF_def)
  next
    case False
    then obtain c l' ls' where ls: "ls = (c # l') # ls'" and c: "c \<noteq> CHR 0x0D"
      using Cons.prems by (cases ls; cases "hd ls") (auto simp: plain_line_def)
    have "search (CRLF @ head_text ls @ rest) CRLFCRLF = 2 + search (head_text ls @ rest) CRLFCRLF"
      using c by (simp add: ls head_text_def CRLFCRLF_def CRLF_def)
    then show ?thesis
      using Cons False search_skip [OF CR, of "CRLF @ head_text ls @ rest"]
      by (simp add: head_text_def CRLF_def)
  qed
qed simp

lemma head_lines:
  assumes "list_all plain_line ls"
  shows "parts CRLF (take (length (head_text ls)) (head_text ls @ rest)) = ls @ [[]]"
  using assms parts_lines [of "ls @ [[]]"] by (auto simp: head_text_def list_all_iff plain_line_def)

text \<open>A header line whose parts the parsers find again.\<close>

definition plain_header :: "string \<times> string \<Rightarrow> bool" where
  "plain_header kv \<longleftrightarrow> (case kv of (k, v) \<Rightarrow>
     CHR 0x0D \<notin> set k \<and> CHR 0x0D \<notin> set v \<and> CHR '':'' \<notin> set k \<and> v \<noteq> [] \<and> search v '': '' = length v)"

definition header_line :: "string \<times> string \<Rightarrow> string" where
  "header_line kv = fst kv @ '': '' @ snd kv"

lemma header_parts: "plain_header kv \<Longrightarrow> parts '': '' (header_line kv) = [fst kv, snd kv]"
  using parts_at [of "'': ''" "fst kv" "snd kv"] parts_last [of "snd kv" "'': ''"]
  by (auto simp: plain_header_def header_line_def split: prod.splits)

lemma header_plain_line: "plain_header kv \<Longrightarrow> plain_line (header_line kv)"
  by (auto simp: plain_header_def header_line_def plain_line_def split: prod.splits)

lemma header_line_nonempty [simp]: "header_line kv \<noteq> []"
  by (simp add: header_line_def)

lemma format_headers: "concat (map (\<lambda>(k, v). format_header k v) hs) = with_CRLF (map header_line hs)"
  by (induction hs) (auto simp: format_header_def header_line_def)

lemma format_header_line: "format_header k v = with_CRLF [header_line (k, v)]"
  by (simp add: format_header_def header_line_def)

lemma IsOnlyDigits_notation: "decimal_notation fmt_u64 \<Longrightarrow> IsOnlyDigits (fmt_u64 n)"
  by (auto simp: decimal_notation_def IsOnlyDigits_def list_all_iff is_digit_def)

lemma FastAtoiu_number: "decimal_notation fmt_u64 \<Longrightarrow> FastAtoiu (fmt_u64 n) = n"
  using FastAtoiu_notation [of fmt_u64 "[]" n] by simp

lemma number_chars:
  assumes "decimal_notation fmt_u64" and "\<not> is_digit c"
  shows "c \<notin> set (fmt_u64 n)"
  using assms by (auto simp: decimal_notation_def list_all_iff)

lemma number_header:
  assumes "decimal_notation fmt_u64"
  shows "plain_header (''Content-Length'', fmt_u64 n)"
  using assms number_chars [OF assms] search_absent [of "'': ''" "fmt_u64 n"]
  by (auto simp: plain_header_def is_digit_def decimal_notation_def)

end
