(* ===== verification/Http_Server.thy ===== *)
theory Http_Server
  imports Http_Common
begin

text \<open>
  The HTTP server of \<^verbatim>\<open>src/src/services/network/http/HttpHostService.cpp\<close>: parsing a request, the loop over a
  received buffer, routes, and the text of a response.

  The local variables that the callbacks of \<^verbatim>\<open>split\<close> change are a record. Sizes are 64 bit words and wrap
  around. \<open>None\<close> stands for undefined behaviour or an abort: a view beyond the end of the buffer, and the
  check of the hardened build in the loop. Headers are a dense map; a header that occurs again is dropped,
  as \<^verbatim>\<open>emplace\<close> does.
\<close>

section \<open>Parsing a request\<close>

record request_parse =
  rp_method :: HttpMethod
  rp_route :: string
  rp_headers :: "(string, string) dense_map"
  rp_lineNo :: nat
  rp_crlfCounter :: nat
  rp_protocolLength :: u64
  rp_contentLength :: u64
  rp_badRequest :: bool
  rp_contentLengthHeader :: bool
  rp_contentLengthSet :: bool

definition request_parse_init :: request_parse where
  "request_parse_init =
     \<lparr>rp_method = M_unknown, rp_route = [], rp_headers = [], rp_lineNo = 0, rp_crlfCounter = 0,
      rp_protocolLength = 0, rp_contentLength = 0, rp_badRequest = False, rp_contentLengthHeader = False,
      rp_contentLengthSet = False\<rparr>"

definition request_word :: "nat \<times> bool \<times> request_parse \<Rightarrow> string \<Rightarrow> nat \<times> bool \<times> request_parse" where
  "request_word a word =
     (case a of (wordNo, matchedVersion, s) \<Rightarrow>
        if rp_badRequest s then a
        else if wordNo = 0
        then (1, matchedVersion,
              case method_of word of None \<Rightarrow> s\<lparr>rp_badRequest := True\<rparr> | Some m \<Rightarrow> s\<lparr>rp_method := m\<rparr>)
        else if wordNo = 1 then (2, matchedVersion, s\<lparr>rp_route := word\<rparr>)
        else if wordNo = 2
        then (3, True, if word \<noteq> ICHOR_HTTP_VERSION_MATCH then s\<lparr>rp_badRequest := True\<rparr> else s)
        else if wordNo = 3 then (4, matchedVersion, s\<lparr>rp_badRequest := True\<rparr>)
        else (wordNo + 1, matchedVersion, s))"

definition header_word ::
  "nat \<times> bool \<times> string \<times> request_parse \<Rightarrow> string \<Rightarrow> nat \<times> bool \<times> string \<times> request_parse" where
  "header_word a word =
     (case a of (wordNo, matchedValue, key, s) \<Rightarrow>
        if rp_badRequest s then a
        else if wordNo = 0
        then (1, matchedValue, word,
              if word = ''Content-Length''
              then s\<lparr>rp_badRequest := rp_contentLengthSet s, rp_contentLengthHeader := True\<rparr> else s)
        else if wordNo = 1
        then (let s1 = s\<lparr>rp_headers := dm_emplace key word (rp_headers s)\<rparr>
              in (2, True, key,
                  if rp_contentLengthHeader s1
                  then (if \<not> IsOnlyDigits word then s1\<lparr>rp_badRequest := True\<rparr>
                        else s1\<lparr>rp_contentLength := FastAtoiu word, rp_contentLengthSet := True\<rparr>)
                         \<lparr>rp_contentLengthHeader := False\<rparr>
                  else s1))
        else (wordNo + 1, matchedValue, key, s\<lparr>rp_badRequest := True\<rparr>))"

definition request_line :: "string \<Rightarrow> request_parse \<Rightarrow> request_parse" where
  "request_line line s =
     (if rp_badRequest s then s
      else let s1 =
             (if rp_lineNo s = 0
              then (case foldl request_word (0, False, s) (parts '' '' line) of (_, matchedVersion, s1) \<Rightarrow>
                      s1\<lparr>rp_badRequest := rp_badRequest s1 \<or> \<not> matchedVersion, rp_crlfCounter := rp_crlfCounter s1 + 1\<rparr>)
              else if line \<noteq> []
              then (case foldl header_word (0, False, [], s) (parts '': '' line) of (_, matchedValue, _, s1) \<Rightarrow>
                      s1\<lparr>rp_badRequest := rp_badRequest s1 \<or> \<not> matchedValue, rp_crlfCounter := 1\<rparr>)
              else s\<lparr>rp_crlfCounter := rp_crlfCounter s + 1\<rparr>)
           in s1\<lparr>rp_protocolLength := rp_protocolLength s1 + word_of_nat (length line + 2), rp_lineNo := rp_lineNo s1 + 1\<rparr>)"

definition request_state :: "string \<Rightarrow> nat \<Rightarrow> request_parse" where
  "request_state complete len = fold request_line (parts CRLF (take len complete)) request_parse_init"

definition parseRequest :: "string \<Rightarrow> nat \<Rightarrow> ((HttpParseError + HttpRequest) \<times> nat) option" where
  "parseRequest complete len =
     (let s = request_state complete len;
          bad = (rp_badRequest s \<or> rp_crlfCounter s < 2);
          more = (rp_contentLengthSet s \<and>
                  word_of_nat (length complete) < rp_protocolLength s + rp_contentLength s);
          len' = unat (word_of_nat len + rp_contentLength s)
      in if bad then Some (Inl PE_BADREQUEST, if more then len' else len)
         else if more then Some (Inl PE_INCOMPLETEREQUEST, len)
         else if len + unat (rp_contentLength s) > length complete then None
         else Some (Inr \<lparr>rq_body = take (unat (rp_contentLength s)) (drop len complete) @ [CHR 0x00],
                         rq_method = rp_method s, rq_route = rp_route s,
                         rq_regex_params = [], rq_address = [], rq_headers = rp_headers s\<rparr>, len'))"

section \<open>Routes\<close>

text \<open>
  A regular expression is compiled by ctre; the matcher holds the function from a route to the groups of a
  match, and the parameters that a match leaves for \<^verbatim>\<open>route_params\<close>.
\<close>

datatype RouteMatcher =
    StringRouteMatcher string
  | RegexRouteMatch "string \<Rightarrow> string option list option" "string list"

fun matches :: "RouteMatcher \<Rightarrow> string \<Rightarrow> bool \<times> RouteMatcher" where
  "matches (StringRouteMatcher r) route = (route = r, StringRouteMatcher r)"
| "matches (RegexRouteMatch re params) route =
     (case re route of
        None \<Rightarrow> (False, RegexRouteMatch re params)
      | Some groups \<Rightarrow> (True, RegexRouteMatch re (params @ List.map_filter id groups)))"

fun route_params :: "RouteMatcher \<Rightarrow> string list \<times> RouteMatcher" where
  "route_params (StringRouteMatcher r) = ([], StringRouteMatcher r)"
| "route_params (RegexRouteMatch re params) = (params, RegexRouteMatch re [])"

record route =
  ro_id :: nat
  ro_matcher :: RouteMatcher
  ro_handler :: nat

section \<open>The service\<close>

text \<open>
  The members of the service; \<open>hs_sent\<close> records the calls of \<^verbatim>\<open>sendAsync\<close> and \<open>hs_pending\<close> the events
  pushed for \<^verbatim>\<open>receiveRequestHandler\<close>. A handler of a route is named by a number. What a handler and a
  connection do while the server awaits them is the environment: they may change the service.
\<close>

record HttpHostService =
  hs_priority :: nat
  hs_matchersIdCounter :: nat
  hs_handlers :: "(HttpMethod, route list) dense_map"
  hs_hostServiceIds :: "service_id list"
  hs_connections :: "service_id list"
  hs_connectionBuffers :: "(service_id, string) dense_map"
  hs_sent :: "(service_id \<times> string) list"
  hs_pending :: "service_id list"

record http_env =
  he_fmt :: "u64 \<Rightarrow> string"
  he_handler :: "nat \<Rightarrow> HttpRequest \<Rightarrow> HttpHostService \<Rightarrow> HttpResponse \<times> HttpHostService"
  he_send :: "service_id \<Rightarrow> string \<Rightarrow> HttpHostService \<Rightarrow> HttpHostService"

definition host_start :: "bool \<Rightarrow> bool \<Rightarrow> nat option \<Rightarrow> HttpHostService \<Rightarrow> bool \<times> HttpHostService" where
  "host_start has_address has_port prio s =
     (if \<not> has_address then (False, s)
      else if \<not> has_port then (False, s)
      else (True, s\<lparr>hs_priority := (case prio of None \<Rightarrow> hs_priority s | Some p \<Rightarrow> p)\<rparr>))"

definition addRoute :: "HttpMethod \<Rightarrow> RouteMatcher \<Rightarrow> nat \<Rightarrow> HttpHostService \<Rightarrow> (HttpMethod \<times> nat) \<times> HttpHostService" where
  "addRoute method matcher handler s =
     (let r = \<lparr>ro_id = hs_matchersIdCounter s, ro_matcher = matcher, ro_handler = handler\<rparr>
      in ((method, hs_matchersIdCounter s),
          s\<lparr>hs_handlers := (if dm_contains method (hs_handlers s)
                            then dm_modify method (\<lambda>routes. routes @ [r]) (hs_handlers s)
                            else dm_emplace method [r] (hs_handlers s)),
            hs_matchersIdCounter := hs_matchersIdCounter s + 1\<rparr>))"

definition removeRoute :: "HttpMethod \<Rightarrow> nat \<Rightarrow> HttpHostService \<Rightarrow> HttpHostService" where
  "removeRoute method rid s =
     s\<lparr>hs_handlers := dm_modify method (\<lambda>routes. erase_if (length routes) (\<lambda>r. ro_id r = rid) routes) (hs_handlers s)\<rparr>"

definition add_host_service :: "service_id \<Rightarrow> HttpHostService \<Rightarrow> HttpHostService" where
  "add_host_service sid s = s\<lparr>hs_hostServiceIds := ds_insert sid (hs_hostServiceIds s)\<rparr>"

definition remove_host_service :: "service_id \<Rightarrow> HttpHostService \<Rightarrow> HttpHostService" where
  "remove_host_service sid s = s\<lparr>hs_hostServiceIds := ds_erase sid (hs_hostServiceIds s)\<rparr>"

definition add_connection :: "bool \<Rightarrow> service_id option \<Rightarrow> service_id \<Rightarrow> HttpHostService \<Rightarrow> HttpHostService" where
  "add_connection isClient tcpHost sid s =
     (if isClient then s
      else case tcpHost of None \<Rightarrow> s
      | Some host \<Rightarrow> if host \<notin> set (hs_hostServiceIds s) then s
                     else s\<lparr>hs_connections := ds_insert sid (hs_connections s)\<rparr>)"

definition remove_connection :: "service_id \<Rightarrow> HttpHostService \<Rightarrow> HttpHostService" where
  "remove_connection sid s =
     s\<lparr>hs_connections := ds_erase sid (hs_connections s),
       hs_connectionBuffers := dm_erase sid (hs_connectionBuffers s)\<rparr>"

definition receive :: "service_id \<Rightarrow> string \<Rightarrow> HttpHostService \<Rightarrow> HttpHostService" where
  "receive sid msg s =
     s\<lparr>hs_connectionBuffers := dm_modify sid (\<lambda>b. b @ msg) (dm_emplace sid [] (hs_connectionBuffers s)),
       hs_pending := hs_pending s @ [sid]\<rparr>"

section \<open>Answering\<close>

definition format_response :: "(u64 \<Rightarrow> string) \<Rightarrow> HttpResponse \<Rightarrow> string" where
  "format_response fmt_u64 r =
     ''HTTP/1.1 '' @ fmt_u64 (word_of_nat (rs_status r)) @ '' ''
       @ (case status_text (rs_status r) of None \<Rightarrow> ''Unknown'' | Some t \<Rightarrow> t) @ CRLF
       @ concat (map (\<lambda>(k, v). format_header k v) (rs_headers r))
       @ (case rs_contentType r of None \<Rightarrow> [] | Some t \<Rightarrow> format_header ''Content-Type'' t)
       @ (if rs_body r \<noteq> [] then format_header ''Content-Length'' (fmt_u64 (word_of_nat (length (rs_body r)))) @ CRLF @ rs_body r
          else CRLF)"

definition sendResponse :: "http_env \<Rightarrow> service_id \<Rightarrow> HttpResponse \<Rightarrow> HttpHostService \<Rightarrow> HttpHostService" where
  "sendResponse env sid response s =
     (let resp = format_response (he_fmt env) response
      in if sid \<notin> set (hs_connections s) then s
         else he_send env sid resp (s\<lparr>hs_sent := hs_sent s @ [(sid, resp)]\<rparr>))"

text \<open>The loop over the routes of a method: the first matcher that matches gives the handler.\<close>

fun route_loop :: "route list \<Rightarrow> string \<Rightarrow> route list \<times> (nat \<times> string list) option" where
  "route_loop [] target = ([], None)"
| "route_loop (r # rs) target =
     (case matches (ro_matcher r) target of
        (True, m) \<Rightarrow> (case route_params m of (params, m') \<Rightarrow> (r\<lparr>ro_matcher := m'\<rparr> # rs, Some (ro_handler r, params)))
      | (False, m) \<Rightarrow> (case route_loop rs target of (rs', found) \<Rightarrow> (r\<lparr>ro_matcher := m\<rparr> # rs', found)))"

definition empty_response :: HttpResponse where
  "empty_response = \<lparr>rs_status = 0, rs_contentType = None, rs_body = [], rs_headers = []\<rparr>"

definition answer :: "http_env \<Rightarrow> HttpRequest \<Rightarrow> HttpHostService \<Rightarrow> HttpResponse \<times> HttpHostService" where
  "answer env req s =
     (case dm_find (rq_method req) (hs_handlers s) of
        None \<Rightarrow> (empty_response\<lparr>rs_status := 404\<rparr>, s)
      | Some routes \<Rightarrow>
          (case route_loop routes (rq_route req) of
             (routes', found) \<Rightarrow>
               let s' = s\<lparr>hs_handlers := dm_modify (rq_method req) (\<lambda>_. routes') (hs_handlers s)\<rparr>
               in case found of
                    None \<Rightarrow> (empty_response, s')
                  | Some (handler, params) \<Rightarrow> he_handler env handler (req\<lparr>rq_regex_params := params\<rparr>) s'))"

section \<open>The loop over the buffer\<close>

text \<open>
  \<open>msg\<close> is a view into the buffer of the connection, whose content at the start of the handler is
  \<open>buf\<close>. When the buffer has been changed or removed while the server awaited a handler or a connection, the
  view is invalid and using it is undefined. The result is what remains of the view, or nothing when the
  connection is gone and the handler returns early. \<open>None\<close> also stands for a loop that does not end.
\<close>

partial_function (option) receive_loop ::
  "http_env \<Rightarrow> service_id \<Rightarrow> string \<Rightarrow> string \<Rightarrow> HttpHostService \<Rightarrow> (string option \<times> HttpHostService) option" where
  "receive_loop env sid buf msg s =
     (let pos = search msg CRLFCRLF
      in if pos = length msg then Some (Some msg, s)
         else case parseRequest msg (pos + 4) of
           None \<Rightarrow> None
         | Some (Inl err, pos') \<Rightarrow>
             if err = PE_INCOMPLETEREQUEST then Some (Some msg, s)
             else let s' = sendResponse env sid (empty_response\<lparr>rs_status := 400\<rparr>) s
                  in Some (if sid \<notin> set (hs_connections s') then None else Some [], s')
         | Some (Inr req, pos') \<Rightarrow>
             (case answer env req s of (resp, s1) \<Rightarrow>
                let s' = sendResponse env sid resp s1
                in if sid \<notin> set (hs_connections s') then Some (None, s')
                   else if dm_find sid (hs_connectionBuffers s') \<noteq> Some buf then None
                   else if pos' > length msg then None
                   else receive_loop env sid buf (drop pos' msg) s'))"

definition buffer_limit :: nat where
  "buffer_limit = 1024 * 1024 * 512"

definition set_buffer :: "service_id \<Rightarrow> string \<Rightarrow> HttpHostService \<Rightarrow> HttpHostService" where
  "set_buffer sid msg s = s\<lparr>hs_connectionBuffers := dm_modify sid (\<lambda>_. msg) (dm_emplace sid [] (hs_connectionBuffers s))\<rparr>"

definition finish_receive :: "service_id \<Rightarrow> string option \<times> HttpHostService \<Rightarrow> HttpHostService" where
  "finish_receive sid r = (case r of (None, s) \<Rightarrow> s | (Some msg, s) \<Rightarrow> set_buffer sid msg s)"

definition receiveRequestHandler :: "http_env \<Rightarrow> service_id \<Rightarrow> HttpHostService \<Rightarrow> HttpHostService option" where
  "receiveRequestHandler env sid s =
     (let s0 = s\<lparr>hs_connectionBuffers := dm_emplace sid [] (hs_connectionBuffers s)\<rparr>;
          buf = the (dm_find sid (hs_connectionBuffers s0))
      in if length buf > buffer_limit
         then Some (sendResponse env sid (empty_response\<lparr>rs_status := 500\<rparr>) (set_buffer sid [] s0))
         else map_option (finish_receive sid) (receive_loop env sid buf buf s0))"

lemma receive_enters:
  assumes "dm_find sid (hs_connectionBuffers s) = Some buf" and "length buf \<le> buffer_limit"
  shows "receiveRequestHandler env sid s = map_option (finish_receive sid) (receive_loop env sid buf buf s)"
proof -
  have "dm_emplace sid [] (hs_connectionBuffers s) = hs_connectionBuffers s"
    using assms(1) dm_find_None_iff [of sid "hs_connectionBuffers s"] by (simp add: dm_emplace_def)
  then show ?thesis using assms by (simp add: receiveRequestHandler_def)
qed

section \<open>Requests stay within the buffer\<close>

lemma request_word_keeps:
  "rp_protocolLength (snd (snd (request_word a w))) = rp_protocolLength (snd (snd a))"
  "rp_contentLength (snd (snd (request_word a w))) = rp_contentLength (snd (snd a))"
  "rp_contentLengthSet (snd (snd (request_word a w))) = rp_contentLengthSet (snd (snd a))"
  by (auto simp: request_word_def split: prod.splits option.splits)

lemma request_words_keep:
  "rp_protocolLength (snd (snd (foldl request_word a ws))) = rp_protocolLength (snd (snd a))"
  "rp_contentLength (snd (snd (foldl request_word a ws))) = rp_contentLength (snd (snd a))"
  "rp_contentLengthSet (snd (snd (foldl request_word a ws))) = rp_contentLengthSet (snd (snd a))"
  by (induction ws arbitrary: a) (simp_all add: request_word_keeps)

definition content_length_ok :: "request_parse \<Rightarrow> bool" where
  "content_length_ok s \<longleftrightarrow> rp_contentLengthSet s \<or> rp_contentLength s = 0"

lemma header_word_keeps:
  "rp_protocolLength (snd (snd (snd (header_word a w)))) = rp_protocolLength (snd (snd (snd a)))"
  "content_length_ok (snd (snd (snd a))) \<Longrightarrow> content_length_ok (snd (snd (snd (header_word a w))))"
  by (auto simp: header_word_def content_length_ok_def Let_def split: prod.splits)

lemma header_words_keep:
  "rp_protocolLength (snd (snd (snd (foldl header_word a ws)))) = rp_protocolLength (snd (snd (snd a)))"
  "content_length_ok (snd (snd (snd a))) \<Longrightarrow> content_length_ok (snd (snd (snd (foldl header_word a ws))))"
  by (induction ws arbitrary: a) (simp_all add: header_word_keeps)

lemma request_line_length:
  "\<not> rp_badRequest s \<Longrightarrow> rp_protocolLength (request_line l s) = rp_protocolLength s + word_of_nat (length l + 2)"
  using request_words_keep(1) [of "(0, False, s)" "parts '' '' l"] header_words_keep(1) [of "(0, False, [], s)" "parts '': '' l"]
  by (auto simp: request_line_def Let_def split: prod.splits)

lemma request_line_content:
  "content_length_ok s \<Longrightarrow> content_length_ok (request_line l s)"
  using request_words_keep(2,3) [of "(0, False, s)" "parts '' '' l"] header_words_keep(2) [of "(0, False, [], s)" "parts '': '' l"]
  by (auto simp: request_line_def content_length_ok_def Let_def split: prod.splits)

lemma request_line_bad: "rp_badRequest s \<Longrightarrow> fold request_line ls s = s"
  by (induction ls) (simp_all add: request_line_def)

lemma request_lines_length:
  "\<not> rp_badRequest (fold request_line ls s) \<Longrightarrow>
   rp_protocolLength (fold request_line ls s) = rp_protocolLength s + word_of_nat (length (with_CRLF ls))"
proof (induction ls arbitrary: s)
  case (Cons l ls)
  then have "\<not> rp_badRequest s" using request_line_bad [of s "l # ls"] by auto
  then show ?case using Cons by (simp add: request_line_length CRLF_def algebra_simps)
qed simp

lemma request_lines_content: "content_length_ok s \<Longrightarrow> content_length_ok (fold request_line ls s)"
  by (induction ls arbitrary: s) (simp_all add: request_line_content)

lemma request_state_length:
  assumes "suffix CRLF (take len complete)" and "len \<le> length complete" and "\<not> rp_badRequest (request_state complete len)"
  shows "rp_protocolLength (request_state complete len) = word_of_nat len"
  using assms request_lines_length [of "parts CRLF (take len complete)" request_parse_init] with_CRLF_parts [of "take len complete"]
  by (simp add: request_state_def request_parse_init_def)

lemma no_wrap:
  fixes a b :: u64
  assumes "unat b + n < 2 ^ 64" and "m < 2 ^ 64"
  shows "(word_of_nat m :: u64) < word_of_nat n + b \<longleftrightarrow> m < n + unat b" and "unat (word_of_nat n + b :: u64) = n + unat b"
proof -
  have n: "unat (word_of_nat n :: u64) = n" using assms(1) by (simp add: unat_of_nat take_bit_nat_eq_self)
  have m: "unat (word_of_nat m :: u64) = m" using assms(2) by (simp add: unat_of_nat take_bit_nat_eq_self)
  show s: "unat (word_of_nat n + b :: u64) = n + unat b" using assms(1) n by (subst unat_add_lem [THEN iffD1]) simp_all
  show "(word_of_nat m :: u64) < word_of_nat n + b \<longleftrightarrow> m < n + unat b" unfolding word_less_nat_alt s m ..
qed

text \<open>
  C14. Parsing a request never reads outside the buffer, as long as the position after the body fits into 64
  bits: for a head that ends with a line break, there is always a result, and a request that is accepted
  ends within the buffer and has exactly the announced number of bytes, and a NUL, as its body.
\<close>

theorem parseRequest_in_bounds:
  assumes "suffix CRLF (take len complete)" and "len \<le> length complete" and "length complete < 2 ^ 64"
    and "unat (rp_contentLength (request_state complete len)) + len < 2 ^ 64"
  shows "\<exists>r pos. parseRequest complete len = Some (r, pos) \<and>
    (\<forall>req. r = Inr req \<longrightarrow>
       pos = len + unat (rp_contentLength (request_state complete len)) \<and> pos \<le> length complete \<and>
       rq_body req = take (pos - len) (drop len complete) @ [CHR 0x00])"
proof -
  let ?s = "request_state complete len"
  have ok: "content_length_ok ?s"
    unfolding request_state_def by (rule request_lines_content) (simp add: content_length_ok_def request_parse_init_def)
  note exact = no_wrap [OF assms(4,3)]
  show ?thesis
  proof (cases "rp_badRequest ?s")
    case True
    then show ?thesis by (simp add: parseRequest_def Let_def)
  next
    case False
    have len: "rp_protocolLength ?s = word_of_nat len" using request_state_length [OF assms(1,2) False] .
    have "len + unat (rp_contentLength ?s) \<le> length complete"
      if "\<not> (rp_contentLengthSet ?s \<and> word_of_nat (length complete) < rp_protocolLength ?s + rp_contentLength ?s)"
      using that ok assms(2) exact(1) unfolding len content_length_ok_def by auto
    then show ?thesis using exact(2) by (auto simp: parseRequest_def Let_def)
  qed
qed

text \<open>Concrete requests are evaluated.\<close>

lemmas parse_eval = parseRequest_def request_state_def request_parse_init_def request_line_def request_word_def header_word_def
  parts_def split_def split_loop.simps Let_def CRLF_def CRLFCRLF_def method_of_def ICHOR_METHOD_MATCHING_def ICHOR_HTTP_VERSION_MATCH_def
  IsOnlyDigits_def FastAtoiu_def digit_of_def dm_emplace_def dm_contains_def

definition ex_post :: "string \<Rightarrow> string" where
  "ex_post content_length = with_CRLF [''POST / HTTP/1.1'', ''Content-Length: '' @ content_length, []]"

lemma ex_post_state:
  "rp_contentLength (request_state (ex_post ''2'' @ ''hi'') 38) = 2"
  by (simp add: ex_post_def parse_eval)

theorem parseRequest_in_bounds_witness:
  "\<exists>req. parseRequest (ex_post ''2'' @ ''hi'') 38 = Some (Inr req, 40) \<and> rq_body req = ''hi'' @ [CHR 0x00]"
proof -
  define m where "m = ex_post ''2'' @ ''hi''"
  have state: "unat (rp_contentLength (request_state m 38)) = 2" using ex_post_state by (simp add: m_def)
  have "suffix CRLF (take 38 m)" by (simp add: m_def ex_post_def CRLF_def suffix_def)
  moreover have "length m = 40" "drop 38 m = ''hi''" by (simp_all add: m_def ex_post_def CRLF_def)
  moreover obtain req pos where parsed: "parseRequest m 38 = Some (Inr req, pos)"
    by (simp add: m_def ex_post_def parse_eval)
  ultimately have "pos = 40 \<and> rq_body req = take (pos - 38) ''hi'' @ [CHR 0x00]"
    using parseRequest_in_bounds [of 38 m] state by simp
  then show ?thesis unfolding m_def [symmetric] using parsed by simp
qed

text \<open>
  C34. A single request brings the server down. When the buffer of a connection holds a request whose
  \<^verbatim>\<open>Content-Length\<close> is the largest 64 bit number, the sum with the length of the head wraps around, the
  request passes for complete, and the server takes a view of that length: whatever the routes and
  the handlers are, \<^verbatim>\<open>receiveRequestHandler\<close> runs into undefined behaviour.
\<close>

theorem content_length_wraps:
  assumes "dm_find sid (hs_connectionBuffers s) = Some (ex_post ''18446744073709551615'')"
  shows "receiveRequestHandler env sid s = None"
proof -
  let ?m = "ex_post ''18446744073709551615''"
  have m: "search ?m CRLFCRLF = 53" "length ?m = 57" by (simp_all add: ex_post_def CRLFCRLF_def CRLF_def)
  have bad: "parseRequest ?m 57 = None" by (simp add: ex_post_def parse_eval)
  have "receiveRequestHandler env sid s = map_option (finish_receive sid) (receive_loop env sid ?m ?m s)"
    using receive_enters [OF assms] m by (simp add: buffer_limit_def)
  moreover have "receive_loop env sid ?m ?m s = None"
    using m bad by (subst receive_loop.simps) (simp only: Let_def m numeral_eq_iff, simp)
  ultimately show ?thesis by simp
qed

definition ex_host :: "string \<Rightarrow> HttpHostService" where
  "ex_host buffer =
     \<lparr>hs_priority = 1000, hs_matchersIdCounter = 1,
      hs_handlers = [(M_get, [\<lparr>ro_id = 0, ro_matcher = StringRouteMatcher ''/'', ro_handler = 0\<rparr>])],
      hs_hostServiceIds = [3], hs_connections = [7], hs_connectionBuffers = [(7, buffer)], hs_sent = [], hs_pending = []\<rparr>"

definition ex_http_env :: http_env where
  "ex_http_env =
     \<lparr>he_fmt = \<lambda>n. decimal_digits (unat n), he_handler = \<lambda>_ req s. (empty_response\<lparr>rs_status := 200, rs_body := rq_route req\<rparr>, s),
      he_send = \<lambda>_ _ s. s\<rparr>"

theorem content_length_wraps_witness:
  "receiveRequestHandler ex_http_env 7 (ex_host (ex_post ''18446744073709551615'')) = None"
  by (rule content_length_wraps) (simp add: ex_host_def dm_find_def)

section \<open>Routes\<close>

definition routes_of :: "HttpMethod \<Rightarrow> HttpHostService \<Rightarrow> route list" where
  "routes_of m s = (case dm_find m (hs_handlers s) of None \<Rightarrow> [] | Some rs \<Rightarrow> rs)"

text \<open>Every route has an id that was handed out before, and no two routes share one.\<close>

definition routes_ok :: "HttpHostService \<Rightarrow> bool" where
  "routes_ok s \<longleftrightarrow> dm_ok (hs_handlers s) \<and>
     (\<forall>m. (\<forall>r \<in> set (routes_of m s). ro_id r < hs_matchersIdCounter s) \<and> distinct (map ro_id (routes_of m s)))"

lemma routes_ok_bound: "routes_ok s \<Longrightarrow> r \<in> set (routes_of m s) \<Longrightarrow> ro_id r < hs_matchersIdCounter s"
  by (auto simp: routes_ok_def)

lemma routes_of_addRoute:
  "routes_of m (snd (addRoute method matcher h s)) =
     routes_of m s @ (if m = method then [\<lparr>ro_id = hs_matchersIdCounter s, ro_matcher = matcher, ro_handler = h\<rparr>] else [])"
proof (cases "dm_find method (hs_handlers s)")
  case None
  then have "\<not> dm_contains method (hs_handlers s)" by (simp add: dm_find_None_iff)
  then show ?thesis using None by (auto simp: routes_of_def addRoute_def Let_def dm_find_emplace)
next
  case (Some rs)
  then have "dm_contains method (hs_handlers s)" by (metis dm_find_None_iff option.distinct(1))
  then show ?thesis using Some by (auto simp: routes_of_def addRoute_def Let_def dm_find_modify)
qed

lemma routes_of_removeRoute:
  "routes_of m (removeRoute method rid s) =
     (if m = method then erase_if (length (routes_of m s)) (\<lambda>r. ro_id r = rid) (routes_of m s) else routes_of m s)"
  by (cases "dm_find m (hs_handlers s)") (auto simp: routes_of_def removeRoute_def dm_find_modify)

lemma mset_removeRoute:
  "mset (routes_of m (removeRoute method rid s)) = mset (if m = method then filter (\<lambda>r. ro_id r \<noteq> rid) (routes_of m s) else routes_of m s)"
  by (simp add: routes_of_removeRoute mset_erase_if)

lemma routes_ok_addRoute:
  assumes "routes_ok s"
  shows "routes_ok (snd (addRoute method matcher h s))"
proof -
  have "dm_ok (hs_handlers (snd (addRoute method matcher h s)))"
    using assms by (auto simp: routes_ok_def addRoute_def Let_def intro: dense_intros)
  moreover have "hs_matchersIdCounter (snd (addRoute method matcher h s)) = Suc (hs_matchersIdCounter s)"
    by (simp add: addRoute_def Let_def)
  moreover have "hs_matchersIdCounter s \<notin> ro_id ` set (routes_of m s)" for m using routes_ok_bound [OF assms] by fastforce
  ultimately show ?thesis
    using assms routes_ok_bound [OF assms] by (auto simp: routes_ok_def routes_of_addRoute less_Suc_eq)
qed

lemma routes_ok_removeRoute:
  assumes "routes_ok s"
  shows "routes_ok (removeRoute method rid s)"
proof -
  have "\<exists>p. mset (routes_of m (removeRoute method rid s)) = mset (filter p (routes_of m s))" for m
    unfolding mset_removeRoute by (cases "m = method") (auto intro: exI [of _ "\<lambda>_. True"])
  then have "set (routes_of m (removeRoute method rid s)) \<subseteq> set (routes_of m s) \<and> distinct (map ro_id (routes_of m (removeRoute method rid s)))"
    for m
    using assms distinct_map_filter mset_eq_setD mset_eq_imp_distinct_iff mset_map unfolding routes_ok_def
    by (metis filter_is_subset)
  moreover have "dm_ok (hs_handlers (removeRoute method rid s))"
    using assms by (auto simp: routes_ok_def removeRoute_def intro: dense_intros)
  moreover have "hs_matchersIdCounter (removeRoute method rid s) = hs_matchersIdCounter s" by (simp add: removeRoute_def)
  ultimately show ?thesis using assms unfolding routes_ok_def by auto
qed



end
