(* ===== verification/Http_Client.thy ===== *)
theory Http_Client
  imports Http_Common
begin

text \<open>
  The HTTP client of \<^verbatim>\<open>src/src/services/network/http/HttpConnectionService.cpp\<close>: the text of a request, parsing a
  response with a content length or in chunks, and handing responses to the coroutines that wait for them.

  The conventions are those of the server. A coroutine that waits for its response is named by a number.
  \<^verbatim>\<open>set\<close> of \<^verbatim>\<open>AsyncReturningManualResetEvent\<close> resumes it at once, and it may then send further requests; the
  environment says which.
\<close>

section \<open>Parsing a response\<close>

datatype ChunkParseStatus = Chunk_NONE | Chunk_LENGTH | Chunk_CONTENT | Chunk_DONE

record response_parse =
  sp_status :: nat
  sp_body :: string
  sp_headers :: "(string, string) dense_map"
  sp_lineNo :: nat
  sp_crlfCounter :: nat
  sp_protocolLength :: u64
  sp_contentLength :: u64
  sp_chunkLength :: u64
  sp_chunkedStatus :: ChunkParseStatus
  sp_badRequest :: bool
  sp_contentLengthHeader :: bool
  sp_contentLengthSet :: bool
  sp_transferEncodingHeader :: bool
  sp_transferEncodingSet :: bool
  sp_chunkedTransfer :: bool

definition response_parse_init :: response_parse where
  "response_parse_init =
     \<lparr>sp_status = 0, sp_body = [], sp_headers = [], sp_lineNo = 0, sp_crlfCounter = 0, sp_protocolLength = 0,
      sp_contentLength = 0, sp_chunkLength = 0, sp_chunkedStatus = Chunk_NONE, sp_badRequest = False,
      sp_contentLengthHeader = False, sp_contentLengthSet = False, sp_transferEncodingHeader = False,
      sp_transferEncodingSet = False, sp_chunkedTransfer = False\<rparr>"

text \<open>
  The status is read through \<^verbatim>\<open>data()\<close>; the word is followed by a space or a line break there, so the number
  ends with the word.
\<close>

definition status_word :: "nat \<times> bool \<times> response_parse \<Rightarrow> string \<Rightarrow> nat \<times> bool \<times> response_parse" where
  "status_word a word =
     (case a of (wordNo, matchedStatus, s) \<Rightarrow>
        if sp_badRequest s then a
        else if wordNo = 0
        then (1, matchedStatus, if word \<noteq> ICHOR_HTTP_VERSION_MATCH then s\<lparr>sp_badRequest := True\<rparr> else s)
        else if wordNo = 1
        then (if word = [] \<or> \<not> IsOnlyDigits word then (2, matchedStatus, s\<lparr>sp_badRequest := True\<rparr>)
              else let status = FastAtoiu word
                   in if status < 100 \<or> status > 599 then (2, matchedStatus, s\<lparr>sp_badRequest := True\<rparr>)
                      else (2, True, s\<lparr>sp_status := unat status\<rparr>))
        else (wordNo + 1, matchedStatus, s))"

definition response_header_value :: "string \<Rightarrow> string \<Rightarrow> response_parse \<Rightarrow> response_parse" where
  "response_header_value key word s =
     (let s1 = s\<lparr>sp_headers := dm_emplace key word (sp_headers s)\<rparr>;
          s2 = (if sp_contentLengthHeader s1
                then (if \<not> IsOnlyDigits word then s1\<lparr>sp_badRequest := True\<rparr>
                      else s1\<lparr>sp_contentLength := FastAtoiu word, sp_contentLengthSet := True\<rparr>)
                       \<lparr>sp_contentLengthHeader := False\<rparr>
                else if sp_transferEncodingHeader s1
                then s1\<lparr>sp_chunkedTransfer := (sp_chunkedTransfer s1 \<or> search word ''chunked'' < length word),
                        sp_transferEncodingHeader := False, sp_transferEncodingSet := True\<rparr>
                else s1)
      in if sp_contentLengthSet s2 \<and> sp_transferEncodingSet s2 then s2\<lparr>sp_badRequest := True\<rparr> else s2)"

definition response_header_word ::
  "nat \<times> bool \<times> string \<times> response_parse \<Rightarrow> string \<Rightarrow> nat \<times> bool \<times> string \<times> response_parse" where
  "response_header_word a word =
     (case a of (wordNo, matchedValue, key, s) \<Rightarrow>
        if sp_badRequest s then a
        else if wordNo = 0
        then (1, matchedValue, word,
              if word = ''Content-Length''
              then s\<lparr>sp_badRequest := sp_contentLengthSet s, sp_contentLengthHeader := True\<rparr>
              else if word = ''Transfer-Encoding'' then s\<lparr>sp_transferEncodingHeader := True\<rparr>
              else s)
        else if wordNo = 1 then (2, True, key, response_header_value key word s)
        else (wordNo + 1, matchedValue, key, s\<lparr>sp_badRequest := True\<rparr>))"

definition chunk_length_line :: "string \<Rightarrow> response_parse \<Rightarrow> response_parse" where
  "chunk_length_line line s =
     (case SafeHexToUint line of
        None \<Rightarrow> s\<lparr>sp_badRequest := True\<rparr>
      | Some n \<Rightarrow>
          if n = 0 then s\<lparr>sp_chunkLength := 0, sp_chunkedStatus := Chunk_DONE, sp_body := sp_body s @ [CHR 0x00]\<rparr>
          else s\<lparr>sp_chunkLength := n + 2, sp_chunkedStatus := Chunk_CONTENT\<rparr>)"

definition chunk_content_line :: "string \<Rightarrow> response_parse \<Rightarrow> response_parse" where
  "chunk_content_line line s =
     (let s1 = s\<lparr>sp_body := sp_body s @ line\<rparr>; n = word_of_nat (length line + 2)
      in if sp_chunkLength s1 < n then s1\<lparr>sp_badRequest := True\<rparr>
         else s1\<lparr>sp_chunkLength := sp_chunkLength s1 - n,
                 sp_chunkedStatus := (if sp_chunkLength s1 - n = 0 then Chunk_LENGTH else sp_chunkedStatus s1)\<rparr>)"

definition response_line :: "string \<Rightarrow> response_parse \<Rightarrow> response_parse" where
  "response_line line s =
     (if sp_badRequest s then s
      else let s1 =
             (if sp_lineNo s = 0
              then (case foldl status_word (0, False, s) (parts '' '' line) of (_, matchedStatus, s1) \<Rightarrow>
                      s1\<lparr>sp_badRequest := sp_badRequest s1 \<or> \<not> matchedStatus, sp_crlfCounter := sp_crlfCounter s1 + 1\<rparr>)
              else if line \<noteq> []
              then (case sp_chunkedStatus s of
                      Chunk_LENGTH \<Rightarrow> chunk_length_line line s
                    | Chunk_CONTENT \<Rightarrow> chunk_content_line line s
                    | _ \<Rightarrow> (case foldl response_header_word (0, False, [], s) (parts '': '' line) of (_, matchedValue, _, s1) \<Rightarrow>
                              s1\<lparr>sp_badRequest := sp_badRequest s1 \<or> \<not> matchedValue\<rparr>))\<lparr>sp_crlfCounter := 1\<rparr>
              else s\<lparr>sp_crlfCounter := sp_crlfCounter s + 1,
                     sp_chunkedStatus := (if sp_chunkedTransfer s \<and> sp_chunkedStatus s \<noteq> Chunk_DONE then Chunk_LENGTH
                                          else sp_chunkedStatus s)\<rparr>)
           in s1\<lparr>sp_protocolLength := sp_protocolLength s1 + word_of_nat (length line + 2), sp_lineNo := sp_lineNo s1 + 1\<rparr>)"

definition response_state :: "string \<Rightarrow> nat \<Rightarrow> response_parse" where
  "response_state complete len = fold response_line (parts CRLF (take len complete)) response_parse_init"

definition parsed_response :: "response_parse \<Rightarrow> string \<Rightarrow> HttpResponse" where
  "parsed_response s body =
     \<lparr>rs_status = sp_status s, rs_contentType = None, rs_body = body, rs_headers = sp_headers s\<rparr>"

definition parseResponse :: "string \<Rightarrow> nat \<Rightarrow> ((HttpParseError + HttpResponse) \<times> nat) option" where
  "parseResponse complete len =
     (let s = response_state complete len;
          bad = (sp_badRequest s \<or> sp_crlfCounter s < 2);
          more = (sp_contentLengthSet s \<and>
                  word_of_nat (length complete) < sp_protocolLength s + sp_contentLength s);
          len' = unat (word_of_nat len + sp_contentLength s)
      in if bad then Some (Inl PE_BADREQUEST, if more then len' else len)
         else if sp_chunkedTransfer s \<and> sp_chunkedStatus s \<noteq> Chunk_DONE then Some (Inl PE_CHUNKED, len)
         else if more then Some (Inl PE_INCOMPLETEREQUEST, len)
         else if sp_chunkedTransfer s then Some (Inr (parsed_response s (sp_body s)), len)
         else if len + unat (sp_contentLength s) > length complete then None
         else Some (Inr (parsed_response s (take (unat (sp_contentLength s)) (drop len complete) @ [CHR 0x00])), len'))"

section \<open>Sending a request\<close>

datatype HttpError = NO_CONNECTION | WRONG_METHOD | UNABLE_TO_PARSE_HEADER | UNABLE_TO_PARSE_RESPONSE | IO_ERROR
  | GET_REQUESTS_CANNOT_HAVE_BODY | SVC_QUITTING | BOOST_READ_OR_WRITE_ERROR

definition padded :: "string \<Rightarrow> bool" where
  "padded t \<longleftrightarrow> t = [] \<or> hd t = CHR '' '' \<or> last t = CHR '' ''"

definition format_request ::
  "(u64 \<Rightarrow> string) \<Rightarrow> string option \<Rightarrow> HttpMethod \<Rightarrow> string \<Rightarrow> (string, string) dense_map \<Rightarrow> string \<Rightarrow> HttpError + string" where
  "format_request fmt_u64 address method route headers msg =
     (if method = M_get \<and> msg \<noteq> [] then Inl GET_REQUESTS_CANNOT_HAVE_BODY
      else case method_text method of
        None \<Rightarrow> Inl WRONG_METHOD
      | Some text \<Rightarrow>
          if list_ex (\<lambda>(k, v). padded k \<or> padded v) headers then Inl UNABLE_TO_PARSE_HEADER
          else Inr (text @ '' '' @ route @ '' HTTP/1.1'' @ CRLF
                 @ concat (map (\<lambda>(k, v). format_header k v) headers)
                 @ (case address of
                      Some a \<Rightarrow> if \<not> dm_contains ''Host'' headers then format_header ''Host'' a else []
                    | None \<Rightarrow> [])
                 @ (if msg \<noteq> [] then format_header ''Content-Length'' (fmt_u64 (word_of_nat (length msg))) else [])
                 @ CRLF @ msg))"

section \<open>The service\<close>

text \<open>
  \<open>hc_sent\<close> records the calls of \<^verbatim>\<open>sendAsync\<close> on the connection, \<open>hc_delivered\<close> what \<^verbatim>\<open>set\<close> handed to the
  waiting coroutines. An entry of the queue of events is the coroutine that awaits the event and whether the
  event is set; setting it again resumes nothing.
\<close>

record HttpConnectionService =
  hc_priority :: nat
  hc_connection :: "service_id option"
  hc_address :: "string option"
  hc_buffer :: string
  hc_events :: "(nat \<times> bool) list"
  hc_sent :: "string list"
  hc_delivered :: "(nat \<times> (HttpParseError + HttpResponse)) list"

text \<open>
  \<^verbatim>\<open>sendAsync\<close> up to the point where it waits for the response. \<open>success\<close> is the result of the connection;
  \<open>evt\<close> names the coroutine.
\<close>

definition sendAsync ::
  "(u64 \<Rightarrow> string) \<Rightarrow> bool \<Rightarrow> nat \<Rightarrow> HttpMethod \<Rightarrow> string \<Rightarrow> (string, string) dense_map \<Rightarrow> string \<Rightarrow> HttpConnectionService
     \<Rightarrow> HttpError option \<times> HttpConnectionService" where
  "sendAsync fmt_u64 success evt method route headers msg s =
     (if hc_connection s = None then (Some NO_CONNECTION, s)
      else case format_request fmt_u64 (hc_address s) method route headers msg of
        Inl err \<Rightarrow> (Some err, s)
      | Inr resp \<Rightarrow>
          let s1 = s\<lparr>hc_sent := hc_sent s @ [resp]\<rparr>
          in if \<not> success then (Some IO_ERROR, s1)
             else (None, s1\<lparr>hc_events := hc_events s1 @ [(evt, False)]\<rparr>))"

definition sendAsync_resume :: "HttpParseError + HttpResponse \<Rightarrow> HttpError + HttpResponse" where
  "sendAsync_resume parseResp = (case parseResp of Inl _ \<Rightarrow> Inl UNABLE_TO_PARSE_RESPONSE | Inr r \<Rightarrow> Inr r)"

definition client_start :: "string option \<Rightarrow> bool \<Rightarrow> nat option \<Rightarrow> HttpConnectionService \<Rightarrow> bool \<times> HttpConnectionService" where
  "client_start address has_port prio s =
     (case address of
        None \<Rightarrow> (False, s)
      | Some a \<Rightarrow>
          if \<not> has_port then (False, s)
          else (True, s\<lparr>hc_address := Some a, hc_priority := (case prio of None \<Rightarrow> hc_priority s | Some p \<Rightarrow> p)\<rparr>))"

definition client_stop :: "HttpConnectionService \<Rightarrow> HttpConnectionService option" where
  "client_stop s = (if hc_events s \<noteq> [] then None else Some (s\<lparr>hc_address := None\<rparr>))"

definition client_add_connection :: "bool \<Rightarrow> service_id \<Rightarrow> HttpConnectionService \<Rightarrow> HttpConnectionService" where
  "client_add_connection isClient client s = (if \<not> isClient then s else s\<lparr>hc_connection := Some client\<rparr>)"

text \<open>
  What a resumed coroutine sends at once: the names of the requests that then wait as well. In
  \<^verbatim>\<open>removeDependencyInstance\<close> the connection is already gone, so nothing can be sent there.
\<close>

type_synonym client_env = "nat \<Rightarrow> HttpParseError + HttpResponse \<Rightarrow> nat list"

definition unset :: "(nat \<times> bool) list \<Rightarrow> nat list" where
  "unset events = map fst (filter (\<lambda>e. \<not> snd e) events)"

definition client_remove_connection :: "service_id \<Rightarrow> HttpConnectionService \<Rightarrow> HttpConnectionService" where
  "client_remove_connection client s =
     (if hc_connection s \<noteq> Some client then s
      else s\<lparr>hc_connection := None, hc_events := [],
             hc_delivered := hc_delivered s @ map (\<lambda>e. (e, Inl PE_QUITTING)) (unset (hc_events s))\<rparr>)"

definition set_front :: "client_env \<Rightarrow> HttpParseError + HttpResponse \<Rightarrow> HttpConnectionService \<Rightarrow> HttpConnectionService" where
  "set_front env resp s =
     (case hc_events s of
        [] \<Rightarrow> s
      | (front, is_set) # rest \<Rightarrow>
          if is_set then s\<lparr>hc_events := rest\<rparr>
          else s\<lparr>hc_delivered := hc_delivered s @ [(front, resp)],
                 hc_events := rest @ map (\<lambda>e. (e, False)) (env front resp)\<rparr>)"

text \<open>The loop that fails every waiting request; a loop that does not end is \<open>None\<close>.\<close>

partial_function (option) fail_all ::
  "client_env \<Rightarrow> HttpParseError + HttpResponse \<Rightarrow> HttpConnectionService \<Rightarrow> HttpConnectionService option" where
  "fail_all env resp s = (if hc_events s = [] then Some s else fail_all env resp (set_front env resp s))"

text \<open>The loop over the buffer: \<open>start\<close> is where the end of a head is searched from.\<close>

partial_function (option) response_loop ::
  "client_env \<Rightarrow> string \<Rightarrow> nat \<Rightarrow> HttpConnectionService \<Rightarrow> (string \<times> HttpConnectionService) option" where
  "response_loop env msg start s =
     (let pos = start + search (drop start msg) CRLFCRLF
      in if pos \<ge> length msg then Some (msg, s)
         else case parseResponse msg (pos + 4) of
           None \<Rightarrow> None
         | Some (Inl err, pos') \<Rightarrow>
             if err = PE_INCOMPLETEREQUEST then Some (msg, s)
             else if err = PE_CHUNKED then response_loop env msg pos' s
             else Option.bind (fail_all env (Inl err) s) (\<lambda>s'. Some (msg, s'))
         | Some (Inr resp, pos') \<Rightarrow>
             if pos' > length msg then None
             else response_loop env (drop pos' msg) 0 (set_front env (Inr resp) s))"

definition response_buffer_limit :: nat where
  "response_buffer_limit = 1024 * 1024 * 512"

text \<open>
  The receive handler. When the buffer is too large the events are set but stay in the queue; the loop over
  them is undefined when a resumed coroutine sends again and the queue changes under it.
\<close>

definition client_receive :: "client_env \<Rightarrow> string \<Rightarrow> HttpConnectionService \<Rightarrow> HttpConnectionService option" where
  "client_receive env msg s =
     (let buf = hc_buffer s @ msg; s1 = s\<lparr>hc_buffer := buf\<rparr>; err = Inl PE_BUFFEROVERFLOW
      in if length buf > response_buffer_limit
         then (if list_ex (\<lambda>e. env e err \<noteq> []) (unset (hc_events s)) then None
               else Some (s1\<lparr>hc_buffer := [], hc_events := map (\<lambda>(e, _). (e, True)) (hc_events s1),
                             hc_delivered := hc_delivered s1 @ map (\<lambda>e. (e, err)) (unset (hc_events s1))\<rparr>))
         else map_option (\<lambda>(rest, s'). s'\<lparr>hc_buffer := rest\<rparr>) (response_loop env buf 0 s1))"

end
