(* ===== verification/Http_Properties.thy ===== *)
theory Http_Properties
  imports Http_Server Http_Client
begin

text \<open>
  Client and server together: what \<^verbatim>\<open>HttpConnectionService\<close> sends is what \<^verbatim>\<open>HttpHostService\<close> receives, and the
  other way round; a buffer of several requests is answered in order.
\<close>

section \<open>Requests\<close>

definition request_head :: "string \<Rightarrow> string \<Rightarrow> string" where
  "request_head mt target = mt @ '' '' @ target @ '' '' @ ICHOR_HTTP_VERSION_MATCH"

lemma request_head_words:
  assumes "CHR '' '' \<notin> set mt" and "CHR '' '' \<notin> set target"
  shows "parts '' '' (request_head mt target) = [mt, target, ICHOR_HTTP_VERSION_MATCH]"
  using assms parts_at [of "'' ''" mt "target @ '' '' @ ICHOR_HTTP_VERSION_MATCH"]
    parts_at [of "'' ''" target ICHOR_HTTP_VERSION_MATCH] parts_last [of ICHOR_HTTP_VERSION_MATCH "'' ''"]
  by (simp add: request_head_def ICHOR_HTTP_VERSION_MATCH_def)

definition counted :: "string \<Rightarrow> request_parse \<Rightarrow> request_parse" where
  "counted l s = s\<lparr>rp_protocolLength := rp_protocolLength s + word_of_nat (length l + 2), rp_lineNo := rp_lineNo s + 1\<rparr>"

lemma counted_simps [simp]:
  "rp_lineNo (counted l s) = rp_lineNo s + 1" "rp_badRequest (counted l s) = rp_badRequest s"
  "rp_crlfCounter (counted l s) = rp_crlfCounter s" "rp_headers (counted l s) = rp_headers s"
  "rp_contentLengthHeader (counted l s) = rp_contentLengthHeader s" "rp_contentLengthSet (counted l s) = rp_contentLengthSet s"
  "rp_contentLength (counted l s) = rp_contentLength s" "rp_method (counted l s) = rp_method s" "rp_route (counted l s) = rp_route s"
  by (simp_all add: counted_def)

lemma request_first_line:
  assumes "method_text m = Some mt" and "CHR '' '' \<notin> set target" and "rp_lineNo s = 0" and "\<not> rp_badRequest s"
    and "rp_crlfCounter s = 0"
  shows "request_line (request_head mt target) s =
    counted (request_head mt target) (s\<lparr>rp_method := m, rp_route := target, rp_crlfCounter := 1\<rparr>)"
  using assms request_head_words [of mt target] method_text_chars [OF assms(1)] method_of_iff [of mt m]
  by (cases s) (simp add: request_line_def request_word_def counted_def)

text \<open>The state a parser is in when it reads headers.\<close>

definition in_headers :: "request_parse \<Rightarrow> bool" where
  "in_headers s \<longleftrightarrow> rp_lineNo s > 0 \<and> \<not> rp_badRequest s \<and> \<not> rp_contentLengthHeader s \<and> rp_crlfCounter s = 1"

lemma in_headers_counted: "in_headers s \<Longrightarrow> in_headers (counted l (s\<lparr>rp_headers := hs\<rparr>))"
  by (simp add: in_headers_def)

lemma request_header_line:
  assumes "plain_header kv" and "fst kv \<noteq> ''Content-Length''" and "in_headers s" and "\<not> dm_contains (fst kv) (rp_headers s)"
  shows "request_line (header_line kv) s = counted (header_line kv) (s\<lparr>rp_headers := rp_headers s @ [kv]\<rparr>)"
  using assms header_parts [OF assms(1)]
  by (cases s) (simp add: in_headers_def request_line_def header_word_def dm_emplace_def Let_def counted_def)

lemma request_headers:
  assumes "list_all plain_header hs" and "''Content-Length'' \<notin> fst ` set hs" and "in_headers s" and "dm_ok (rp_headers s @ hs)"
  shows "\<exists>p n. 0 < n \<and> fold request_line (map header_line hs) s =
    s\<lparr>rp_headers := rp_headers s @ hs, rp_protocolLength := p, rp_lineNo := n\<rparr>"
  using assms
proof (induction hs arbitrary: s)
  case Nil
  then show ?case by (intro exI [of _ "rp_protocolLength s"] exI [of _ "rp_lineNo s"]) (simp add: in_headers_def)
next
  case (Cons kv hs)
  have line: "request_line (header_line kv) s = counted (header_line kv) (s\<lparr>rp_headers := rp_headers s @ [kv]\<rparr>)"
    using request_header_line [of kv s] Cons.prems by (auto simp: dm_ok_def dm_contains_def)
  show ?case
    using Cons.IH [of "request_line (header_line kv) s"] Cons.prems in_headers_counted
    by (auto simp: line dm_ok_def) (auto simp: counted_def)
qed

lemma request_content_length_line:
  assumes "decimal_notation fmt_u64" and "in_headers s"
    and "\<not> rp_contentLengthSet s" and "\<not> dm_contains ''Content-Length'' (rp_headers s)"
  shows "request_line (header_line (''Content-Length'', fmt_u64 n)) s =
    counted (header_line (''Content-Length'', fmt_u64 n))
      (s\<lparr>rp_headers := rp_headers s @ [(''Content-Length'', fmt_u64 n)], rp_contentLength := n, rp_contentLengthSet := True\<rparr>)"
  using assms header_parts [OF number_header [OF assms(1), of n]] IsOnlyDigits_notation [OF assms(1)] FastAtoiu_number [OF assms(1)]
  by (cases s) (simp add: in_headers_def request_line_def header_word_def dm_emplace_def Let_def counted_def)

lemma request_empty_line:
  assumes "in_headers s"
  shows "request_line [] s = counted [] (s\<lparr>rp_crlfCounter := 2\<rparr>)"
  using assms by (cases s) (simp add: in_headers_def request_line_def counted_def)

definition host_header :: "string option \<Rightarrow> (string, string) dense_map \<Rightarrow> (string, string) dense_map" where
  "host_header address headers =
     (case address of Some a \<Rightarrow> if \<not> dm_contains ''Host'' headers then [(''Host'', a)] else [] | None \<Rightarrow> [])"

definition length_header :: "(u64 \<Rightarrow> string) \<Rightarrow> string \<Rightarrow> (string, string) dense_map" where
  "length_header fmt_u64 msg = (if msg \<noteq> [] then [(''Content-Length'', fmt_u64 (word_of_nat (length msg)))] else [])"

text \<open>
  Requests that HTTP can carry: no spaces or line breaks in the route, headers that can be told apart, and
  the length left to the client.
\<close>

definition plain_headers :: "(string, string) dense_map \<Rightarrow> bool" where
  "plain_headers hs \<longleftrightarrow> list_all plain_header hs \<and> dm_ok hs \<and> ''Content-Length'' \<notin> fst ` set hs"

definition plain_target :: "string \<Rightarrow> bool" where
  "plain_target target \<longleftrightarrow> CHR '' '' \<notin> set target \<and> CHR 0x0D \<notin> set target"

lemma format_request_text:
  assumes "format_request fmt_u64 address method target headers msg = Inr req"
  shows "\<exists>mt. method_text method = Some mt \<and>
    req = head_text (request_head mt target # map header_line ((headers @ host_header address headers) @ length_header fmt_u64 msg)) @ msg"
  using assms unfolding format_request_def format_headers
  by (auto simp: host_header_def length_header_def request_head_def head_text_def format_header_line
    ICHOR_HTTP_VERSION_MATCH_def split: if_split_asm option.splits)

lemma request_head_plain:
  "method_text method = Some mt \<Longrightarrow> plain_target target \<Longrightarrow> plain_line (request_head mt target)"
  using method_text_chars by (auto simp: plain_line_def request_head_def plain_target_def ICHOR_HTTP_VERSION_MATCH_def)

lemma request_state_of_head:
  fixes msg :: string
  assumes "decimal_notation fmt_u64" and "method_text method = Some mt" and "plain_target target" and "plain_headers hs"
  defines "h \<equiv> head_text (request_head mt target # map header_line (hs @ length_header fmt_u64 msg))"
  shows "\<exists>p n. request_state (h @ rest) (length h) =
    \<lparr>rp_method = method, rp_route = target, rp_headers = hs @ length_header fmt_u64 msg, rp_lineNo = n, rp_crlfCounter = 2,
     rp_protocolLength = p, rp_contentLength = (if msg = [] then 0 else word_of_nat (length msg)), rp_badRequest = False,
     rp_contentLengthHeader = False, rp_contentLengthSet = (msg \<noteq> [])\<rparr>"
proof -
  have plain: "list_all plain_line (request_head mt target # map header_line (hs @ length_header fmt_u64 msg))"
    using assms(2-4) request_head_plain number_header [OF assms(1)] header_plain_line
    by (auto simp: plain_headers_def list_all_iff length_header_def)
  let ?s0 = "counted (request_head mt target) (request_parse_init\<lparr>rp_method := method, rp_route := target, rp_crlfCounter := 1\<rparr>)"
  have first: "request_line (request_head mt target) request_parse_init = ?s0"
    using request_first_line assms(2,3) by (simp add: plain_target_def request_parse_init_def)
  have in0: "in_headers ?s0" "rp_headers ?s0 = []" "\<not> rp_contentLengthSet ?s0" by (simp_all add: in_headers_def request_parse_init_def)
  obtain p n where hs: "0 < n" "fold request_line (map header_line hs) ?s0 =
      ?s0\<lparr>rp_headers := hs, rp_protocolLength := p, rp_lineNo := n\<rparr>"
    using request_headers [of hs ?s0] in0 assms(4) by (auto simp: plain_headers_def)
  let ?s1 = "?s0\<lparr>rp_headers := hs, rp_protocolLength := p, rp_lineNo := n\<rparr>"
  have in1: "in_headers ?s1" using in0(1) hs(1) by (simp add: in_headers_def)
  have "\<not> dm_contains ''Content-Length'' hs" using assms(4) by (simp add: plain_headers_def dm_contains_def)
  then have "\<exists>p n. 0 < n \<and> fold request_line (map header_line (length_header fmt_u64 msg)) ?s1 =
     ?s1\<lparr>rp_headers := hs @ length_header fmt_u64 msg, rp_contentLength := (if msg = [] then 0 else word_of_nat (length msg)),
         rp_contentLengthSet := (msg \<noteq> []), rp_protocolLength := p, rp_lineNo := n\<rparr>"
    using request_content_length_line [OF assms(1) in1] hs(1)
    by (auto simp: length_header_def counted_def request_parse_init_def)
  then obtain p' n' where cl: "0 < n'" "fold request_line (map header_line (length_header fmt_u64 msg)) ?s1 =
     ?s1\<lparr>rp_headers := hs @ length_header fmt_u64 msg, rp_contentLength := (if msg = [] then 0 else word_of_nat (length msg)),
         rp_contentLengthSet := (msg \<noteq> []), rp_protocolLength := p', rp_lineNo := n'\<rparr>" by blast
  have in2: "in_headers (fold request_line (map header_line (length_header fmt_u64 msg)) ?s1)"
    using in1 cl by (simp add: in_headers_def)
  show ?thesis
    unfolding request_state_def h_def head_lines [OF plain]
    using first hs cl request_empty_line [OF in2] by (simp add: counted_def request_parse_init_def)
qed

definition received ::
  "(u64 \<Rightarrow> string) \<Rightarrow> string option \<Rightarrow> HttpMethod \<Rightarrow> string \<Rightarrow> (string, string) dense_map \<Rightarrow> string \<Rightarrow> HttpRequest" where
  "received fmt_u64 address method target headers msg =
     \<lparr>rq_body = msg @ [CHR 0x00], rq_method = method, rq_route = target, rq_regex_params = [], rq_address = [],
      rq_headers = headers @ host_header address headers @ length_header fmt_u64 msg\<rparr>"

definition plain_request :: "string option \<Rightarrow> string \<Rightarrow> (string, string) dense_map \<Rightarrow> bool" where
  "plain_request address target headers \<longleftrightarrow>
     plain_target target \<and> plain_headers headers \<and> (case address of None \<Rightarrow> True | Some a \<Rightarrow> plain_header (''Host'', a))"

lemma plain_request_headers: "plain_request address target headers \<Longrightarrow> plain_headers (headers @ host_header address headers)"
  by (auto simp: plain_request_def plain_headers_def host_header_def dm_ok_def dm_contains_def split: option.splits)

lemma request_parsed:
  assumes "decimal_notation fmt_u64" and "format_request fmt_u64 address method target headers msg = Inr req"
    and "plain_request address target headers" and "length (req @ rest) < 2 ^ 64"
  shows "search (req @ rest) CRLFCRLF < length (req @ rest)"
    and "parseRequest (req @ rest) (search (req @ rest) CRLFCRLF + 4) =
      Some (Inr (received fmt_u64 address method target headers msg), length req)"
proof -
  obtain mt where mt: "method_text method = Some mt"
    "req = head_text (request_head mt target # map header_line ((headers @ host_header address headers) @ length_header fmt_u64 msg)) @ msg"
    using format_request_text [OF assms(2)] by blast
  let ?ls = "request_head mt target # map header_line ((headers @ host_header address headers) @ length_header fmt_u64 msg)"
  let ?h = "head_text ?ls"
  note hs = plain_request_headers [OF assms(3)]
  have target: "plain_target target" using assms(3) by (simp add: plain_request_def)
  have "list_all plain_line ?ls"
    using request_head_plain [OF mt(1) target] hs number_header [OF assms(1)] header_plain_line
    by (auto simp: plain_headers_def list_all_iff length_header_def)
  then have pos: "search (req @ rest) CRLFCRLF + 4 = length ?h" using head_end [of ?ls "msg @ rest"] by (simp add: mt(2))
  then show "search (req @ rest) CRLFCRLF < length (req @ rest)" by (simp add: mt(2))
  obtain p n where st: "request_state (req @ rest) (length ?h) =
    \<lparr>rp_method = method, rp_route = target, rp_headers = (headers @ host_header address headers) @ length_header fmt_u64 msg,
     rp_lineNo = n, rp_crlfCounter = 2, rp_protocolLength = p,
     rp_contentLength = (if msg = [] then 0 else word_of_nat (length msg)), rp_badRequest = False,
     rp_contentLengthHeader = False, rp_contentLengthSet = (msg \<noteq> [])\<rparr>"
    using request_state_of_head [OF assms(1) mt(1) target hs, of msg "msg @ rest"] unfolding mt(2) by auto
  have p: "p = word_of_nat (length ?h)"
    using request_state_length [of "length ?h" "req @ rest"] unfolding st by (simp add: mt(2) head_text_def suffix_def)
  have "length msg < 2 ^ 64" using assms(4) by (simp add: mt(2))
  then have cl: "unat (if msg = [] then 0 else word_of_nat (length msg) :: u64) = length msg"
    by (simp add: unat_of_nat take_bit_nat_eq_self)
  have fits: "unat (if msg = [] then 0 else word_of_nat (length msg) :: u64) + length ?h < 2 ^ 64"
    unfolding cl using assms(4) by (simp add: mt(2))
  show "parseRequest (req @ rest) (search (req @ rest) CRLFCRLF + 4) =
      Some (Inr (received fmt_u64 address method target headers msg), length req)"
    unfolding pos parseRequest_def st Let_def p request_parse.simps no_wrap [OF fits assms(4)] cl
    by (simp add: mt(2) received_def)
qed

text \<open>
  C12. What the client sends is what the server receives. The text that \<^verbatim>\<open>HttpConnectionService::sendAsync\<close>
  composes for a request, followed by anything, is parsed by \<^verbatim>\<open>HttpHostService::parseRequest\<close> into that
  request: the method, the route, the headers together with \<^verbatim>\<open>Host\<close> and \<^verbatim>\<open>Content-Length\<close>, and the body with
  a NUL at its end. The server continues exactly behind the request.
\<close>

theorem request_roundtrip:
  assumes "decimal_notation fmt_u64" and "format_request fmt_u64 address method target headers msg = Inr req"
    and "plain_request address target headers" and "length (req @ rest) < 2 ^ 64"
  shows "parseRequest (req @ rest) (search (req @ rest) CRLFCRLF + 4) =
    Some (Inr (received fmt_u64 address method target headers msg), length req)"
  using request_parsed(2) [OF assms] .

definition ex_fmt :: "u64 \<Rightarrow> string" where
  "ex_fmt n = decimal_digits (unat n)"

lemma ex_fmt_notation: "decimal_notation ex_fmt"
  using decimal_notation_digits by (simp add: ex_fmt_def [abs_def])

lemma ex_fmt_length: "length (ex_fmt 2) = 1"
  by (simp add: ex_fmt_def decimal_digits.simps)

theorem request_roundtrip_witness:
  "\<exists>req. format_request ex_fmt (Some ''127.0.0.1'') M_post ''/some'' [(''testheader'', ''test'')] ''hi'' = Inr req \<and>
     parseRequest (req @ ''GET'') (search (req @ ''GET'') CRLFCRLF + 4) =
       Some (Inr (received ex_fmt (Some ''127.0.0.1'') M_post ''/some'' [(''testheader'', ''test'')] ''hi''), length req)"
proof -
  have m: "method_text M_post = Some ''POST''" by (simp add: method_text_def ICHOR_REVERSE_METHOD_MATCHING_def)
  let ?f = "format_request ex_fmt (Some ''127.0.0.1'') M_post ''/some'' [(''testheader'', ''test'')] ''hi''"
  obtain req where req: "?f = Inr req" by (simp add: format_request_def padded_def m)
  then have "length req < 200"
    by (auto simp: format_request_def padded_def m dm_contains_def format_header_def CRLF_def ex_fmt_length)
  then have "length (req @ ''GET'') < 2 ^ 64" by simp
  moreover have "plain_request (Some ''127.0.0.1'') ''/some'' [(''testheader'', ''test'')]"
    by (simp add: plain_request_def plain_target_def plain_headers_def plain_header_def dm_ok_def)
  ultimately show ?thesis using request_roundtrip [OF ex_fmt_notation req] req by blast
qed

section \<open>Several requests in one buffer\<close>

text \<open>What the routes answer to requests, one after the other.\<close>

definition answer_request :: "http_env \<Rightarrow> service_id \<Rightarrow> HttpRequest \<Rightarrow> HttpHostService \<Rightarrow> HttpHostService" where
  "answer_request env sid req s = (case answer env req s of (resp, s1) \<Rightarrow> sendResponse env sid resp s1)"

definition keeps_connections :: "http_env \<Rightarrow> bool" where
  "keeps_connections env \<longleftrightarrow>
     (\<forall>h req s. hs_connections (snd (he_handler env h req s)) = hs_connections s \<and>
                hs_connectionBuffers (snd (he_handler env h req s)) = hs_connectionBuffers s) \<and>
     (\<forall>c resp s. hs_connections (he_send env c resp s) = hs_connections s \<and>
                 hs_connectionBuffers (he_send env c resp s) = hs_connectionBuffers s)"

lemma answer_keeps:
  assumes "keeps_connections env" and "answer env req s = (resp, s1)"
  shows "hs_connections s1 = hs_connections s" "hs_connectionBuffers s1 = hs_connectionBuffers s"
proof -
  have handled: "hs_connections (snd (he_handler env h r t)) = hs_connections t"
    "hs_connectionBuffers (snd (he_handler env h r t)) = hs_connectionBuffers t" for h r t
    using assms(1) by (auto simp: keeps_connections_def)
  show "hs_connections s1 = hs_connections s" "hs_connectionBuffers s1 = hs_connectionBuffers s"
    using assms(2) handled
    by (auto simp: answer_def Let_def split: option.splits prod.splits) (metis HttpHostService.select_convs HttpHostService.surjective HttpHostService.update_convs(3) snd_conv)+
qed

lemma answer_request_keeps:
  assumes "keeps_connections env"
  shows "hs_connections (answer_request env sid req s) = hs_connections s"
    "hs_connectionBuffers (answer_request env sid req s) = hs_connectionBuffers s"
  using assms answer_keeps [OF assms]
  by (auto simp: answer_request_def sendResponse_def Let_def keeps_connections_def split: prod.splits)

text \<open>
  A request as the user of the client states it, and its text.
\<close>

record client_request =
  cr_method :: HttpMethod
  cr_target :: string
  cr_headers :: "(string, string) dense_map"
  cr_msg :: string

definition request_text :: "(u64 \<Rightarrow> string) \<Rightarrow> string option \<Rightarrow> client_request \<Rightarrow> HttpError + string" where
  "request_text fmt_u64 address r = format_request fmt_u64 address (cr_method r) (cr_target r) (cr_headers r) (cr_msg r)"

definition request_of :: "(u64 \<Rightarrow> string) \<Rightarrow> string option \<Rightarrow> client_request \<Rightarrow> HttpRequest" where
  "request_of fmt_u64 address r = received fmt_u64 address (cr_method r) (cr_target r) (cr_headers r) (cr_msg r)"

lemma receive_one:
  assumes "keeps_connections env" and "decimal_notation fmt_u64" and "request_text fmt_u64 address r = Inr req"
    and "plain_request address (cr_target r) (cr_headers r)" and "length (req @ rest) < 2 ^ 64"
    and "sid \<in> set (hs_connections s)" and "dm_find sid (hs_connectionBuffers s) = Some buf"
  shows "receive_loop env sid buf (req @ rest) s =
    receive_loop env sid buf rest (answer_request env sid (request_of fmt_u64 address r) s)"
proof -
  note parsed = request_parsed [OF assms(2) assms(3) [unfolded request_text_def] assms(4,5), folded request_of_def]
  obtain resp s1 where a: "answer env (request_of fmt_u64 address r) s = (resp, s1)" by force
  have s': "sendResponse env sid resp s1 = answer_request env sid (request_of fmt_u64 address r) s"
    by (simp add: answer_request_def a)
  show ?thesis
    using parsed assms(6,7) answer_request_keeps [OF assms(1)]
    by (subst receive_loop.simps) (simp add: Let_def a s')
qed

lemma receive_keeps_beginning:
  "search rest CRLFCRLF = length rest \<Longrightarrow> receive_loop env sid buf rest s = Some (Some rest, s)"
  by (subst receive_loop.simps) simp

lemma receive_all:
  assumes "keeps_connections env" and "decimal_notation fmt_u64"
    and "\<And>s. receive_loop env sid buf rest s = Some (Some rest, s)"
    and "list_all2 (\<lambda>r req. request_text fmt_u64 address r = Inr req \<and> plain_request address (cr_target r) (cr_headers r)) rs reqs"
    and "length (concat reqs @ rest) < 2 ^ 64"
    and "sid \<in> set (hs_connections s)" and "dm_find sid (hs_connectionBuffers s) = Some buf"
  shows "receive_loop env sid buf (concat reqs @ rest) s =
    Some (Some rest, fold (\<lambda>r. answer_request env sid (request_of fmt_u64 address r)) rs s)"
  using assms(4-7)
proof (induction rs reqs arbitrary: s rule: list_all2_induct)
  case Nil
  then show ?case using assms(3) by simp
next
  case (Cons r rs req reqs)
  let ?s' = "answer_request env sid (request_of fmt_u64 address r) s"
  have "receive_loop env sid buf (concat (req # reqs) @ rest) s = receive_loop env sid buf (concat reqs @ rest) ?s'"
    using receive_one [OF assms(1,2), of address r req "concat reqs @ rest"] Cons by simp
  also have "\<dots> = Some (Some rest, fold (\<lambda>r. answer_request env sid (request_of fmt_u64 address r)) rs ?s')"
    using Cons.prems by (intro Cons.IH) (simp_all add: answer_request_keeps [OF assms(1)])
  finally show ?case by simp
qed

text \<open>
  C10. Requests that arrive together are answered one after the other. When the buffer of a connection holds
  the texts of any number of requests and the beginning of another one, and neither the handlers nor the
  connection touch the buffers and connections of the server, then \<^verbatim>\<open>receiveRequestHandler\<close> returns, has
  handed each request to its route and sent each answer, in the order of the requests, and keeps exactly
  the beginning of the next request in the buffer.
\<close>

theorem pipelined_requests_in_order:
  assumes "keeps_connections env" and "decimal_notation fmt_u64" and "search rest CRLFCRLF = length rest"
    and "list_all2 (\<lambda>r req. request_text fmt_u64 address r = Inr req \<and> plain_request address (cr_target r) (cr_headers r)) rs reqs"
    and "dm_find sid (hs_connectionBuffers s) = Some (concat reqs @ rest)" and "length (concat reqs @ rest) \<le> buffer_limit"
    and "sid \<in> set (hs_connections s)"
  shows "receiveRequestHandler env sid s =
    Some (set_buffer sid rest (fold (\<lambda>r. answer_request env sid (request_of fmt_u64 address r)) rs s))"
proof -
  have "length (concat reqs @ rest) < 2 ^ 64" using assms(6) by (simp add: buffer_limit_def)
  then show ?thesis
    using receive_all [OF assms(1,2) receive_keeps_beginning [OF assms(3)] assms(4) _ assms(7,5)]
    by (simp add: receive_enters [OF assms(5,6)] finish_receive_def)
qed

definition ex_get :: "string \<Rightarrow> client_request" where
  "ex_get target = \<lparr>cr_method = M_get, cr_target = target, cr_headers = [], cr_msg = []\<rparr>"

definition ex_get_text :: "string \<Rightarrow> string" where
  "ex_get_text target = ''GET '' @ target @ '' HTTP/1.1'' @ CRLF @ CRLF"

lemma ex_get_plain:
  "plain_target target \<Longrightarrow>
   request_text ex_fmt None (ex_get target) = Inr (ex_get_text target) \<and> plain_request None (cr_target (ex_get target)) (cr_headers (ex_get target))"
  by (simp add: request_text_def ex_get_def ex_get_text_def format_request_def plain_request_def plain_headers_def
    method_text_def ICHOR_REVERSE_METHOD_MATCHING_def)

theorem pipelined_requests_in_order_witness:
  "receiveRequestHandler ex_http_env 7 (ex_host (ex_get_text ''/'' @ ex_get_text ''/'' @ ''GE'')) =
     Some (set_buffer 7 ''GE'' (fold (\<lambda>r. answer_request ex_http_env 7 (request_of ex_fmt None r)) [ex_get ''/'', ex_get ''/'']
       (ex_host (ex_get_text ''/'' @ ex_get_text ''/'' @ ''GE''))))"
proof -
  have t: "plain_target ''/''" by (simp add: plain_target_def)
  show ?thesis
    using ex_get_plain [OF t] ex_fmt_notation
    by (intro pipelined_requests_in_order [where reqs = "[ex_get_text ''/'', ex_get_text ''/'']"])
      (simp_all add: keeps_connections_def ex_http_env_def CRLFCRLF_def CRLF_def ex_host_def dm_find_def buffer_limit_def ex_get_text_def)
qed

end
