(* ===== verification/Http_Responses.thy ===== *)
theory Http_Responses
  imports Http_Properties
begin

text \<open>
  The way back: the client parses what \<^verbatim>\<open>HttpHostService::sendResponse\<close> composes, with a content length or without
  body, and what other servers send in chunks.
\<close>

section \<open>Lines of a response\<close>

definition counted_resp :: "string \<Rightarrow> response_parse \<Rightarrow> response_parse" where
  "counted_resp l s = s\<lparr>sp_protocolLength := sp_protocolLength s + word_of_nat (length l + 2), sp_lineNo := sp_lineNo s + 1\<rparr>"

definition status_line :: "(u64 \<Rightarrow> string) \<Rightarrow> nat \<Rightarrow> string \<Rightarrow> string" where
  "status_line fmt_u64 status reason = ICHOR_HTTP_VERSION_MATCH @ '' '' @ fmt_u64 (word_of_nat status) @ '' '' @ reason"

lemma status_line_words:
  assumes "decimal_notation fmt_u64"
  shows "parts '' '' (status_line fmt_u64 status reason) = ICHOR_HTTP_VERSION_MATCH # fmt_u64 (word_of_nat status) # parts '' '' reason"
  using parts_at [of "'' ''" ICHOR_HTTP_VERSION_MATCH "fmt_u64 (word_of_nat status) @ '' '' @ reason"]
    parts_at [of "'' ''" "fmt_u64 (word_of_nat status)" reason] number_chars [OF assms, of "CHR '' ''"]
  by (simp add: status_line_def ICHOR_HTTP_VERSION_MATCH_def is_digit_def)

lemma status_rest:
  "2 \<le> k \<Longrightarrow> \<not> sp_badRequest s \<Longrightarrow> foldl status_word (k, m, s) ws = (k + length ws, m, s)"
  by (induction ws arbitrary: k) (simp_all add: status_word_def)

lemma response_first_line:
  assumes "decimal_notation fmt_u64" and "100 \<le> status" and "status \<le> 599"
    and "sp_lineNo s = 0" and "\<not> sp_badRequest s" and "sp_crlfCounter s = 0"
  shows "response_line (status_line fmt_u64 status reason) s =
    counted_resp (status_line fmt_u64 status reason) (s\<lparr>sp_status := status, sp_crlfCounter := 1\<rparr>)"
proof -
  have u: "unat (word_of_nat status :: u64) = status" using assms(3) by (simp add: unat_of_nat take_bit_nat_eq_self)
  have "\<not> (word_of_nat status :: u64) < 100" "\<not> (599 :: u64) < word_of_nat status"
    using assms(2,3) by (simp_all add: word_less_nat_alt u)
  moreover have "fmt_u64 n \<noteq> []" for n using assms(1) by (simp add: decimal_notation_def)
  ultimately show ?thesis
    using assms(4-6) IsOnlyDigits_notation [OF assms(1)] FastAtoiu_number [OF assms(1)] u
    by (cases s) (simp add: response_line_def status_line_words [OF assms(1)] status_word_def status_rest counted_resp_def Let_def)
qed

lemma response_bad_status:
  assumes "decimal_notation fmt_u64" and "status < 100" and "sp_lineNo s = 0" and "\<not> sp_badRequest s"
  shows "sp_badRequest (response_line (status_line fmt_u64 status reason) s)"
proof -
  have "unat (word_of_nat status :: u64) = status" using assms(2) by (simp add: unat_of_nat take_bit_nat_eq_self)
  then have "(word_of_nat status :: u64) < 100" using assms(2) by (simp add: word_less_nat_alt)
  moreover have "foldl status_word (2, False, s\<lparr>sp_badRequest := True\<rparr>) ws = (2, False, s\<lparr>sp_badRequest := True\<rparr>)" for ws
    by (induction ws) (simp_all add: status_word_def)
  ultimately show ?thesis
    using assms(3,4) IsOnlyDigits_notation [OF assms(1)] FastAtoiu_number [OF assms(1)]
    by (simp add: response_line_def status_line_words [OF assms(1)] status_word_def Let_def)
qed

definition in_response_headers :: "response_parse \<Rightarrow> bool" where
  "in_response_headers s \<longleftrightarrow> sp_lineNo s > 0 \<and> \<not> sp_badRequest s \<and> \<not> sp_contentLengthHeader s \<and> \<not> sp_contentLengthSet s \<and>
     \<not> sp_transferEncodingHeader s \<and> \<not> sp_transferEncodingSet s \<and> \<not> sp_chunkedTransfer s \<and> sp_chunkedStatus s = Chunk_NONE \<and>
     sp_crlfCounter s = 1"

lemma in_response_headers_counted:
  "in_response_headers s \<Longrightarrow> in_response_headers (counted_resp l (s\<lparr>sp_headers := hs\<rparr>))"
  by (simp add: in_response_headers_def counted_resp_def)

lemma response_header_line:
  assumes "plain_header kv" and "fst kv \<noteq> ''Content-Length''" and "fst kv \<noteq> ''Transfer-Encoding''" and "in_response_headers s"
    and "\<not> dm_contains (fst kv) (sp_headers s)"
  shows "response_line (header_line kv) s = counted_resp (header_line kv) (s\<lparr>sp_headers := sp_headers s @ [kv]\<rparr>)"
  using assms header_parts [OF assms(1)]
  by (cases s) (simp add: in_response_headers_def response_line_def response_header_word_def response_header_value_def
    dm_emplace_def Let_def counted_resp_def)

definition plain_response_headers :: "(string, string) dense_map \<Rightarrow> bool" where
  "plain_response_headers hs \<longleftrightarrow> plain_headers hs \<and> ''Transfer-Encoding'' \<notin> fst ` set hs"

lemma response_headers:
  assumes "list_all plain_header hs" and "''Content-Length'' \<notin> fst ` set hs" and "''Transfer-Encoding'' \<notin> fst ` set hs"
    and "in_response_headers s" and "dm_ok (sp_headers s @ hs)"
  shows "\<exists>p n. 0 < n \<and> fold response_line (map header_line hs) s =
    s\<lparr>sp_headers := sp_headers s @ hs, sp_protocolLength := p, sp_lineNo := n\<rparr>"
  using assms
proof (induction hs arbitrary: s)
  case Nil
  then show ?case by (intro exI [of _ "sp_protocolLength s"] exI [of _ "sp_lineNo s"]) (simp add: in_response_headers_def)
next
  case (Cons kv hs)
  have line: "response_line (header_line kv) s = counted_resp (header_line kv) (s\<lparr>sp_headers := sp_headers s @ [kv]\<rparr>)"
    using response_header_line [of kv s] Cons.prems by (auto simp: dm_ok_def dm_contains_def)
  have next': "sp_headers (response_line (header_line kv) s) = sp_headers s @ [kv]" by (simp add: line counted_resp_def)
  show ?case
    using Cons.IH [of "response_line (header_line kv) s"] Cons.prems in_response_headers_counted
    by (auto simp: next' dm_ok_def) (auto simp: line counted_resp_def)
qed

lemma response_length_line:
  assumes "decimal_notation fmt_u64" and "in_response_headers s" and "\<not> dm_contains ''Content-Length'' (sp_headers s)"
  shows "response_line (header_line (''Content-Length'', fmt_u64 n)) s =
    counted_resp (header_line (''Content-Length'', fmt_u64 n))
      (s\<lparr>sp_headers := sp_headers s @ [(''Content-Length'', fmt_u64 n)], sp_contentLength := n, sp_contentLengthSet := True\<rparr>)"
  using assms header_parts [OF number_header [OF assms(1), of n]] IsOnlyDigits_notation [OF assms(1)] FastAtoiu_number [OF assms(1)]
  by (cases s) (simp add: in_response_headers_def response_line_def response_header_word_def response_header_value_def
    dm_emplace_def Let_def counted_resp_def)

lemma response_empty_line:
  assumes "sp_lineNo s > 0" and "\<not> sp_badRequest s" and "\<not> sp_chunkedTransfer s" and "sp_crlfCounter s = 1"
  shows "response_line [] s = counted_resp [] (s\<lparr>sp_crlfCounter := 2\<rparr>)"
  using assms by (cases s) (simp add: response_line_def counted_resp_def)

section \<open>The length of a head\<close>

lemma status_words_keep: "sp_protocolLength (snd (snd (foldl status_word a ws))) = sp_protocolLength (snd (snd a))"
proof (induction ws arbitrary: a)
  case (Cons w ws)
  have "sp_protocolLength (snd (snd (status_word a w))) = sp_protocolLength (snd (snd a))"
    by (auto simp: status_word_def Let_def split: prod.splits)
  then show ?case using Cons by simp
qed simp

lemma response_header_words_keep:
  "sp_protocolLength (snd (snd (snd (foldl response_header_word a ws)))) = sp_protocolLength (snd (snd (snd a)))"
proof (induction ws arbitrary: a)
  case (Cons w ws)
  have "sp_protocolLength (snd (snd (snd (response_header_word a w)))) = sp_protocolLength (snd (snd (snd a)))"
    by (auto simp: response_header_word_def response_header_value_def Let_def split: prod.splits)
  then show ?case using Cons by simp
qed simp

lemma chunk_lines_keep:
  "sp_protocolLength (chunk_length_line l s) = sp_protocolLength s" "sp_protocolLength (chunk_content_line l s) = sp_protocolLength s"
  by (auto simp: chunk_length_line_def chunk_content_line_def Let_def split: option.splits)

lemma response_line_length:
  "\<not> sp_badRequest s \<Longrightarrow> sp_protocolLength (response_line l s) = sp_protocolLength s + word_of_nat (length l + 2)"
  using status_words_keep [of "(0, False, s)" "parts '' '' l"] response_header_words_keep [of "(0, False, [], s)" "parts '': '' l"]
  by (auto simp: response_line_def Let_def chunk_lines_keep split: prod.splits ChunkParseStatus.splits)

lemma response_line_bad: "sp_badRequest s \<Longrightarrow> fold response_line ls s = s"
  by (induction ls) (simp_all add: response_line_def)

lemma response_lines_length:
  "\<not> sp_badRequest (fold response_line ls s) \<Longrightarrow>
   sp_protocolLength (fold response_line ls s) = sp_protocolLength s + word_of_nat (length (with_CRLF ls))"
proof (induction ls arbitrary: s)
  case (Cons l ls)
  then have "\<not> sp_badRequest s" using response_line_bad [of s "l # ls"] by auto
  then show ?case using Cons by (simp add: response_line_length CRLF_def algebra_simps)
qed simp

lemma response_state_length:
  assumes "suffix CRLF (take len complete)" and "len \<le> length complete" and "\<not> sp_badRequest (response_state complete len)"
  shows "sp_protocolLength (response_state complete len) = word_of_nat len"
  using assms response_lines_length [of "parts CRLF (take len complete)" response_parse_init] with_CRLF_parts [of "take len complete"]
  by (simp add: response_state_def response_parse_init_def)

section \<open>Responses\<close>

definition reason_of :: "nat \<Rightarrow> string" where
  "reason_of status = (case status_text status of None \<Rightarrow> ''Unknown'' | Some t \<Rightarrow> t)"

definition type_header :: "HttpResponse \<Rightarrow> (string, string) dense_map" where
  "type_header r = (case rs_contentType r of None \<Rightarrow> [] | Some t \<Rightarrow> [(''Content-Type'', t)])"

lemma reason_plain: "CHR 0x0D \<notin> set (reason_of status)"
proof -
  have "list_all (\<lambda>(_, t). CHR 0x0D \<notin> set t) ICHOR_STATUS_MATCHING" by code_simp
  then have "status_text status = Some t \<Longrightarrow> CHR 0x0D \<notin> set t" for t
    using map_of_SomeD by (fastforce simp: status_text_def list_all_iff)
  then show ?thesis by (auto simp: reason_of_def split: option.splits)
qed

lemma status_line_plain:
  assumes "decimal_notation fmt_u64"
  shows "plain_line (status_line fmt_u64 status (reason_of status'))"
  using reason_plain number_chars [OF assms, of "CHR 0x0D"]
  by (auto simp: plain_line_def status_line_def ICHOR_HTTP_VERSION_MATCH_def is_digit_def)

lemma format_response_text:
  "format_response fmt_u64 r =
     head_text (status_line fmt_u64 (rs_status r) (reason_of (rs_status r)) #
       map header_line ((rs_headers r @ type_header r) @ length_header fmt_u64 (rs_body r))) @ rs_body r"
  unfolding format_response_def format_headers
  by (auto simp: type_header_def length_header_def status_line_def reason_of_def head_text_def format_header_line
    ICHOR_HTTP_VERSION_MATCH_def split: option.splits)

lemma response_state_of_head:
  fixes msg :: string
  assumes "decimal_notation fmt_u64" and "100 \<le> status" and "status \<le> 599" and "plain_response_headers hs"
  defines "h \<equiv> head_text (status_line fmt_u64 status (reason_of status) # map header_line (hs @ length_header fmt_u64 msg))"
  shows "\<exists>p n. response_state (h @ rest) (length h) =
    response_parse_init\<lparr>sp_status := status, sp_headers := hs @ length_header fmt_u64 msg, sp_lineNo := n, sp_crlfCounter := 2,
     sp_protocolLength := p, sp_contentLength := (if msg = [] then 0 else word_of_nat (length msg)), sp_contentLengthSet := (msg \<noteq> [])\<rparr>"
proof -
  have plain: "list_all plain_line (status_line fmt_u64 status (reason_of status) # map header_line (hs @ length_header fmt_u64 msg))"
    using assms(4) status_line_plain [OF assms(1)] number_header [OF assms(1)] header_plain_line
    by (auto simp: plain_response_headers_def plain_headers_def list_all_iff length_header_def)
  let ?s0 = "counted_resp (status_line fmt_u64 status (reason_of status)) (response_parse_init\<lparr>sp_status := status, sp_crlfCounter := 1\<rparr>)"
  have first: "response_line (status_line fmt_u64 status (reason_of status)) response_parse_init = ?s0"
    using response_first_line [OF assms(1-3)] by (simp add: response_parse_init_def)
  have in0: "in_response_headers ?s0" "sp_headers ?s0 = []" by (simp_all add: in_response_headers_def counted_resp_def response_parse_init_def)
  obtain p n where hs: "0 < n" "fold response_line (map header_line hs) ?s0 = ?s0\<lparr>sp_headers := hs, sp_protocolLength := p, sp_lineNo := n\<rparr>"
    using response_headers [of hs ?s0] in0 assms(4) by (auto simp: plain_response_headers_def plain_headers_def)
  let ?s1 = "?s0\<lparr>sp_headers := hs, sp_protocolLength := p, sp_lineNo := n\<rparr>"
  have in1: "in_response_headers ?s1" using in0(1) hs(1) by (simp add: in_response_headers_def)
  have "\<not> dm_contains ''Content-Length'' hs" using assms(4) by (simp add: plain_response_headers_def plain_headers_def dm_contains_def)
  then have "\<exists>p n. 0 < n \<and> fold response_line (map header_line (length_header fmt_u64 msg)) ?s1 =
     ?s1\<lparr>sp_headers := hs @ length_header fmt_u64 msg, sp_contentLength := (if msg = [] then 0 else word_of_nat (length msg)),
         sp_contentLengthSet := (msg \<noteq> []), sp_protocolLength := p, sp_lineNo := n\<rparr>"
    using response_length_line [OF assms(1) in1] hs(1)
    by (auto simp: length_header_def counted_resp_def response_parse_init_def)
  then obtain p' n' where cl: "0 < n'" "fold response_line (map header_line (length_header fmt_u64 msg)) ?s1 =
     ?s1\<lparr>sp_headers := hs @ length_header fmt_u64 msg, sp_contentLength := (if msg = [] then 0 else word_of_nat (length msg)),
         sp_contentLengthSet := (msg \<noteq> []), sp_protocolLength := p', sp_lineNo := n'\<rparr>" by blast
  show ?thesis
    unfolding response_state_def h_def head_lines [OF plain]
    using first hs cl response_empty_line [of "fold response_line (map header_line (length_header fmt_u64 msg)) ?s1"]
    by (simp add: counted_resp_def response_parse_init_def)
qed

definition response_of :: "(u64 \<Rightarrow> string) \<Rightarrow> HttpResponse \<Rightarrow> HttpResponse" where
  "response_of fmt_u64 r =
     \<lparr>rs_status = rs_status r, rs_contentType = None, rs_body = rs_body r @ [CHR 0x00],
      rs_headers = (rs_headers r @ type_header r) @ length_header fmt_u64 (rs_body r)\<rparr>"

definition plain_response :: "HttpResponse \<Rightarrow> bool" where
  "plain_response r \<longleftrightarrow> 100 \<le> rs_status r \<and> rs_status r \<le> 599 \<and> plain_response_headers (rs_headers r @ type_header r)"

lemma response_parsed:
  assumes "decimal_notation fmt_u64" and "plain_response r" and "length (format_response fmt_u64 r @ rest) < 2 ^ 64"
  defines "c \<equiv> format_response fmt_u64 r @ rest"
  shows "search c CRLFCRLF < length c"
    and "parseResponse c (search c CRLFCRLF + 4) = Some (Inr (response_of fmt_u64 r), length (format_response fmt_u64 r))"
proof -
  let ?msg = "rs_body r" let ?hs = "rs_headers r @ type_header r"
  let ?ls = "status_line fmt_u64 (rs_status r) (reason_of (rs_status r)) # map header_line (?hs @ length_header fmt_u64 ?msg)"
  let ?h = "head_text ?ls"
  have c: "c = ?h @ ?msg @ rest" by (simp add: c_def format_response_text)
  have r: "100 \<le> rs_status r" "rs_status r \<le> 599" "plain_response_headers ?hs" using assms(2) by (simp_all add: plain_response_def)
  have "list_all plain_line ?ls"
    using r(3) status_line_plain [OF assms(1)] number_header [OF assms(1)] header_plain_line
    by (auto simp: plain_response_headers_def plain_headers_def list_all_iff length_header_def)
  then have pos: "search c CRLFCRLF + 4 = length ?h" using head_end [of ?ls "?msg @ rest"] by (simp add: c)
  then show "search c CRLFCRLF < length c" by (simp add: c)
  obtain p n where st: "response_state c (length ?h) =
    response_parse_init\<lparr>sp_status := rs_status r, sp_headers := ?hs @ length_header fmt_u64 ?msg, sp_lineNo := n, sp_crlfCounter := 2,
     sp_protocolLength := p, sp_contentLength := (if ?msg = [] then 0 else word_of_nat (length ?msg)), sp_contentLengthSet := (?msg \<noteq> [])\<rparr>"
    using response_state_of_head [OF assms(1) r, of ?msg "?msg @ rest"] unfolding c by blast
  have p: "p = word_of_nat (length ?h)"
    using response_state_length [of "length ?h" c] unfolding st by (simp add: c head_text_def suffix_def response_parse_init_def)
  have len: "length c < 2 ^ 64" using assms(3) by (simp add: c_def)
  then have "length ?msg < 2 ^ 64" by (simp add: c)
  then have cl: "unat (if ?msg = [] then 0 else word_of_nat (length ?msg) :: u64) = length ?msg"
    by (simp add: unat_of_nat take_bit_nat_eq_self)
  have fits: "unat (if ?msg = [] then 0 else word_of_nat (length ?msg) :: u64) + length ?h < 2 ^ 64"
    unfolding cl using len by (simp add: c)
  show "parseResponse c (search c CRLFCRLF + 4) = Some (Inr (response_of fmt_u64 r), length (format_response fmt_u64 r))"
    unfolding pos parseResponse_def st Let_def p response_parse_init_def response_parse.simps no_wrap [OF fits len] cl
    by (simp add: c format_response_text response_of_def parsed_response_def)
qed

section \<open>Handing responses to requests\<close>

lemma response_one:
  assumes "decimal_notation fmt_u64" and "plain_response r" and "length (format_response fmt_u64 r @ rest) < 2 ^ 64"
  shows "response_loop env (format_response fmt_u64 r @ rest) 0 s =
    response_loop env rest 0 (set_front env (Inr (response_of fmt_u64 r)) s)"
  using response_parsed [OF assms] by (subst response_loop.simps) (simp add: Let_def)

definition hand_out :: "(u64 \<Rightarrow> string) \<Rightarrow> HttpResponse list \<Rightarrow> nat list \<Rightarrow> (nat \<times> (HttpParseError + HttpResponse)) list" where
  "hand_out fmt_u64 rs es = zip es (map (\<lambda>r. Inr (response_of fmt_u64 r)) rs)"

lemma response_keeps_beginning:
  "search rest CRLFCRLF = length rest \<Longrightarrow> response_loop env rest 0 s = Some (rest, s)"
  by (subst response_loop.simps) simp

lemma response_all:
  assumes "decimal_notation fmt_u64" and "list_all plain_response rs"
    and "\<And>s. response_loop (\<lambda>_ _. []) rest 0 s = Some (rest, s)"
    and "length (concat (map (format_response fmt_u64) rs) @ rest) < 2 ^ 64"
    and "hc_events s = map (\<lambda>e. (e, False)) es" and "length rs \<le> length es"
  shows "response_loop (\<lambda>_ _. []) (concat (map (format_response fmt_u64) rs) @ rest) 0 s =
    Some (rest, s\<lparr>hc_delivered := hc_delivered s @ hand_out fmt_u64 rs es, hc_events := drop (length rs) (hc_events s)\<rparr>)"
  using assms(2,4-6)
proof (induction rs arbitrary: s es)
  case Nil
  then show ?case using assms(3) by (simp add: hand_out_def)
next
  case (Cons r rs)
  obtain e es' where es: "es = e # es'" using Cons.prems by (cases es) auto
  have "response_loop (\<lambda>_ _. []) (concat (map (format_response fmt_u64) (r # rs)) @ rest) 0 s =
    response_loop (\<lambda>_ _. []) (concat (map (format_response fmt_u64) rs) @ rest) 0
      (s\<lparr>hc_delivered := hc_delivered s @ [(e, Inr (response_of fmt_u64 r))], hc_events := map (\<lambda>e. (e, False)) es'\<rparr>)"
    using response_one [OF assms(1), of r "concat (map (format_response fmt_u64) rs) @ rest"] Cons.prems es
    by (simp add: set_front_def)
  also have "\<dots> = Some (rest, s\<lparr>hc_delivered := (hc_delivered s @ [(e, Inr (response_of fmt_u64 r))]) @ hand_out fmt_u64 rs es',
      hc_events := drop (length rs) (map (\<lambda>e. (e, False)) es')\<rparr>)"
    using Cons.IH [of "s\<lparr>hc_delivered := hc_delivered s @ [(e, Inr (response_of fmt_u64 r))],
      hc_events := map (\<lambda>e. (e, False)) es'\<rparr>" es'] Cons.prems es by simp
  finally show ?case using Cons.prems es by (simp add: hand_out_def)
qed

text \<open>
  C11. Every request gets its own response. When coroutines wait for the responses to their requests, and the
  texts that \<^verbatim>\<open>HttpHostService::sendResponse\<close> composed for some of them have arrived, together with the
  beginning of another one and split over two deliveries in any way, the client hands each response to the
  coroutine that waits for it, in order: status, body, and headers are those of the response, with
  \<^verbatim>\<open>Content-Type\<close> and \<^verbatim>\<open>Content-Length\<close> among the headers and a NUL at the end of the body. The beginning of
  the next response stays in the buffer.
\<close>

theorem responses_reach_their_requests:
  assumes "decimal_notation fmt_u64" and "list_all plain_response rs" and "search rest CRLFCRLF = length rest"
    and "hc_buffer s @ msg = concat (map (format_response fmt_u64) rs) @ rest" and "length (hc_buffer s @ msg) \<le> response_buffer_limit"
    and "hc_events s = map (\<lambda>e. (e, False)) es" and "length rs \<le> length es"
  shows "client_receive (\<lambda>_ _. []) msg s =
    Some (s\<lparr>hc_buffer := rest, hc_delivered := hc_delivered s @ hand_out fmt_u64 rs es,
            hc_events := drop (length rs) (hc_events s)\<rparr>)"
proof -
  let ?s = "s\<lparr>hc_buffer := hc_buffer s @ msg\<rparr>"
  have "length (concat (map (format_response fmt_u64) rs) @ rest) < 2 ^ 64"
    using assms(4,5) by (simp add: response_buffer_limit_def flip: assms(4))
  then have "response_loop (\<lambda>_ _. []) (hc_buffer s @ msg) 0 ?s =
      Some (rest, ?s\<lparr>hc_delivered := hc_delivered ?s @ hand_out fmt_u64 rs es, hc_events := drop (length rs) (hc_events ?s)\<rparr>)"
    using response_all [OF assms(1,2) response_keeps_beginning [OF assms(3)], of ?s es] assms(6,7) unfolding assms(4) by simp
  then show ?thesis using assms(5) by (simp add: client_receive_def Let_def)
qed

definition ex_response :: "string \<Rightarrow> HttpResponse" where
  "ex_response body = \<lparr>rs_status = 200, rs_contentType = Some ''text/plain'', rs_body = body, rs_headers = []\<rparr>"

definition ex_client :: "string \<Rightarrow> (nat \<times> bool) list \<Rightarrow> HttpConnectionService" where
  "ex_client buffer events =
     \<lparr>hc_priority = 1000, hc_connection = Some 3, hc_address = Some ''127.0.0.1'', hc_buffer = buffer, hc_events = events,
      hc_sent = [], hc_delivered = []\<rparr>"

lemma ex_response_length: "length (format_response ex_fmt (ex_response ''hi'')) < 200"
proof -
  have "length (ex_fmt 200) = 3" by (simp add: ex_fmt_def decimal_digits.simps)
  then show ?thesis
    by (simp add: format_response_def ex_response_def status_text_def ICHOR_STATUS_MATCHING_def format_header_def CRLF_def ex_fmt_length)
qed

theorem responses_reach_their_requests_witness:
  "client_receive (\<lambda>_ _. []) (format_response ex_fmt (ex_response ''hi'') @ ''HTT'') (ex_client [] [(11, False), (12, False)]) =
     Some ((ex_client ''HTT'' [(12, False)])\<lparr>hc_delivered := [(11, Inr (response_of ex_fmt (ex_response ''hi'')))]\<rparr>)"
proof -
  let ?s = "ex_client [] [(11, False), (12, False)]" let ?r = "ex_response ''hi''"
  have "list_all plain_response [?r]"
    by (simp add: plain_response_def plain_response_headers_def plain_headers_def plain_header_def type_header_def dm_ok_def ex_response_def)
  moreover have "length (hc_buffer ?s @ format_response ex_fmt ?r @ ''HTT'') \<le> response_buffer_limit"
    using ex_response_length by (simp add: ex_client_def response_buffer_limit_def)
  moreover have "hc_buffer ?s @ format_response ex_fmt ?r @ ''HTT'' = concat (map (format_response ex_fmt) [?r]) @ ''HTT''"
    by (simp add: ex_client_def)
  moreover have "hc_events ?s = map (\<lambda>e. (e, False)) [11, 12]" by (simp add: ex_client_def)
  ultimately show ?thesis
    using responses_reach_their_requests [OF ex_fmt_notation, of "[?r]" "''HTT''" ?s "format_response ex_fmt ?r @ ''HTT''" "[11, 12]"]
    by (simp add: CRLFCRLF_def CRLF_def hand_out_def ex_client_def)
qed

text \<open>
  A route that no matcher accepts is not answered with 404. When the method of a request has routes but
  none of them matches, the server answers with the status 0, whose reason is \<^verbatim>\<open>Unknown\<close>, and the client
  refuses this response as malformed.
\<close>

theorem unmatched_route_status:
  assumes "decimal_notation fmt_u64" and "dm_find (rq_method req) (hs_handlers s) = Some routes"
    and "snd (route_loop routes (rq_route req)) = None"
  shows "rs_status (fst (answer env req s)) = 0 \<and>
    (\<exists>n. parseResponse (format_response fmt_u64 (fst (answer env req s))) (search (format_response fmt_u64 (fst (answer env req s))) CRLFCRLF + 4) =
       Some (Inl PE_BADREQUEST, n))"
proof -
  have a: "fst (answer env req s) = empty_response"
    using assms(2,3) by (auto simp: answer_def Let_def split: prod.splits)
  let ?t = "format_response fmt_u64 empty_response" let ?l = "status_line fmt_u64 0 (reason_of 0)"
  have t: "?t = head_text [?l]"
    by (simp add: format_response_text empty_response_def type_header_def length_header_def)
  have plain: "list_all plain_line [?l]" using status_line_plain [OF assms(1)] by simp
  have pos: "search ?t CRLFCRLF + 4 = length (head_text [?l])" using head_end [OF plain, of "[]"] by (simp add: t)
  have "sp_badRequest (response_line ?l response_parse_init)"
    by (rule response_bad_status [OF assms(1)]) (simp_all add: response_parse_init_def)
  then have "sp_badRequest (response_state ?t (length (head_text [?l])))"
    using head_lines [OF plain, of "[]"] by (simp add: response_state_def t response_line_def)
  then show ?thesis unfolding a pos by (simp add: parseResponse_def empty_response_def Let_def)
qed

theorem unmatched_route_status_witness:
  "rs_status (fst (answer ex_http_env (request_of ex_fmt None (ex_get ''/missing'')) (ex_host []))) = 0"
proof -
  let ?req = "request_of ex_fmt None (ex_get ''/missing'')"
  have "rq_method ?req = M_get" "rq_route ?req = ''/missing''" by (simp_all add: request_of_def received_def ex_get_def)
  then show ?thesis
    using unmatched_route_status [OF ex_fmt_notation, of ?req "ex_host []" _ ex_http_env] by (simp add: ex_host_def dm_find_def)
qed

section \<open>Chunks\<close>

text \<open>A response in chunks, as other servers send it. \<open>hex\<close> prints a length.\<close>

definition hex_notation :: "(nat \<Rightarrow> string) \<Rightarrow> bool" where
  "hex_notation hex \<longleftrightarrow> (\<forall>n. plain_line (hex n) \<and> (n < 2 ^ 64 \<longrightarrow> SafeHexToUint (hex n) = Some (word_of_nat n)))"

definition chunk_lines :: "(nat \<Rightarrow> string) \<Rightarrow> string list \<Rightarrow> string list" where
  "chunk_lines hex cs = concat (map (\<lambda>c. [hex (length c), c]) cs) @ [hex 0]"

definition chunked_head :: "(u64 \<Rightarrow> string) \<Rightarrow> nat \<Rightarrow> string list" where
  "chunked_head fmt_u64 status = [status_line fmt_u64 status (reason_of status), header_line (''Transfer-Encoding'', ''chunked'')]"

definition in_chunks :: "response_parse \<Rightarrow> bool" where
  "in_chunks s \<longleftrightarrow> sp_lineNo s > 0 \<and> \<not> sp_badRequest s \<and> sp_chunkedTransfer s \<and> sp_chunkedStatus s = Chunk_LENGTH"

lemma chunk_pair:
  assumes "hex_notation hex" and "plain_line c" and "length c + 2 < 2 ^ 64" and "in_chunks s"
  shows "\<exists>p n. 0 < n \<and> fold response_line [hex (length c), c] s =
    s\<lparr>sp_body := sp_body s @ c, sp_crlfCounter := 1, sp_protocolLength := p, sp_lineNo := n, sp_chunkLength := 0\<rparr>"
proof -
  let ?w = "word_of_nat (length c) :: u64"
  have hex: "hex (length c) \<noteq> []" "SafeHexToUint (hex (length c)) = Some ?w"
    using assms(1,3) by (simp_all add: hex_notation_def plain_line_def)
  have "unat ?w = length c" using assms(3) by (simp add: unat_of_nat take_bit_nat_eq_self)
  then have w: "?w \<noteq> 0" using assms(2) by (metis length_0_conv plain_line_def unat_0)
  show ?thesis
    using assms(2,4) hex w
    by (cases s) (simp add: in_chunks_def plain_line_def response_line_def chunk_length_line_def chunk_content_line_def
      Let_def add.commute)
qed

lemma chunk_pairs:
  assumes "hex_notation hex" and "list_all (\<lambda>c. plain_line c \<and> length c + 2 < 2 ^ 64) cs" and "in_chunks s"
  shows "\<exists>p n k l. 0 < n \<and> fold response_line (concat (map (\<lambda>c. [hex (length c), c]) cs)) s =
    s\<lparr>sp_body := sp_body s @ concat cs, sp_crlfCounter := k, sp_protocolLength := p, sp_lineNo := n, sp_chunkLength := l\<rparr>"
  using assms(2,3)
proof (induction cs arbitrary: s)
  case Nil
  then show ?case
    by (intro exI [of _ "sp_protocolLength s"] exI [of _ "sp_lineNo s"] exI [of _ "sp_crlfCounter s"] exI [of _ "sp_chunkLength s"])
      (simp add: in_chunks_def)
next
  case (Cons c cs)
  obtain p n where pair: "0 < n" "fold response_line [hex (length c), c] s =
      s\<lparr>sp_body := sp_body s @ c, sp_crlfCounter := 1, sp_protocolLength := p, sp_lineNo := n, sp_chunkLength := 0\<rparr>"
    using chunk_pair [OF assms(1), of c s] Cons.prems by auto
  let ?s = "s\<lparr>sp_body := sp_body s @ c, sp_crlfCounter := 1, sp_protocolLength := p, sp_lineNo := n, sp_chunkLength := 0\<rparr>"
  have "in_chunks ?s" using Cons.prems(2) pair(1) by (simp add: in_chunks_def)
  then obtain p' n' k l where "0 < n'" "fold response_line (concat (map (\<lambda>c. [hex (length c), c]) cs)) ?s =
      ?s\<lparr>sp_body := sp_body ?s @ concat cs, sp_crlfCounter := k, sp_protocolLength := p', sp_lineNo := n', sp_chunkLength := l\<rparr>"
    using Cons.IH [of ?s] Cons.prems(1) by auto
  then show ?case
    using pair(2) by (intro exI [of _ p'] exI [of _ n'] exI [of _ k] exI [of _ l]) simp
qed

lemma chunk_end:
  assumes "hex_notation hex" and "in_chunks s"
  shows "\<exists>p n. fold response_line [hex 0, []] s =
    s\<lparr>sp_body := sp_body s @ [CHR 0x00], sp_crlfCounter := 2, sp_protocolLength := p, sp_lineNo := n, sp_chunkLength := 0,
      sp_chunkedStatus := Chunk_DONE\<rparr>"
proof -
  have "hex 0 \<noteq> []" "SafeHexToUint (hex 0) = Some 0" using assms(1) by (simp_all add: hex_notation_def plain_line_def)
  then show ?thesis using assms(2) by (cases s) (simp add: in_chunks_def response_line_def chunk_length_line_def Let_def)
qed

lemma chunked_head_state:
  assumes "decimal_notation fmt_u64" and "100 \<le> status" and "status \<le> 599"
  shows "\<exists>p n. 0 < n \<and> fold response_line (chunked_head fmt_u64 status @ [[]]) response_parse_init =
    response_parse_init\<lparr>sp_status := status, sp_headers := [(''Transfer-Encoding'', ''chunked'')], sp_lineNo := n, sp_crlfCounter := 2,
      sp_protocolLength := p, sp_transferEncodingSet := True, sp_chunkedTransfer := True, sp_chunkedStatus := Chunk_LENGTH\<rparr>"
proof -
  have "plain_header (''Transfer-Encoding'', ''chunked'')" by (simp add: plain_header_def)
  then have words: "parts '': '' (header_line (''Transfer-Encoding'', ''chunked'')) = [''Transfer-Encoding'', ''chunked'']"
    using header_parts by fastforce
  show ?thesis
    using response_first_line [OF assms, of response_parse_init "reason_of status"]
    by (simp add: chunked_head_def response_parse_init_def counted_resp_def response_line_def [of "header_line _"] response_line_def [of "[]"]
      words response_header_word_def response_header_value_def dm_emplace_def dm_contains_def Let_def)
qed

lemma two_heads:
  assumes "list_all plain_line a" and "list_all plain_line b"
  shows "parts CRLF (take (length (head_text a) + length (head_text b)) (head_text a @ head_text b @ rest)) = (a @ [[]]) @ b @ [[]]"
  using assms parts_lines [of "(a @ [[]]) @ b @ [[]]"] by (auto simp: head_text_def list_all_iff plain_line_def)

lemma chunked_head_plain: "decimal_notation fmt_u64 \<Longrightarrow> list_all plain_line (chunked_head fmt_u64 status)"
  using status_line_plain header_plain_line [of "(''Transfer-Encoding'', ''chunked'')"]
  by (auto simp: chunked_head_def plain_header_def)

lemma chunk_lines_plain:
  "hex_notation hex \<Longrightarrow> list_all plain_line cs \<Longrightarrow> list_all plain_line (chunk_lines hex cs)"
  by (auto simp: chunk_lines_def list_all_iff hex_notation_def)

definition chunked_response :: "nat \<Rightarrow> string list \<Rightarrow> HttpResponse" where
  "chunked_response status cs =
     \<lparr>rs_status = status, rs_contentType = None, rs_body = concat cs @ [CHR 0x00], rs_headers = [(''Transfer-Encoding'', ''chunked'')]\<rparr>"

lemma chunked_parsed:
  assumes "decimal_notation fmt_u64" and "100 \<le> status" and "status \<le> 599" and "hex_notation hex"
    and "list_all (\<lambda>c. plain_line c \<and> length c + 2 < 2 ^ 64) cs"
  defines "h \<equiv> head_text (chunked_head fmt_u64 status)" and "b \<equiv> head_text (chunk_lines hex cs)"
  shows "parseResponse (h @ b @ rest) (length h) = Some (Inl PE_CHUNKED, length h)"
    and "parseResponse (h @ b @ rest) (length h + length b) = Some (Inr (chunked_response status cs), length h + length b)"
proof -
  obtain p n where st: "0 < n" "fold response_line (chunked_head fmt_u64 status @ [[]]) response_parse_init =
    response_parse_init\<lparr>sp_status := status, sp_headers := [(''Transfer-Encoding'', ''chunked'')], sp_lineNo := n, sp_crlfCounter := 2,
      sp_protocolLength := p, sp_transferEncodingSet := True, sp_chunkedTransfer := True, sp_chunkedStatus := Chunk_LENGTH\<rparr>"
    using chunked_head_state [OF assms(1-3)] by blast
  let ?s0 = "response_parse_init\<lparr>sp_status := status, sp_headers := [(''Transfer-Encoding'', ''chunked'')], sp_lineNo := n,
    sp_crlfCounter := 2, sp_protocolLength := p, sp_transferEncodingSet := True, sp_chunkedTransfer := True,
    sp_chunkedStatus := Chunk_LENGTH\<rparr>"
  note hplain = chunked_head_plain [OF assms(1), of status]
  have "list_all plain_line cs" using assms(5) by (simp add: list_all_iff)
  note bplain = chunk_lines_plain [OF assms(4) this]
  have "response_state (h @ b @ rest) (length h) = ?s0"
    using st(2) head_lines [OF hplain, of "b @ rest"] by (simp add: response_state_def h_def)
  then show "parseResponse (h @ b @ rest) (length h) = Some (Inl PE_CHUNKED, length h)"
    by (simp add: parseResponse_def Let_def response_parse_init_def)
  have in0: "in_chunks ?s0" using st(1) by (simp add: in_chunks_def response_parse_init_def)
  obtain p' n' k l where mid: "0 < n'" "fold response_line (concat (map (\<lambda>c. [hex (length c), c]) cs)) ?s0 =
      ?s0\<lparr>sp_body := concat cs, sp_crlfCounter := k, sp_protocolLength := p', sp_lineNo := n', sp_chunkLength := l\<rparr>"
    using chunk_pairs [OF assms(4,5) in0] by (auto simp: response_parse_init_def)
  let ?s1 = "?s0\<lparr>sp_body := concat cs, sp_crlfCounter := k, sp_protocolLength := p', sp_lineNo := n', sp_chunkLength := l\<rparr>"
  have "in_chunks ?s1" using in0 mid(1) by (simp add: in_chunks_def)
  then obtain p2 n2 where fin: "fold response_line [hex 0, []] ?s1 = ?s1\<lparr>sp_body := concat cs @ [CHR 0x00], sp_crlfCounter := 2,
      sp_protocolLength := p2, sp_lineNo := n2, sp_chunkLength := 0, sp_chunkedStatus := Chunk_DONE\<rparr>"
    using chunk_end [OF assms(4), of ?s1] by auto
  have "response_state (h @ b @ rest) (length h + length b) = fold response_line [hex 0, []] ?s1"
    using two_heads [OF hplain bplain, of rest] st(2) mid(2)
    by (simp add: response_state_def h_def b_def) (simp add: chunk_lines_def)
  then show "parseResponse (h @ b @ rest) (length h + length b) = Some (Inr (chunked_response status cs), length h + length b)"
    unfolding fin by (simp add: parseResponse_def Let_def parsed_response_def chunked_response_def response_parse_init_def)
qed


lemma hex_digits_notation: "hex_notation hex_digits"
proof -
  have "\<not> is_hex (CHR 0x0D)" by (simp add: is_hex_def digittoval_def)
  then have "CHR 0x0D \<notin> set (hex_digits n) \<and> hex_digits n \<noteq> []" for n
    using rev_hex_digits_value [of 16 n] by (auto simp: hex_digits_def list_all_iff)
  then show ?thesis using SafeHexToUint_hex_digits by (simp add: hex_notation_def plain_line_def)
qed

lemma chunked_head_length: "length (head_text (chunked_head ex_fmt 200)) \<le> 60"
proof -
  have "length (ex_fmt 200) = 3" by (simp add: ex_fmt_def decimal_digits.simps)
  then show ?thesis
    by (simp add: head_text_def chunked_head_def status_line_def header_line_def reason_of_def status_text_def
      ICHOR_STATUS_MATCHING_def ICHOR_HTTP_VERSION_MATCH_def CRLF_def)
qed


text \<open>
  Line breaks inside a chunk are lost. The body that consists of one chunk of four bytes, \<^verbatim>\<open>a\<close>, a line
  break and \<^verbatim>\<open>b\<close>, arrives as \<^verbatim>\<open>ab\<close>: the parser counts the line break as part of the chunk but does not store
  it.
\<close>

theorem chunk_line_break_lost:
  "\<exists>r n. parseResponse (head_text (chunked_head ex_fmt 200) @ with_CRLF [''4'', ''a'' @ CRLF @ ''b'', ''0'', []])
       (length (head_text (chunked_head ex_fmt 200)) + 14) = Some (Inr r, n) \<and> rs_body r = ''ab'' @ [CHR 0x00]"
proof -
  let ?h = "head_text (chunked_head ex_fmt 200)" let ?b = "[''4'', ''a'', ''b'', ''0'']"
  obtain p n where st: "0 < n" "fold response_line (chunked_head ex_fmt 200 @ [[]]) response_parse_init =
    response_parse_init\<lparr>sp_status := 200, sp_headers := [(''Transfer-Encoding'', ''chunked'')], sp_lineNo := n, sp_crlfCounter := 2,
      sp_protocolLength := p, sp_transferEncodingSet := True, sp_chunkedTransfer := True, sp_chunkedStatus := Chunk_LENGTH\<rparr>"
    using chunked_head_state [OF ex_fmt_notation, of 200] by auto
  have b: "with_CRLF [''4'', ''a'' @ CRLF @ ''b'', ''0'', []] = head_text ?b" "length (head_text ?b) = 14"
    by (simp_all add: head_text_def CRLF_def)
  let ?s = "response_parse_init\<lparr>sp_status := 200, sp_headers := [(''Transfer-Encoding'', ''chunked'')], sp_lineNo := n,
    sp_crlfCounter := 2, sp_protocolLength := p, sp_transferEncodingSet := True, sp_chunkedTransfer := True,
    sp_chunkedStatus := Chunk_LENGTH\<rparr>"
  have "list_all plain_line ?b" by (simp add: plain_line_def)
  then have "response_state (?h @ head_text ?b) (length ?h + 14) = fold response_line (?b @ [[]]) ?s"
    using two_heads [OF chunked_head_plain [OF ex_fmt_notation, of 200], of ?b "[]"] st(2) b(2) by (simp add: response_state_def)
  moreover have "\<exists>p n. fold response_line (?b @ [[]]) ?s = ?s\<lparr>sp_body := ''ab'' @ [CHR 0x00], sp_protocolLength := p, sp_lineNo := n,
      sp_chunkLength := 0, sp_chunkedStatus := Chunk_DONE\<rparr>"
    using st(1) by (simp add: response_line_def response_parse_init_def chunk_length_line_def chunk_content_line_def SafeHexToUint_def
      digittoval_def Let_def)
  ultimately show ?thesis
    unfolding b(1) by (auto simp: parseResponse_def Let_def parsed_response_def response_parse_init_def)
qed

section \<open>A buffer that is too large\<close>

text \<open>
  C35. After a response that is too large the client is out of step. The request that waited is told about the
  overflow, but its event stays in the queue; the response to the next request is given to this dead event,
  the next request waits on, and stopping the service terminates the program.
\<close>

theorem overflow_shifts_responses:
  assumes "decimal_notation fmt_u64" and "plain_response r" and "length (format_response fmt_u64 r) \<le> response_buffer_limit"
    and "hc_events s = [(e1, False)]" and "length (hc_buffer s @ big) > response_buffer_limit"
  shows "\<exists>s1 s2. client_receive (\<lambda>_ _. []) big s = Some s1 \<and>
    client_receive (\<lambda>_ _. []) (format_response fmt_u64 r) (s1\<lparr>hc_events := hc_events s1 @ [(e2, False)]\<rparr>) = Some s2 \<and>
    hc_delivered s2 = hc_delivered s @ [(e1, Inl PE_BUFFEROVERFLOW)] \<and> hc_events s2 = [(e2, False)] \<and> client_stop s2 = None"
proof -
  let ?s1 = "s\<lparr>hc_buffer := [], hc_events := [(e1, True)], hc_delivered := hc_delivered s @ [(e1, Inl PE_BUFFEROVERFLOW)]\<rparr>"
  let ?s = "?s1\<lparr>hc_events := hc_events ?s1 @ [(e2, False)]\<rparr>" let ?t = "format_response fmt_u64 r"
  have over: "client_receive (\<lambda>_ _. []) big s = Some ?s1"
    using assms(4,5) by (cases s) (simp add: client_receive_def Let_def unset_def)
  have "length (?t @ []) < 2 ^ 64" using assms(3) by (simp add: response_buffer_limit_def)
  then have "response_loop (\<lambda>_ _. []) ?t 0 (?s\<lparr>hc_buffer := ?t\<rparr>) =
      response_loop (\<lambda>_ _. []) [] 0 (set_front (\<lambda>_ _. []) (Inr (response_of fmt_u64 r)) (?s\<lparr>hc_buffer := ?t\<rparr>))"
    using response_one [OF assms(1,2), of "[]"] by simp
  also have "\<dots> = Some ([], ?s\<lparr>hc_buffer := ?t, hc_events := [(e2, False)]\<rparr>)"
    by (subst response_loop.simps) (simp add: set_front_def)
  finally have "client_receive (\<lambda>_ _. []) ?t ?s = Some (?s\<lparr>hc_events := [(e2, False)]\<rparr>)"
    using assms(3) by (simp add: client_receive_def Let_def)
  then show ?thesis
    using over by (intro exI [of _ ?s1] exI [of _ "?s\<lparr>hc_events := [(e2, False)]\<rparr>"]) (simp add: client_stop_def)
qed

theorem overflow_shifts_responses_witness:
  "\<exists>big s1 s2. client_receive (\<lambda>_ _. []) big (ex_client [] [(11, False)]) = Some s1 \<and>
     client_receive (\<lambda>_ _. []) (format_response ex_fmt (ex_response ''hi'')) (s1\<lparr>hc_events := hc_events s1 @ [(12, False)]\<rparr>) = Some s2 \<and>
     hc_delivered s2 = [(11, Inl PE_BUFFEROVERFLOW)] \<and> client_stop s2 = None"
proof -
  let ?s = "ex_client [] [(11, False)]" let ?big = "replicate (response_buffer_limit + 1) CHR ''x''"
  have "length (format_response ex_fmt (ex_response ''hi'')) \<le> response_buffer_limit"
    using ex_response_length by (simp add: response_buffer_limit_def)
  moreover have "plain_response (ex_response ''hi'')"
    by (simp add: plain_response_def plain_response_headers_def plain_headers_def plain_header_def type_header_def dm_ok_def ex_response_def)
  moreover have "length (hc_buffer ?s @ ?big) > response_buffer_limit" "hc_events ?s = [(11, False)]" "hc_delivered ?s = []"
    by (simp_all add: ex_client_def)
  ultimately show ?thesis
    using overflow_shifts_responses [OF ex_fmt_notation, of "ex_response ''hi''" ?s 11 ?big 12]
    by (intro exI [of _ ?big]) auto
qed

end
