(* ===== verification/Async_Events.thy ===== *)
theory Async_Events
  imports Ichor_Prelude "HOL-Library.Word"
begin

text \<open>
  The primitives with which coroutines wait for each other: \<^verbatim>\<open>AsyncManualResetEvent\<close>,
  \<^verbatim>\<open>AsyncReturningManualResetEvent\<close>, \<^verbatim>\<open>AsyncAutoResetEvent\<close> and \<^verbatim>\<open>AsyncSingleThreadedMutex\<close>.

  A suspended coroutine is a number; a list of operations linked through their \<^verbatim>\<open>next\<close> pointers is the list
  of the coroutines, from its head on. All operations run on one thread, so an atomic operation is a plain
  one and every compare-exchange succeeds. \<open>None\<close> is a failed assertion, undefined behaviour, or a call that
  does not return.
\<close>

unbundle bit_operations_syntax

type_synonym coroutine = nat

section \<open>Manual reset events\<close>

datatype manual_event = Is_Set | Not_Set "coroutine list"

definition mre_init :: "bool \<Rightarrow> manual_event" where
  "mre_init initiallySet = (if initiallySet then Is_Set else Not_Set [])"

definition mre_is_set :: "manual_event \<Rightarrow> bool" where
  "mre_is_set e \<longleftrightarrow> e = Is_Set"

text \<open>Awaiting: whether the coroutine continues at once, and the event.\<close>

fun mre_await :: "coroutine \<Rightarrow> manual_event \<Rightarrow> bool \<times> manual_event" where
  "mre_await c Is_Set = (True, Is_Set)"
| "mre_await c (Not_Set waiters) = (False, Not_Set (c # waiters))"

text \<open>Setting: the coroutines that are resumed, in this order, and the event.\<close>

fun mre_set :: "manual_event \<Rightarrow> coroutine list \<times> manual_event" where
  "mre_set Is_Set = ([], Is_Set)"
| "mre_set (Not_Set waiters) = (waiters, Is_Set)"

fun mre_reset :: "manual_event \<Rightarrow> manual_event" where
  "mre_reset Is_Set = Not_Set []"
| "mre_reset (Not_Set waiters) = Not_Set waiters"

text \<open>The event that hands over a value. Reading the value of an event without one is undefined.\<close>

record 'v returning_event =
  re_event :: manual_event
  re_ret :: "'v option"

definition rmre_await :: "coroutine \<Rightarrow> 'v returning_event \<Rightarrow> bool \<times> 'v returning_event" where
  "rmre_await c e = (case mre_await c (re_event e) of (ready, ev) \<Rightarrow> (ready, e\<lparr>re_event := ev\<rparr>))"

definition rmre_await_resume :: "'v returning_event \<Rightarrow> 'v option" where
  "rmre_await_resume e = re_ret e"

definition rmre_set :: "'v \<Rightarrow> 'v returning_event \<Rightarrow> coroutine list \<times> 'v returning_event" where
  "rmre_set t e = (case mre_set (re_event e) of (resumed, ev) \<Rightarrow> (resumed, e\<lparr>re_event := ev, re_ret := Some t\<rparr>))"

definition rmre_reset :: "'v returning_event \<Rightarrow> 'v returning_event" where
  "rmre_reset e = e\<lparr>re_event := mre_reset (re_event e), re_ret := None\<rparr>"

section \<open>Auto reset events\<close>

record auto_event =
  ae_state :: "64 word"
  ae_newWaiters :: "coroutine list"
  ae_waiters :: "coroutine list"

definition set_increment :: "64 word" where
  "set_increment = 1"

definition waiter_increment :: "64 word" where
  "waiter_increment = push_bit 32 1"

definition get_set_count :: "64 word \<Rightarrow> 32 word" where
  "get_set_count state = ucast state"

definition get_waiter_count :: "64 word \<Rightarrow> 32 word" where
  "get_waiter_count state = ucast (drop_bit 32 state)"

definition get_resumable_waiter_count :: "64 word \<Rightarrow> 32 word" where
  "get_resumable_waiter_count state = min (get_set_count state) (get_waiter_count state)"

definition ae_init :: "bool \<Rightarrow> auto_event" where
  "ae_init initiallySet = \<lparr>ae_state = (if initiallySet then set_increment else 0), ae_newWaiters = [], ae_waiters = []\<rparr>"

text \<open>
  Taking waiters off the lists: when the list in order is empty, the new waiters are reversed into it.
\<close>

fun dequeue :: "nat \<Rightarrow> auto_event \<Rightarrow> (coroutine list \<times> auto_event) option" where
  "dequeue 0 e = Some ([], e)"
| "dequeue (Suc n) e =
     (let e1 = (if ae_waiters e = [] then e\<lparr>ae_waiters := rev (ae_newWaiters e), ae_newWaiters := []\<rparr> else e)
      in case ae_waiters e1 of
           [] \<Rightarrow> None
         | w # ws \<Rightarrow> (case dequeue n (e1\<lparr>ae_waiters := ws\<rparr>) of None \<Rightarrow> None | Some (rs, e2) \<Rightarrow> Some (w # rs, e2)))"

text \<open>The loop of \<^verbatim>\<open>resume_waiters\<close> up to the point where the coroutines in the list are resumed.\<close>

partial_function (option) resume_loop :: "32 word \<Rightarrow> coroutine list \<Rightarrow> auto_event \<Rightarrow> (coroutine list \<times> auto_event) option" where
  "resume_loop waiterCountToResume resumed e =
     Option.bind (dequeue (unat waiterCountToResume) e)
       (\<lambda>(rs, e1).
          let delta = (ucast waiterCountToResume :: 64 word) OR push_bit 32 (ucast waiterCountToResume);
              newState = ae_state e1 - delta;
              e2 = e1\<lparr>ae_state := newState\<rparr>;
              next = get_resumable_waiter_count newState
          in if next > 0 then resume_loop next (resumed @ rs) e2 else Some (resumed @ rs, e2))"

definition resume_waiters :: "64 word \<Rightarrow> auto_event \<Rightarrow> (coroutine list \<times> auto_event) option" where
  "resume_waiters initialState e =
     (if get_resumable_waiter_count initialState = 0 then None
      else resume_loop (get_resumable_waiter_count initialState) [] e)"

definition ae_set :: "auto_event \<Rightarrow> (coroutine list \<times> auto_event) option" where
  "ae_set e =
     (let oldState = ae_state e
      in if get_set_count oldState > get_waiter_count oldState then Some ([], e)
         else let e1 = e\<lparr>ae_state := oldState + set_increment\<rparr>
              in if oldState \<noteq> 0 \<and> get_set_count oldState = 0 then resume_waiters (oldState + set_increment) e1
                 else Some ([], e1))"

definition ae_reset :: "auto_event \<Rightarrow> auto_event" where
  "ae_reset e =
     (if get_set_count (ae_state e) > get_waiter_count (ae_state e) then e\<lparr>ae_state := ae_state e - set_increment\<rparr> else e)"

text \<open>
  Awaiting: whether the coroutine continues at once, the other coroutines that are resumed, and the event.
  A coroutine that finds itself among the resumed ones does not suspend.
\<close>

definition ae_await :: "coroutine \<Rightarrow> auto_event \<Rightarrow> (bool \<times> coroutine list \<times> auto_event) option" where
  "ae_await c e =
     (let oldState = ae_state e
      in if get_set_count oldState > get_waiter_count oldState
         then Some (True, [], e\<lparr>ae_state := oldState - set_increment\<rparr>)
         else let e1 = e\<lparr>ae_newWaiters := c # ae_newWaiters e, ae_state := oldState + waiter_increment\<rparr>
              in if oldState \<noteq> 0 \<and> get_waiter_count oldState = 0
                 then Option.bind (resume_waiters (oldState + waiter_increment) e1)
                        (\<lambda>(rs, e2). Some (c \<in> set rs, filter (\<lambda>r. r \<noteq> c) rs, e2))
                 else Some (False, [], e1))"

text \<open>
  \<^verbatim>\<open>set_all\<close> sets the event until it stays set. A resumed coroutine runs before the next round; \<open>again\<close> says
  whether it awaits the event once more then.
\<close>

fun await_again :: "(coroutine \<Rightarrow> bool) \<Rightarrow> coroutine list \<Rightarrow> auto_event \<Rightarrow> auto_event option" where
  "await_again again [] e = Some e"
| "await_again again (r # rs) e =
     (if again r then Option.bind (ae_await r e) (\<lambda>(_, _, e1). await_again again rs e1) else await_again again rs e)"

partial_function (option) ae_set_all ::
  "(coroutine \<Rightarrow> bool) \<Rightarrow> auto_event \<Rightarrow> (coroutine list \<times> auto_event) option" where
  "ae_set_all again e =
     (if get_set_count (ae_state e) > get_waiter_count (ae_state e) then Some ([], e)
      else Option.bind (ae_set e) (\<lambda>(rs, e1). Option.bind (await_again again rs e1)
             (\<lambda>e2. Option.bind (ae_set_all again e2) (\<lambda>(rs', e3). Some (rs @ rs', e3)))))"

section \<open>The mutex\<close>

text \<open>
  An event of the queue is the list of the coroutines that await it. \<open>am_ready\<close> are the coroutines that the
  running \<^verbatim>\<open>set\<close> is about to resume, \<open>am_holders\<close> those that hold a lock guard.
\<close>

record async_mutex =
  am_locked :: bool
  am_evts :: "coroutine list list"
  am_ready :: "coroutine list"
  am_holders :: "coroutine list"

definition am_init :: async_mutex where
  "am_init = \<lparr>am_locked = False, am_evts = [], am_ready = [], am_holders = []\<rparr>"

definition am_acquire :: "coroutine \<Rightarrow> async_mutex \<Rightarrow> async_mutex" where
  "am_acquire c m = m\<lparr>am_locked := True, am_holders := c # am_holders m\<rparr>"

definition am_lock :: "coroutine \<Rightarrow> async_mutex \<Rightarrow> async_mutex" where
  "am_lock c m =
     (if am_locked m
      then (let evts = am_evts m @ [[]] in m\<lparr>am_evts := (c # hd evts) # tl evts\<rparr>)
      else am_acquire c m)"

definition non_blocking_lock :: "coroutine \<Rightarrow> async_mutex \<Rightarrow> bool \<times> async_mutex" where
  "non_blocking_lock c m = (if am_locked m then (False, m) else (True, am_acquire c m))"

definition am_unlock :: "coroutine \<Rightarrow> async_mutex \<Rightarrow> async_mutex" where
  "am_unlock c m =
     (let m1 = m\<lparr>am_holders := remove1 c (am_holders m)\<rparr>
      in case am_evts m1 of
           [] \<Rightarrow> m1\<lparr>am_locked := False\<rparr>
         | evt # evts \<Rightarrow> m1\<lparr>am_evts := evts, am_ready := evt @ am_ready m1\<rparr>)"

definition am_resume :: "async_mutex \<Rightarrow> async_mutex" where
  "am_resume m = (case am_ready m of [] \<Rightarrow> m | c # rest \<Rightarrow> am_acquire c (m\<lparr>am_ready := rest\<rparr>))"

text \<open>
  The steps of coroutines that use the mutex. \<open>waits\<close> says how many coroutines may wait for it at a time.
\<close>

inductive mutex_step :: "nat \<Rightarrow> async_mutex \<Rightarrow> async_mutex \<Rightarrow> bool" for waits :: nat where
  lock: "am_locked m \<Longrightarrow> length (concat (am_evts m)) < waits \<Longrightarrow> mutex_step waits m (am_lock c m)"
| lock_free: "\<not> am_locked m \<Longrightarrow> mutex_step waits m (am_lock c m)"
| try_lock: "mutex_step waits m (snd (non_blocking_lock c m))"
| unlock: "c \<in> set (am_holders m) \<Longrightarrow> mutex_step waits m (am_unlock c m)"
| resume: "am_ready m \<noteq> [] \<Longrightarrow> mutex_step waits m (am_resume m)"

inductive mutex_reachable :: "nat \<Rightarrow> async_mutex \<Rightarrow> bool" for waits :: nat where
  init: "mutex_reachable waits am_init"
| step: "mutex_reachable waits m \<Longrightarrow> mutex_step waits m m' \<Longrightarrow> mutex_reachable waits m'"

section \<open>Mutual exclusion\<close>

definition mutex_ok :: "async_mutex \<Rightarrow> bool" where
  "mutex_ok m \<longleftrightarrow> length (am_holders m @ am_ready m) \<le> 1 \<and> (am_locked m \<longleftrightarrow> am_holders m @ am_ready m \<noteq> []) \<and>
     (am_evts m = [] \<or> (\<exists>c. am_evts m = [[c]]) \<and> am_locked m)"

lemma mutex_ok_step: "mutex_step 1 m m' \<Longrightarrow> mutex_ok m \<Longrightarrow> mutex_ok m'"
proof (induction rule: mutex_step.induct)
  case (lock m c)
  then show ?case by (auto simp: mutex_ok_def am_lock_def)
next
  case (lock_free m c)
  then show ?case by (auto simp: mutex_ok_def am_lock_def am_acquire_def)
next
  case (try_lock m c)
  then show ?case by (auto simp: mutex_ok_def non_blocking_lock_def am_acquire_def)
next
  case (unlock c m)
  then have "am_holders m = [c]" "am_ready m = []" by (cases "am_holders m"; auto simp: mutex_ok_def)+
  then show ?case using unlock.prems by (auto simp: mutex_ok_def am_unlock_def)
next
  case (resume m)
  then obtain c where "am_ready m = [c]" "am_holders m = []" by (cases "am_ready m"; auto simp: mutex_ok_def)
  then show ?case using resume.prems by (auto simp: mutex_ok_def am_resume_def am_acquire_def)
qed

lemma mutex_ok_reachable: "mutex_reachable 1 m \<Longrightarrow> mutex_ok m"
proof (induction rule: mutex_reachable.induct)
  case init
  show ?case by (simp add: mutex_ok_def am_init_def)
qed (rule mutex_ok_step)

text \<open>
  C30. As long as never more than one coroutine waits for the mutex at a time, at most one coroutine holds it,
  and it is marked as locked exactly while a coroutine holds it or is about to.
\<close>

theorem mutex_exclusion_one_waiter:
  assumes "mutex_reachable 1 m"
  shows "length (am_holders m) \<le> 1 \<and> (am_locked m \<longleftrightarrow> am_holders m \<noteq> [] \<or> am_ready m \<noteq> [])"
  using mutex_ok_reachable [OF assms] by (auto simp: mutex_ok_def)

lemmas mutex_eval = am_init_def am_lock_def am_unlock_def am_resume_def am_acquire_def

lemma ex_handover: "mutex_reachable 1 (am_resume (am_unlock 1 (am_lock 2 (am_lock 1 am_init))))"
proof -
  have "mutex_reachable 1 (am_lock 1 am_init)" by (intro mutex_reachable.step [OF mutex_reachable.init] lock_free) (simp add: am_init_def)
  then have "mutex_reachable 1 (am_lock 2 (am_lock 1 am_init))" by (rule mutex_reachable.step) (rule lock, simp_all add: mutex_eval)
  then have "mutex_reachable 1 (am_unlock 1 (am_lock 2 (am_lock 1 am_init)))" by (rule mutex_reachable.step) (rule unlock, simp add: mutex_eval)
  then show ?thesis by (rule mutex_reachable.step) (rule resume, simp add: mutex_eval)
qed

theorem mutex_exclusion_one_waiter_witness: "length (am_holders (am_resume (am_unlock 1 (am_lock 2 (am_lock 1 am_init))))) \<le> 1"
  using mutex_exclusion_one_waiter [OF ex_handover] by blast

text \<open>
  C36. With two coroutines waiting, the mutex does not exclude. The second one to wait pushes an event of its
  own but awaits the event at the front of the queue, the one of the first; unlocking sets this event and
  resumes both, and both hold the mutex at the same time. The event of the second one stays in the queue,
  so that a later unlock hands the mutex to nobody.
\<close>

theorem mutex_two_holders:
  "\<exists>m. mutex_reachable 2 m \<and> am_holders m = [2, 3] \<and> am_evts m = [[]]"
proof -
  have "mutex_reachable 2 (am_lock 1 am_init)" by (intro mutex_reachable.step [OF mutex_reachable.init] lock_free) (simp add: am_init_def)
  then have "mutex_reachable 2 (am_lock 2 (am_lock 1 am_init))" by (rule mutex_reachable.step) (rule lock, simp_all add: mutex_eval)
  then have "mutex_reachable 2 (am_lock 3 (am_lock 2 (am_lock 1 am_init)))" by (rule mutex_reachable.step) (rule lock, simp_all add: mutex_eval)
  then have "mutex_reachable 2 (am_unlock 1 (am_lock 3 (am_lock 2 (am_lock 1 am_init))))"
    by (rule mutex_reachable.step) (rule unlock, simp add: mutex_eval)
  then have "mutex_reachable 2 (am_resume (am_unlock 1 (am_lock 3 (am_lock 2 (am_lock 1 am_init)))))"
    by (rule mutex_reachable.step) (rule resume, simp add: mutex_eval)
  then have "mutex_reachable 2 (am_resume (am_resume (am_unlock 1 (am_lock 3 (am_lock 2 (am_lock 1 am_init))))))"
    by (rule mutex_reachable.step) (rule resume, simp add: mutex_eval)
  moreover have "am_holders (am_resume (am_resume (am_unlock 1 (am_lock 3 (am_lock 2 (am_lock 1 am_init)))))) = [2, 3]"
    "am_evts (am_resume (am_resume (am_unlock 1 (am_lock 3 (am_lock 2 (am_lock 1 am_init)))))) = [[]]"
    by (simp_all add: mutex_eval)
  ultimately show ?thesis by blast
qed

section \<open>The counters of the auto reset event\<close>

definition counts :: "nat \<Rightarrow> nat \<Rightarrow> 64 word" where
  "counts b n = word_of_nat (b + n * 2 ^ 32)"

lemma counts_unat:
  assumes "b < 2 ^ 32" and "n < 2 ^ 32"
  shows "unat (counts b n) = b + n * 2 ^ 32"
proof -
  have "n * 2 ^ 32 \<le> (2 ^ 32 - 1) * 2 ^ 32" using assms(2) by (intro mult_le_mono1) simp
  then have "b + n * 2 ^ 32 < 2 ^ 64" using assms(1) by simp
  then show ?thesis unfolding counts_def unat_of_nat by (simp add: take_bit_nat_eq_self)
qed

lemma get_set_count_counts: "b < 2 ^ 32 \<Longrightarrow> n < 2 ^ 32 \<Longrightarrow> unat (get_set_count (counts b n)) = b"
  by (simp add: get_set_count_def unsigned_ucast_eq counts_unat take_bit_eq_mod)

lemma get_waiter_count_counts: "b < 2 ^ 32 \<Longrightarrow> n < 2 ^ 32 \<Longrightarrow> unat (get_waiter_count (counts b n)) = n"
  unfolding get_waiter_count_def unsigned_ucast_eq unat_drop_bit_eq counts_unat
  by (simp add: drop_bit_eq_div take_bit_eq_mod)

lemma counts_arith:
  "counts b n + set_increment = counts (b + 1) n" "counts (Suc b) n - set_increment = counts b n"
  "counts b n + waiter_increment = counts b (n + 1)" "counts (Suc b) (Suc n) - ((ucast (1 :: 32 word) :: 64 word) OR push_bit 32 (ucast (1 :: 32 word))) = counts b n"
  by (simp_all add: counts_def set_increment_def waiter_increment_def)

lemma counts_0: "b < 2 ^ 32 \<Longrightarrow> n < 2 ^ 32 \<Longrightarrow> counts b n = 0 \<longleftrightarrow> b = 0 \<and> n = 0"
  using counts_unat [of b n] by (auto simp: unat_eq_zero [symmetric])

section \<open>The auto reset event is a queue\<close>

text \<open>What the event promises: a flag and the coroutines that wait, the first one first.\<close>

datatype event_op = Await coroutine | Set | Set_All | Reset

fun queue_op :: "event_op \<Rightarrow> bool \<times> coroutine list \<Rightarrow> coroutine list \<times> (bool \<times> coroutine list)" where
  "queue_op (Await c) (is_set, q) = (if is_set then ([c], (False, q)) else ([], (False, q @ [c])))"
| "queue_op Set (is_set, q) = (case q of [] \<Rightarrow> ([], (True, [])) | c # q' \<Rightarrow> ([c], (is_set, q')))"
| "queue_op Set_All (is_set, q) = (q, (True, []))"
| "queue_op Reset (is_set, q) = ([], (False, q))"

text \<open>What the code does: the coroutines that continue or are resumed.\<close>

fun code_op :: "event_op \<Rightarrow> auto_event \<Rightarrow> (coroutine list \<times> auto_event) option" where
  "code_op (Await c) e = map_option (\<lambda>(continues, rs, e'). ((if continues then [c] else []) @ rs, e')) (ae_await c e)"
| "code_op Set e = ae_set e"
| "code_op Set_All e = ae_set_all (\<lambda>_. False) e"
| "code_op Reset e = Some ([], ae_reset e)"

definition event_rel :: "auto_event \<Rightarrow> bool \<times> coroutine list \<Rightarrow> bool" where
  "event_rel e a \<longleftrightarrow> (case a of (is_set, q) \<Rightarrow>
     q = ae_waiters e @ rev (ae_newWaiters e) \<and> (is_set \<longrightarrow> q = []) \<and> ae_state e = counts (of_bool is_set) (length q))"

lemma counts_compare:
  assumes "b < 2 ^ 32" and "n < 2 ^ 32"
  shows "get_set_count (counts b n) > get_waiter_count (counts b n) \<longleftrightarrow> b > n"
    and "get_set_count (counts b n) = 0 \<longleftrightarrow> b = 0" and "get_waiter_count (counts b n) = 0 \<longleftrightarrow> n = 0"
  using get_set_count_counts [OF assms] get_waiter_count_counts [OF assms]
  by (simp_all add: word_less_nat_alt unat_eq_zero [symmetric])

lemma resumable_counts:
  assumes "n < 2 ^ 32"
  shows "get_resumable_waiter_count (counts 0 n) = 0" and "get_resumable_waiter_count (counts 1 (Suc n)) = 1 \<or> \<not> Suc n < 2 ^ 32"
proof -
  have "get_set_count (counts 0 n) = 0" using counts_compare(2) [of 0 n] assms by simp
  then show "get_resumable_waiter_count (counts 0 n) = 0" by (simp add: get_resumable_waiter_count_def)
  show "get_resumable_waiter_count (counts 1 (Suc n)) = 1 \<or> \<not> Suc n < 2 ^ 32"
  proof (cases "Suc n < 2 ^ 32")
    case True
    have "unat (get_set_count (counts 1 (Suc n))) = 1" "unat (get_waiter_count (counts 1 (Suc n))) = Suc n"
      using get_set_count_counts [of 1 "Suc n"] get_waiter_count_counts [of 1 "Suc n"] True by simp_all
    then have "get_set_count (counts 1 (Suc n)) = 1" "get_set_count (counts 1 (Suc n)) \<le> get_waiter_count (counts 1 (Suc n))"
      by (simp_all add: word_le_nat_alt word_unat_eq_iff)
    then show ?thesis by (simp add: get_resumable_waiter_count_def)
  qed simp
qed

lemma set_empty: "event_rel e (s, []) \<Longrightarrow> \<exists>e'. ae_set e = Some ([], e') \<and> event_rel e' (True, [])"
  using counts_compare [of "of_bool s" 0]
  by (cases s) (auto simp: event_rel_def ae_set_def Let_def counts_arith counts_0)

lemma dequeue_one:
  assumes "c # q = ae_waiters e @ rev (ae_newWaiters e)"
  shows "\<exists>e2. dequeue 1 e = Some ([c], e2) \<and> q = ae_waiters e2 @ rev (ae_newWaiters e2) \<and> ae_state e2 = ae_state e"
proof (cases "ae_waiters e")
  case Nil
  then have "rev (ae_newWaiters e) = c # q" using assms by simp
  then have "dequeue 1 e = Some ([c], e\<lparr>ae_newWaiters := [], ae_waiters := q\<rparr>)" using Nil by (cases e) (simp add: Let_def)
  then show ?thesis by (intro exI [of _ "e\<lparr>ae_newWaiters := [], ae_waiters := q\<rparr>"]) simp
next
  case (Cons w ws)
  then have "dequeue 1 e = Some ([c], e\<lparr>ae_waiters := ws\<rparr>)" using assms by (simp add: Let_def)
  then show ?thesis using assms Cons by (intro exI [of _ "e\<lparr>ae_waiters := ws\<rparr>"]) simp
qed

lemma set_waiting:
  assumes "event_rel e (s, c # q)" and "length (c # q) < 2 ^ 32"
  shows "\<exists>e'. ae_set e = Some ([c], e') \<and> event_rel e' (s, q)"
proof -
  let ?n = "length q"
  have e: "c # q = ae_waiters e @ rev (ae_newWaiters e)" "ae_state e = counts 0 (Suc ?n)" "\<not> s" using assms(1) by (auto simp: event_rel_def)
  let ?e1 = "e\<lparr>ae_state := counts 1 (Suc ?n)\<rparr>"
  have "ae_set e = resume_waiters (counts 1 (Suc ?n)) ?e1"
    using assms(2) e(2) counts_compare [of 0 "Suc ?n"] counts_0 [of 0 "Suc ?n"] by (simp add: ae_set_def Let_def counts_arith)
  also have "\<dots> = resume_loop 1 [] ?e1"
    using resumable_counts(2) [of ?n] assms(2) by (simp add: resume_waiters_def)
  finally have set: "ae_set e = resume_loop 1 [] ?e1" .
  have "c # q = ae_waiters ?e1 @ rev (ae_newWaiters ?e1)" using e(1) by simp
  from dequeue_one [OF this] obtain e2 where d: "dequeue 1 ?e1 = Some ([c], e2)" "q = ae_waiters e2 @ rev (ae_newWaiters e2)"
    "ae_state e2 = ae_state ?e1" by blast
  have "resume_loop 1 [] ?e1 = Some ([c], e2\<lparr>ae_state := counts 0 ?n\<rparr>)"
    using d(1,3) counts_arith(4) [of 0 ?n] resumable_counts(1) [of ?n] assms(2)
    by (subst resume_loop.simps) (simp del: dequeue.simps add: Let_def)
  then show ?thesis using set d(2) e(3) by (simp add: event_rel_def)
qed

lemma set_all_waiting:
  assumes "event_rel e (s, q)" and "length q < 2 ^ 32"
  shows "\<exists>e'. ae_set_all (\<lambda>_. False) e = Some (q, e') \<and> event_rel e' (True, [])"
  using assms
proof (induction q arbitrary: e s)
  case Nil
  have stays: "ae_set_all (\<lambda>_. False) e' = Some ([], e')" if "event_rel e' (True, [])" for e'
    using that counts_compare [of 1 0] by (subst ae_set_all.simps) (simp add: event_rel_def)
  show ?case
  proof (cases s)
    case True
    then show ?thesis using Nil stays [of e] by auto
  next
    case False
    obtain e' where e': "ae_set e = Some ([], e')" "event_rel e' (True, [])" using set_empty [OF Nil.prems(1)] by blast
    have "\<not> get_set_count (ae_state e) > get_waiter_count (ae_state e)"
      using Nil.prems(1) False counts_compare [of 0 0] by (simp add: event_rel_def)
    then show ?thesis using e' stays [OF e'(2)] by (subst ae_set_all.simps) simp
  qed
next
  case (Cons c q)
  obtain e1 where e1: "ae_set e = Some ([c], e1)" "event_rel e1 (s, q)" using set_waiting [OF Cons.prems] by blast
  obtain e' where e': "ae_set_all (\<lambda>_. False) e1 = Some (q, e')" "event_rel e' (True, [])" using Cons.IH [OF e1(2)] Cons.prems(2) by auto
  have "ae_state e = counts 0 (Suc (length q))" using Cons.prems(1) by (auto simp: event_rel_def)
  then have "\<not> get_set_count (ae_state e) > get_waiter_count (ae_state e)"
    using Cons.prems(2) counts_compare(1) [of 0 "Suc (length q)"] by simp
  then show ?case using e1 e' by (subst ae_set_all.simps) simp
qed

lemma await_op:
  assumes "event_rel e (s, q)" and "length q + 1 < 2 ^ 32"
  shows "\<exists>e'. code_op (Await c) e = Some (fst (queue_op (Await c) (s, q)), e') \<and> event_rel e' (snd (queue_op (Await c) (s, q)))"
proof (cases s)
  case True
  then have "q = []" "ae_state e = counts 1 0" "ae_waiters e @ rev (ae_newWaiters e) = []" using assms(1) by (auto simp: event_rel_def)
  then show ?thesis using True counts_compare [of 1 0] counts_arith(2) [of 0 0] by (simp add: ae_await_def event_rel_def)
next
  case False
  have e: "q = ae_waiters e @ rev (ae_newWaiters e)" "ae_state e = counts 0 (length q)" using assms(1) False by (auto simp: event_rel_def)
  then show ?thesis
    using False assms(2) counts_compare [of 0 "length q"] counts_0 [of 0 "length q"] counts_arith(3) [of 0 "length q"]
    by (auto simp: ae_await_def Let_def event_rel_def)
qed

lemma reset_op:
  assumes "event_rel e (s, q)" and "length q < 2 ^ 32"
  shows "event_rel (ae_reset e) (False, q)"
  using assms counts_compare [of "of_bool s" "length q"] counts_arith(2) [of 0 0]
  by (cases s) (auto simp: event_rel_def ae_reset_def)

lemma op_refines:
  assumes "event_rel e (s, q)" and "length q + 1 < 2 ^ 32"
  shows "\<exists>e'. code_op op e = Some (fst (queue_op op (s, q)), e') \<and> event_rel e' (snd (queue_op op (s, q)))"
proof (cases op)
  case (Await c)
  then show ?thesis using await_op [OF assms] by simp
next
  case Set
  then show ?thesis using set_empty [of e s] set_waiting [of e s] assms by (cases q) auto
next
  case Set_All
  then show ?thesis using set_all_waiting [of e s q] assms by auto
next
  case Reset
  then show ?thesis using reset_op [of e s q] assms by simp
qed

fun code_run :: "event_op list \<Rightarrow> auto_event \<Rightarrow> coroutine list list option" where
  "code_run [] e = Some []"
| "code_run (op # ops) e = Option.bind (code_op op e) (\<lambda>(rs, e'). map_option ((#) rs) (code_run ops e'))"

fun queue_run :: "event_op list \<Rightarrow> bool \<times> coroutine list \<Rightarrow> coroutine list list" where
  "queue_run [] a = []"
| "queue_run (op # ops) a = (case queue_op op a of (rs, a') \<Rightarrow> rs # queue_run ops a')"

lemma queue_op_length: "length (snd (snd (queue_op op (s, q)))) \<le> length q + 1"
  by (cases op) (auto split: list.splits)

lemma run_queue:
  assumes "event_rel e (s, q)" and "length q + length ops < 2 ^ 32"
  shows "code_run ops e = Some (queue_run ops (s, q))"
  using assms
proof (induction ops arbitrary: e s q)
  case (Cons op ops)
  obtain rs s' q' where a: "queue_op op (s, q) = (rs, (s', q'))" by (metis prod.exhaust)
  obtain e' where e': "code_op op e = Some (rs, e')" "event_rel e' (s', q')" using op_refines [OF Cons.prems(1), of op] Cons.prems(2) a by auto
  have "length q' \<le> length q + 1" using queue_op_length [of op s q] a by simp
  then show ?case using Cons.IH [OF e'(2)] Cons.prems(2) e'(1) a by simp
qed simp

text \<open>
  C27. An auto reset event is a flag and a fair queue. For every sequence of awaits, sets, set-alls and resets,
  shorter than the counters can hold, the code resumes exactly the coroutines that a queue would: an await
  of a set event continues and resets it, a set resumes the coroutine that has waited longest or, when
  there is none, sets the event, and a set-all resumes all of them in the order in which they came. The bit
  fields, the two lists of waiters and the loop that resumes them never fail an assertion.
\<close>

theorem auto_event_is_fair_queue:
  assumes "length ops < 2 ^ 32"
  shows "code_run ops (ae_init b) = Some (queue_run ops (b, []))"
  using assms by (intro run_queue) (auto simp: event_rel_def ae_init_def counts_def set_increment_def)

theorem auto_event_is_fair_queue_witness:
  "code_run [Await 1, Await 2, Set, Set_All, Await 3] (ae_init False) = Some [[], [], [1], [2], [3]]"
  using auto_event_is_fair_queue [of "[Await 1, Await 2, Set, Set_All, Await 3]" False] by simp

section \<open>Setting all, with coroutines that wait again\<close>

text \<open>
  When a coroutine that waits for the event awaits it again as soon as it is resumed, as a coroutine with a
  loop around its \<^verbatim>\<open>co_await\<close> does, \<^verbatim>\<open>set_all\<close> does not return.
\<close>

lemma set_all_waits_again:
  "ae_set_all again e = Some r \<Longrightarrow> \<not> (again c \<and> event_rel e (False, [c]))"
proof (erule ae_set_all.raw_induct [rotated])
  fix f :: "(coroutine \<Rightarrow> bool) \<Rightarrow> auto_event \<Rightarrow> (coroutine list \<times> auto_event) option" and again e r
  assume IH: "\<And>again e r. f again e = Some r \<Longrightarrow> \<not> (again c \<and> event_rel e (False, [c]))"
    and run: "(if get_set_count (ae_state e) > get_waiter_count (ae_state e) then Some ([], e)
      else Option.bind (ae_set e) (\<lambda>(rs, e1). Option.bind (await_again again rs e1)
             (\<lambda>e2. Option.bind (f again e2) (\<lambda>(rs', e3). Some (rs @ rs', e3))))) = Some r"
  show "\<not> (again c \<and> event_rel e (False, [c]))"
  proof
    assume again: "again c \<and> event_rel e (False, [c])"
    obtain e1 where e1: "ae_set e = Some ([c], e1)" "event_rel e1 (False, [])" using set_waiting [of e False c "[]"] again by auto
    obtain e2 where "code_op (Await c) e1 = Some ([], e2)" and e2: "event_rel e2 (False, [c])" using await_op [OF e1(2), of c] by auto
    then obtain b rs where "ae_await c e1 = Some (b, rs, e2)" by auto
    then have "await_again again [c] e1 = Some e2" using again by simp
    moreover have "\<not> get_set_count (ae_state e) > get_waiter_count (ae_state e)"
      using again counts_compare(1) [of 0 1] by (simp add: event_rel_def)
    ultimately obtain r' where "f again e2 = Some r'" using run e1 by (auto simp: bind_eq_Some_conv)
    then show False using IH again e2 by blast
  qed
qed

end
