(* ===== verification/Timers.thy ===== *)
theory Timers
  imports Async_Events
begin

text \<open>
  Timers: \<^verbatim>\<open>src/src/services/timer/Timer.cpp\<close>, the factory of
  \<^verbatim>\<open>src/include/ichor/services/timer/TemplatedTimerFactory.h\<close> and the factory of factories in
  \<^verbatim>\<open>src/src/services/timer/TimerFactoryFactory.cpp\<close>.

  A timer has a thread of its own that pushes an event whenever its interval has passed. The steps of this
  thread and the calls of the other threads interleave; each of them holds the mutex of the timer, so each
  is one step, except that the thread gives the mutex up while it sleeps. Time is a number of nanoseconds
  that the clock supplies. Joining a thread is possible only when the thread has ended; starting a timer,
  which joins the thread of the last start, is one step that happens then.
  \<open>None\<close> is \<^verbatim>\<open>std::terminate\<close>, undefined behaviour, or a loop that does not end.
\<close>

section \<open>A timer\<close>

datatype TimerState = TIMER_STOPPED | TIMER_STARTING | TIMER_RUNNING | TIMER_STOPPING

datatype timer_callback = No_Callback | Sync_Callback nat | Async_Callback nat

text \<open>Where the thread is: not created, created, asleep, behind the loop with the scope guard left to run, ended.\<close>

datatype timer_thread = No_Thread | Entered bool | Sleeping | Leaving | Ended

datatype timer_push = Push_Callback timer_callback nat | Push_Quit "nat list" nat

record timer =
  tm_id :: nat
  tm_state :: TimerState
  tm_fireOnce :: bool
  tm_interval :: nat
  tm_callback :: timer_callback
  tm_priority :: nat
  tm_quitCbs :: "nat list"
  tm_thread :: timer_thread
  tm_next :: nat
  tm_pushed :: "timer_push list"

definition new_timer :: "nat \<Rightarrow> timer" where
  "new_timer i =
     \<lparr>tm_id = i, tm_state = TIMER_STOPPED, tm_fireOnce = False, tm_interval = 1000000000, tm_callback = No_Callback,
      tm_priority = 1000, tm_quitCbs = [], tm_thread = No_Thread, tm_next = 0, tm_pushed = []\<rparr>"

definition joinable :: "timer \<Rightarrow> bool" where
  "joinable t \<longleftrightarrow> tm_thread t = No_Thread \<or> tm_thread t = Ended"

text \<open>
  \<open>None\<close> inside the result of \<open>startTimer\<close> means that the call waits for the thread of the last start.
\<close>

definition startTimer :: "bool \<Rightarrow> timer \<Rightarrow> (bool \<times> timer) option option" where
  "startTimer fireImmediately t =
     (if tm_callback t = No_Callback then None
      else if tm_state t = TIMER_STOPPED \<or> tm_state t = TIMER_STOPPING
      then Some (if joinable t
                 then Some (True, t\<lparr>tm_state := TIMER_STARTING, tm_thread := Entered fireImmediately, tm_quitCbs := []\<rparr>)
                 else None)
      else Some (Some (False, t)))"

text \<open>\<open>stopTimer\<close>: the result, and whether the callback has been called at once.\<close>

definition stopTimer :: "nat option \<Rightarrow> timer \<Rightarrow> bool \<times> bool \<times> timer" where
  "stopTimer cb t =
     (if tm_state t = TIMER_RUNNING \<or> tm_state t = TIMER_STOPPING
      then (True, False, t\<lparr>tm_quitCbs := tm_quitCbs t @ (case cb of None \<Rightarrow> [] | Some c \<Rightarrow> [c]), tm_state := TIMER_STOPPING\<rparr>)
      else (False, cb \<noteq> None, t))"

definition setTimerCallback :: "timer_callback \<Rightarrow> timer \<Rightarrow> timer option" where
  "setTimerCallback fn t = (if tm_state t \<noteq> TIMER_STOPPED then None else Some (t\<lparr>tm_callback := fn\<rparr>))"

definition setInterval :: "nat \<Rightarrow> timer \<Rightarrow> timer" where
  "setInterval nanoseconds t = t\<lparr>tm_interval := nanoseconds\<rparr>"

definition setFireOnce :: "bool \<Rightarrow> timer \<Rightarrow> timer" where
  "setFireOnce b t = t\<lparr>tm_fireOnce := b\<rparr>"

definition setTimerPriority :: "nat \<Rightarrow> timer \<Rightarrow> timer" where
  "setTimerPriority p t = t\<lparr>tm_priority := p\<rparr>"

text \<open>The destructor up to the join.\<close>

definition destroyTimer :: "timer \<Rightarrow> timer" where
  "destroyTimer t = (if tm_state t = TIMER_RUNNING then t\<lparr>tm_state := TIMER_STOPPING\<rparr> else t)"

section \<open>The thread of a timer\<close>

text \<open>
  The outer loop, from its condition on, until the thread sleeps or leaves. The mutex is held and the clock
  is not read, so \<open>now\<close> stays the same. The loop does not end when the interval is zero.
\<close>

partial_function (option) fire_loop :: "nat \<Rightarrow> timer \<Rightarrow> timer option" where
  "fire_loop now t =
     (if tm_state t \<noteq> TIMER_RUNNING then Some (t\<lparr>tm_thread := Leaving\<rparr>)
      else if now < tm_next t then Some (t\<lparr>tm_thread := Sleeping\<rparr>)
      else let t1 = t\<lparr>tm_pushed := tm_pushed t @ [Push_Callback (tm_callback t) (tm_priority t)]\<rparr>
           in if tm_fireOnce t1 then Some (t1\<lparr>tm_state := TIMER_STOPPING, tm_thread := Leaving\<rparr>)
              else fire_loop now (t1\<lparr>tm_next := tm_next t1 + tm_interval t1\<rparr>))"

definition thread_enter :: "nat \<Rightarrow> bool \<Rightarrow> timer \<Rightarrow> timer option" where
  "thread_enter now fireImmediately t =
     (let t1 = t\<lparr>tm_next := (if fireImmediately then now else now + tm_interval t)\<rparr>
      in if tm_state t1 \<noteq> TIMER_STARTING then Some (t1\<lparr>tm_thread := Leaving\<rparr>)
         else fire_loop now (t1\<lparr>tm_state := TIMER_RUNNING\<rparr>))"

definition thread_wake :: "nat \<Rightarrow> timer \<Rightarrow> timer option" where
  "thread_wake now t =
     (if tm_state t \<noteq> TIMER_RUNNING then Some (t\<lparr>tm_thread := Leaving\<rparr>) else fire_loop now t)"

definition thread_leave :: "timer \<Rightarrow> timer" where
  "thread_leave t =
     t\<lparr>tm_pushed := tm_pushed t @ [Push_Quit (tm_quitCbs t) (tm_priority t)], tm_state := TIMER_STOPPED, tm_quitCbs := [],
       tm_thread := Ended\<rparr>"

inductive thread_step :: "timer \<Rightarrow> timer \<Rightarrow> bool" where
  enter: "tm_thread t = Entered fi \<Longrightarrow> thread_enter now fi t = Some t' \<Longrightarrow> thread_step t t'"
| wake: "tm_thread t = Sleeping \<Longrightarrow> thread_wake now t = Some t' \<Longrightarrow> thread_step t t'"
| leave: "tm_thread t = Leaving \<Longrightarrow> thread_step t (thread_leave t)"

inductive timer_step :: "timer \<Rightarrow> timer \<Rightarrow> bool" where
  start: "startTimer fi t = Some (Some (r, t')) \<Longrightarrow> timer_step t t'"
| stop: "stopTimer cb t = (r, called, t') \<Longrightarrow> timer_step t t'"
| callback: "setTimerCallback fn t = Some t' \<Longrightarrow> timer_step t t'"
| interval: "timer_step t (setInterval n t)"
| fire_once: "timer_step t (setFireOnce b t)"
| priority: "timer_step t (setTimerPriority p t)"
| thread: "thread_step t t' \<Longrightarrow> timer_step t t'"

inductive timer_reachable :: "timer \<Rightarrow> bool" where
  new: "timer_reachable (new_timer i)"
| step: "timer_reachable t \<Longrightarrow> timer_step t t' \<Longrightarrow> timer_reachable t'"

section \<open>The state and the thread agree\<close>

fun timer_ok :: "timer \<Rightarrow> bool" where
  "timer_ok t =
     ((case tm_thread t of
         No_Thread \<Rightarrow> tm_state t = TIMER_STOPPED
       | Entered _ \<Rightarrow> tm_state t = TIMER_STARTING
       | Sleeping \<Rightarrow> tm_state t = TIMER_RUNNING \<or> tm_state t = TIMER_STOPPING
       | Leaving \<Rightarrow> tm_state t = TIMER_STOPPING
       | Ended \<Rightarrow> tm_state t = TIMER_STOPPED) \<and>
      (tm_quitCbs t \<noteq> [] \<longrightarrow> tm_state t = TIMER_STOPPING))"

declare timer_ok.simps [simp del]

lemma fire_loop_result:
  "fire_loop now t = Some t' \<Longrightarrow> tm_state t = TIMER_RUNNING \<longrightarrow>
     (tm_thread t' = Sleeping \<and> tm_state t' = TIMER_RUNNING \<or> tm_thread t' = Leaving \<and> tm_state t' = TIMER_STOPPING \<and> tm_fireOnce t) \<and>
     tm_quitCbs t' = tm_quitCbs t \<and> tm_callback t' = tm_callback t \<and> tm_fireOnce t' = tm_fireOnce t \<and> tm_interval t' = tm_interval t"
proof (erule fire_loop.raw_induct [rotated])
  fix f :: "nat \<Rightarrow> timer \<Rightarrow> timer option" and now t t'
  assume IH: "\<And>now t t'. f now t = Some t' \<Longrightarrow> tm_state t = TIMER_RUNNING \<longrightarrow>
     (tm_thread t' = Sleeping \<and> tm_state t' = TIMER_RUNNING \<or> tm_thread t' = Leaving \<and> tm_state t' = TIMER_STOPPING \<and> tm_fireOnce t) \<and>
     tm_quitCbs t' = tm_quitCbs t \<and> tm_callback t' = tm_callback t \<and> tm_fireOnce t' = tm_fireOnce t \<and> tm_interval t' = tm_interval t"
    and run: "(if tm_state t \<noteq> TIMER_RUNNING then Some (t\<lparr>tm_thread := Leaving\<rparr>)
      else if now < tm_next t then Some (t\<lparr>tm_thread := Sleeping\<rparr>)
      else let t1 = t\<lparr>tm_pushed := tm_pushed t @ [Push_Callback (tm_callback t) (tm_priority t)]\<rparr>
           in if tm_fireOnce t1 then Some (t1\<lparr>tm_state := TIMER_STOPPING, tm_thread := Leaving\<rparr>)
              else f now (t1\<lparr>tm_next := tm_next t1 + tm_interval t1\<rparr>)) = Some t'"
  show "tm_state t = TIMER_RUNNING \<longrightarrow>
     (tm_thread t' = Sleeping \<and> tm_state t' = TIMER_RUNNING \<or> tm_thread t' = Leaving \<and> tm_state t' = TIMER_STOPPING \<and> tm_fireOnce t) \<and>
     tm_quitCbs t' = tm_quitCbs t \<and> tm_callback t' = tm_callback t \<and> tm_fireOnce t' = tm_fireOnce t \<and> tm_interval t' = tm_interval t"
    using run IH by (auto simp: Let_def split: if_split_asm) (fastforce dest!: IH)+
qed

lemma thread_step_ok: "thread_step t t' \<Longrightarrow> timer_ok t \<Longrightarrow> timer_ok t'"
proof (induction rule: thread_step.induct)
  case (enter t fi now t')
  then have "tm_state t = TIMER_STARTING" "tm_quitCbs t = []" by (auto simp: timer_ok.simps)
  then show ?case
    using enter.hyps(2) fire_loop_result [of now "t\<lparr>tm_next := (if fi then now else now + tm_interval t), tm_state := TIMER_RUNNING\<rparr>" t']
    by (auto simp: thread_enter_def timer_ok.simps Let_def)
next
  case (wake t now t')
  then show ?case using fire_loop_result [of now t t'] by (auto simp: thread_wake_def timer_ok.simps split: if_split_asm)
next
  case (leave t)
  then show ?case by (simp add: thread_leave_def timer_ok.simps)
qed

lemma timer_step_ok: "timer_step t t' \<Longrightarrow> timer_ok t \<Longrightarrow> timer_ok t'"
proof (induction rule: timer_step.induct)
  case (start fi t r t')
  then show ?case by (auto simp: startTimer_def timer_ok.simps split: if_split_asm)
next
  case (stop cb t r called t')
  then show ?case by (auto simp: stopTimer_def timer_ok.simps split: if_split_asm timer_thread.splits)
next
  case (callback fn t t')
  then show ?case by (auto simp: setTimerCallback_def timer_ok.simps split: if_split_asm timer_thread.splits)
next
  case (thread t t')
  then show ?case using thread_step_ok by blast
qed (auto simp: timer_ok.simps setInterval_def setFireOnce_def setTimerPriority_def split: timer_thread.splits)

lemma timer_reachable_ok: "timer_reachable t \<Longrightarrow> timer_ok t"
proof (induction rule: timer_reachable.induct)
  case (new i)
  show ?case by (simp add: new_timer_def timer_ok.simps)
qed (rule timer_step_ok)

text \<open>
  C31. Stopping a timer completes. In every state a timer can reach, when \<^verbatim>\<open>stopTimer\<close> accepts a request, then the
  thread of the timer leaves its loop the next time it looks, whatever the clock says, pushes the event
  that runs the callback of the request, and the timer is stopped and can be joined. No further callback of
  the timer is pushed in between.
\<close>

theorem stopped_timer_ends:
  assumes "timer_reachable t" and "stopTimer (Some cb) t = (True, called, t')"
  shows "\<exists>t1. (if tm_thread t' = Leaving then t1 = t' else tm_thread t' = Sleeping \<and> thread_wake now t' = Some t1) \<and>
    tm_thread t1 = Leaving \<and> tm_state (thread_leave t1) = TIMER_STOPPED \<and> joinable (thread_leave t1) \<and>
    (\<exists>cbs. cb \<in> set cbs \<and> tm_pushed (thread_leave t1) = tm_pushed t @ [Push_Quit cbs (tm_priority t)])"
proof -
  have ok: "timer_ok t" by (rule timer_reachable_ok [OF assms(1)])
  have t': "t' = t\<lparr>tm_quitCbs := tm_quitCbs t @ [cb], tm_state := TIMER_STOPPING\<rparr>" "tm_state t = TIMER_RUNNING \<or> tm_state t = TIMER_STOPPING"
    using assms(2) by (auto simp: stopTimer_def split: if_split_asm)
  then have thread: "tm_thread t' = Leaving \<or> tm_thread t' = Sleeping" using ok by (auto simp: timer_ok.simps split: timer_thread.splits)
  let ?t1 = "t'\<lparr>tm_thread := Leaving\<rparr>"
  have "if tm_thread t' = Leaving then ?t1 = t' else tm_thread t' = Sleeping \<and> thread_wake now t' = Some ?t1"
    using thread t'(1) by (cases t') (auto simp: thread_wake_def)
  then show ?thesis
    by (intro exI [of _ ?t1] conjI exI [of _ "tm_quitCbs t @ [cb]"]) (auto simp: thread_leave_def joinable_def t'(1))
qed

definition ex_timer :: timer where
  "ex_timer = (new_timer 1)\<lparr>tm_callback := Sync_Callback 5\<rparr>"

definition ex_running :: timer where
  "ex_running = ex_timer\<lparr>tm_state := TIMER_RUNNING, tm_thread := Sleeping, tm_next := 1000000100\<rparr>"

lemma ex_starting: "timer_reachable (ex_timer\<lparr>tm_state := TIMER_STARTING, tm_thread := Entered False\<rparr>)"
proof -
  have "timer_reachable ex_timer"
    by (rule timer_reachable.step [OF timer_reachable.new [of 1]], rule callback [of "Sync_Callback 5"])
      (simp add: setTimerCallback_def ex_timer_def new_timer_def)
  then show ?thesis
    by (rule timer_reachable.step, intro timer_step.start [of False _ True])
      (simp add: startTimer_def joinable_def ex_timer_def new_timer_def)
qed

lemma ex_running_reachable: "timer_reachable ex_running"
proof (rule timer_reachable.step [OF ex_starting], rule timer_step.thread, rule enter [where now = 100])
  show "thread_enter 100 False (ex_timer\<lparr>tm_state := TIMER_STARTING, tm_thread := Entered False\<rparr>) = Some ex_running"
    by (simp add: thread_enter_def fire_loop.simps ex_running_def ex_timer_def new_timer_def)
qed simp

theorem stopped_timer_ends_witness:
  "\<exists>t1. thread_wake 0 (snd (snd (stopTimer (Some 9) ex_running))) = Some t1 \<and> tm_state (thread_leave t1) = TIMER_STOPPED"
proof -
  let ?t' = "ex_running\<lparr>tm_quitCbs := [9], tm_state := TIMER_STOPPING\<rparr>"
  have "stopTimer (Some 9) ex_running = (True, False, ?t')" by (simp add: stopTimer_def ex_running_def ex_timer_def new_timer_def)
  from stopped_timer_ends [OF ex_running_reachable this, of 0] this show ?thesis by (auto simp: ex_running_def)
qed

section \<open>A timer that is starting\<close>

lemma thread_never_ends:
  assumes "thread_step\<^sup>*\<^sup>* t t'"
    and "tm_thread t = Entered fi \<and> tm_state t = TIMER_STARTING \<or> tm_thread t = Sleeping \<and> tm_state t = TIMER_RUNNING" and "\<not> tm_fireOnce t"
  shows "(tm_thread t' = Entered fi \<and> tm_state t' = TIMER_STARTING \<or> tm_thread t' = Sleeping \<and> tm_state t' = TIMER_RUNNING) \<and> \<not> tm_fireOnce t'"
  using assms
proof (induction rule: rtranclp_induct)
  case (step u v)
  then have u: "tm_thread u = Entered fi \<and> tm_state u = TIMER_STARTING \<or> tm_thread u = Sleeping \<and> tm_state u = TIMER_RUNNING" "\<not> tm_fireOnce u"
    by blast+
  from step.hyps(2) show ?case
  proof cases
    case (enter fi now)
    then show ?thesis
      using u fire_loop_result [of now "u\<lparr>tm_next := (if fi then now else now + tm_interval u), tm_state := TIMER_RUNNING\<rparr>" v]
      by (auto simp: thread_enter_def Let_def)
  next
    case (wake now)
    then show ?thesis using u fire_loop_result [of now u v] by (auto simp: thread_wake_def)
  qed (use u in auto)
qed simp

text \<open>
  A timer that is still starting cannot be stopped, and destroying it never returns. A request to stop it
  calls its callback, which announces that the timer is stopped and safe to destroy, but changes
  nothing: the thread starts to run. The destructor does not ask the thread to stop either and then waits
  for it: whatever the thread does, it does not end.
\<close>

theorem stop_while_starting_lost:
  assumes "timer_reachable t" and "tm_state t = TIMER_STARTING" and "\<not> tm_fireOnce t"
  shows "stopTimer (Some cb) t = (False, True, t) \<and> destroyTimer t = t \<and>
    \<not> (\<exists>t'. thread_step\<^sup>*\<^sup>* (destroyTimer t) t' \<and> joinable t')"
proof -
  have "timer_ok t" by (rule timer_reachable_ok [OF assms(1)])
  then obtain fi where fi: "tm_thread t = Entered fi" using assms(2) by (auto simp: timer_ok.simps split: timer_thread.splits)
  have d: "destroyTimer t = t" using assms(2) by (simp add: destroyTimer_def)
  have "\<not> joinable t'" if "thread_step\<^sup>*\<^sup>* t t'" for t'
    using thread_never_ends [OF that, of fi] fi assms(2,3) by (auto simp: joinable_def)
  then show ?thesis using assms(2) d by (auto simp: stopTimer_def)
qed

theorem stop_while_starting_lost_witness:
  "\<not> (\<exists>t'. thread_step\<^sup>*\<^sup>* (destroyTimer (ex_timer\<lparr>tm_state := TIMER_STARTING, tm_thread := Entered False\<rparr>)) t' \<and> joinable t')"
  using stop_while_starting_lost [OF ex_starting] by (simp add: ex_timer_def new_timer_def)

section \<open>The factory\<close>

text \<open>
  The factory keeps its timers in a \<^verbatim>\<open>std::vector\<close>. \<open>tf_block\<close> names the memory block that holds them. A thread
  captures the address of its timer when it is created; \<open>tf_this\<close> records for a timer the block its thread
  refers to. Appending to a full vector moves the timers to a new block, and \<open>grow\<close> is how the library chooses
  its capacity.
\<close>

record timer_factory =
  tf_started :: bool
  tf_timers :: "timer list"
  tf_capacity :: nat
  tf_block :: nat
  tf_this :: "(nat, nat) dense_map"
  tf_stoppedTimers :: nat
  tf_quitEvt :: manual_event
  tf_stoppingTimers :: bool

definition createTimer :: "(nat \<Rightarrow> nat) \<Rightarrow> nat \<Rightarrow> timer_factory \<Rightarrow> timer_factory option" where
  "createTimer grow i f =
     (if \<not> tf_started f then None
      else if tf_stoppingTimers f then None
      else let f1 = (if length (tf_timers f) < tf_capacity f then f
                     else f\<lparr>tf_capacity := grow (tf_capacity f), tf_block := tf_block f + 1\<rparr>)
           in Some (f1\<lparr>tf_timers := tf_timers f1 @ [new_timer i]\<rparr>))"

definition getTimerById :: "nat \<Rightarrow> timer_factory \<Rightarrow> timer option option" where
  "getTimerById i f =
     (if \<not> tf_started f then None
      else if tf_stoppingTimers f then None
      else Some (find (\<lambda>t. tm_id t = i) (tf_timers f)))"

definition destroyTimerIfStopped :: "nat \<Rightarrow> timer_factory \<Rightarrow> (bool \<times> timer_factory) option" where
  "destroyTimerIfStopped i f =
     (if \<not> tf_started f then None
      else let kept = filter (\<lambda>t. \<not> (tm_id t = i \<and> tm_state t \<noteq> TIMER_RUNNING)) (tf_timers f)
           in Some (length kept < length (tf_timers f), f\<lparr>tf_timers := kept\<rparr>))"

text \<open>Starting a timer through its reference: the new thread captures the timer where it is now.\<close>

definition start_by_id :: "nat \<Rightarrow> bool \<Rightarrow> timer_factory \<Rightarrow> (bool \<times> timer_factory) option" where
  "start_by_id i fireImmediately f =
     (case getTimerById i f of
        Some (Some t) \<Rightarrow>
          (case startTimer fireImmediately t of
             Some (Some (True, t')) \<Rightarrow>
               Some (True, f\<lparr>tf_timers := map (\<lambda>u. if tm_id u = i then t' else u) (tf_timers f),
                             tf_this := (i, tf_block f) # filter (\<lambda>e. fst e \<noteq> i) (tf_this f)\<rparr>)
           | Some (Some (False, _)) \<Rightarrow> Some (False, f)
           | _ \<Rightarrow> None)
      | _ \<Rightarrow> None)"

text \<open>A step of the thread of a timer; its captured address has to be that of the timer.\<close>

definition factory_wake :: "nat \<Rightarrow> nat \<Rightarrow> timer_factory \<Rightarrow> timer_factory option" where
  "factory_wake now i f =
     (case find (\<lambda>t. tm_id t = i) (tf_timers f) of
        None \<Rightarrow> None
      | Some t \<Rightarrow>
          if dm_find i (tf_this f) \<noteq> Some (tf_block f) then None
          else map_option (\<lambda>t'. f\<lparr>tf_timers := map (\<lambda>u. if tm_id u = i then t' else u) (tf_timers f)\<rparr>) (thread_wake now t))"

text \<open>
  Stopping all timers: the callbacks of timers that do not run are called at once. The result says whether
  the coroutine continues without waiting.
\<close>

definition timer_quit_callback :: "timer_factory \<Rightarrow> coroutine list \<times> timer_factory" where
  "timer_quit_callback f =
     (let f1 = f\<lparr>tf_stoppedTimers := tf_stoppedTimers f + 1\<rparr>
      in if tf_stoppedTimers f1 = length (tf_timers f1)
         then (case mre_set (tf_quitEvt f1) of (resumed, e) \<Rightarrow> (resumed, f1\<lparr>tf_quitEvt := e\<rparr>)) else ([], f1))"

fun stop_each_timer :: "timer list \<Rightarrow> timer_factory \<Rightarrow> timer list \<times> timer_factory" where
  "stop_each_timer [] f = ([], f)"
| "stop_each_timer (t # ts) f =
     (case stopTimer (Some (tm_id t)) t of (_, called, t') \<Rightarrow>
        case stop_each_timer ts (if called then snd (timer_quit_callback f) else f) of (ts', f') \<Rightarrow> (t' # ts', f'))"

definition stopAllTimers :: "coroutine \<Rightarrow> timer_factory \<Rightarrow> bool \<times> timer_factory" where
  "stopAllTimers c f =
     (if tf_stoppingTimers f
      then (case mre_await c (tf_quitEvt f) of (ready, e) \<Rightarrow> (ready, f\<lparr>tf_quitEvt := e\<rparr>))
      else (case stop_each_timer (tf_timers f) (f\<lparr>tf_stoppingTimers := True, tf_stoppedTimers := 0\<rparr>) of
              (ts, f1) \<Rightarrow>
                let f2 = f1\<lparr>tf_timers := ts\<rparr>
                in if ts = [] then (True, f2\<lparr>tf_quitEvt := snd (mre_set (tf_quitEvt f2))\<rparr>)
                   else (case mre_await c (tf_quitEvt f2) of (ready, e) \<Rightarrow> (ready, f2\<lparr>tf_quitEvt := e\<rparr>))))"

text \<open>
  Creating a timer while another one runs leaves its thread with a dangling pointer. When the vector of
  the factory is full, the timers are moved to new memory while the thread of the running one keeps the
  old address: its next step is undefined.
\<close>

theorem created_timer_moves_running_one:
  assumes "tf_started f" and "\<not> tf_stoppingTimers f" and "length (tf_timers f) = tf_capacity f"
    and "find (\<lambda>t. tm_id t = i) (tf_timers f) = Some t" and "dm_find i (tf_this f) = Some (tf_block f)"
    and "tm_thread t = Sleeping"
  shows "\<exists>f'. createTimer grow j f = Some f' \<and> find (\<lambda>t. tm_id t = i) (tf_timers f') = Some t \<and> \<not> joinable t \<and>
    factory_wake now i f' = None"
proof -
  let ?f = "f\<lparr>tf_capacity := grow (tf_capacity f), tf_block := tf_block f + 1, tf_timers := tf_timers f @ [new_timer j]\<rparr>"
  have find: "find p (xs @ ys) = Some x" if "find p xs = Some x" for p and xs ys :: "timer list" and x
    using that by (induction xs) (auto split: if_split_asm)
  have "createTimer grow j f = Some ?f" using assms(1-3) by (simp add: createTimer_def Let_def)
  moreover have "find (\<lambda>t. tm_id t = i) (tf_timers ?f) = Some t" using find [OF assms(4)] by simp
  ultimately show ?thesis using assms(5,6) by (intro exI [of _ ?f]) (auto simp: factory_wake_def joinable_def)
qed

definition ex_factory :: timer_factory where
  "ex_factory =
     \<lparr>tf_started = True, tf_timers = [ex_running], tf_capacity = 1, tf_block = 0, tf_this = [(1, 0)], tf_stoppedTimers = 0,
      tf_quitEvt = Not_Set [], tf_stoppingTimers = False\<rparr>"

theorem created_timer_moves_running_one_witness:
  "\<exists>f'. createTimer (\<lambda>n. 2 * n) 2 ex_factory = Some f' \<and> factory_wake 0 1 f' = None"
  using created_timer_moves_running_one [of ex_factory 1 ex_running "\<lambda>n. 2 * n" 2 0]
  by (auto simp: ex_factory_def ex_running_def ex_timer_def new_timer_def dm_find_def)

section \<open>The factory of factories\<close>

text \<open>
  \<open>ff_factories\<close> maps a service that asked for timers to the factory made for it; \<open>ff_stops\<close> are the factories
  a \<^verbatim>\<open>StopServiceEvent\<close> has been pushed for. The id of a new factory comes from the manager, as does the answer
  whether a factory still exists.
\<close>

record TimerFactoryFactory =
  ff_factories :: "(service_id, service_id) dense_map"
  ff_quitting :: bool
  ff_stops :: "service_id list"

definition ff_request :: "service_id \<Rightarrow> service_id \<Rightarrow> TimerFactoryFactory \<Rightarrow> TimerFactoryFactory" where
  "ff_request originatingService newFactory f =
     (if ff_quitting f then f
      else if dm_contains originatingService (ff_factories f) then f
      else f\<lparr>ff_factories := dm_emplace originatingService newFactory (ff_factories f)\<rparr>)"

definition ff_push_stop :: "(service_id \<Rightarrow> bool) \<Rightarrow> service_id \<Rightarrow> TimerFactoryFactory \<Rightarrow> TimerFactoryFactory" where
  "ff_push_stop present factoryId f = (if present factoryId then f\<lparr>ff_stops := ff_stops f @ [factoryId]\<rparr> else f)"

definition ff_undo_request :: "(service_id \<Rightarrow> bool) \<Rightarrow> service_id \<Rightarrow> TimerFactoryFactory \<Rightarrow> TimerFactoryFactory" where
  "ff_undo_request present originatingService f =
     (if ff_quitting f then f
      else case dm_find originatingService (ff_factories f) of
        None \<Rightarrow> f
      | Some factoryId \<Rightarrow>
          let f1 = ff_push_stop present factoryId f in f1\<lparr>ff_factories := dm_erase originatingService (ff_factories f1)\<rparr>)"

fun ff_stop_loop :: "(service_id \<Rightarrow> bool) \<Rightarrow> (service_id \<times> service_id) list \<Rightarrow> TimerFactoryFactory \<Rightarrow> TimerFactoryFactory" where
  "ff_stop_loop present [] f = f"
| "ff_stop_loop present ((reqSvcId, factoryId) # ids) f =
     (let f1 = ff_push_stop present factoryId f
      in ff_stop_loop present ids (f1\<lparr>ff_factories := dm_erase reqSvcId (ff_factories f1)\<rparr>))"

definition ff_stop :: "(service_id \<Rightarrow> bool) \<Rightarrow> TimerFactoryFactory \<Rightarrow> TimerFactoryFactory option" where
  "ff_stop present f =
     (if ff_quitting f then None
      else let f1 = ff_stop_loop present (ff_factories f) (f\<lparr>ff_quitting := True\<rparr>)
           in if ff_factories f1 \<noteq> [] then None else Some f1)"

lemma ff_stop_loop_empty:
  "dm_ok (ff_factories f) \<Longrightarrow> set (ff_factories f) \<subseteq> set ids \<Longrightarrow>
   ff_factories (ff_stop_loop present ids f) = []"
proof (induction ids arbitrary: f)
  case (Cons e ids)
  obtain r i where e: "e = (r, i)" by (cases e)
  let ?f = "(ff_push_stop present i f)\<lparr>ff_factories := dm_erase r (ff_factories (ff_push_stop present i f))\<rparr>"
  have fs: "ff_factories (ff_push_stop present i f) = ff_factories f" by (simp add: ff_push_stop_def)
  have "dm_ok (ff_factories ?f)" "set (ff_factories ?f) \<subseteq> set ids"
    using Cons.prems by (auto simp: fs e dense_simps intro: dense_intros)
  then show ?case using Cons.IH [of ?f] by (simp add: e Let_def)
qed simp

text \<open>Stopping the factory of factories ends with no factory left, so the check at its end does not terminate the program.\<close>

lemma ff_stop_returns: "dm_ok (ff_factories f) \<Longrightarrow> \<not> ff_quitting f \<Longrightarrow> \<exists>f'. ff_stop present f = Some f' \<and> ff_factories f' = []"
  using ff_stop_loop_empty [of "f\<lparr>ff_quitting := True\<rparr>" "ff_factories f" present] by (simp add: ff_stop_def Let_def)

end
