(* ===== verification/Errno_Utils.thy ===== *)
theory Errno_Utils
  imports Ichor_Prelude
begin

text \<open>
  Error codes: \<^verbatim>\<open>src/include/ichor/stl/ErrnoUtils.h\<close>. The values of \<^verbatim>\<open>errno\<close> that the framework names are
  constructors, every other one is \<open>Errno\<close>. The names of the enumerators carry the prefix \<open>IO_\<close>.
\<close>

datatype errno =
    EACCES | EFAULT | EPERM | EINTR | EINVAL | ELOOP | EMFILE | ENAMETOOLONG | ENOENT | EISDIR | ENOTDIR | EROFS | EDQUOT
  | ENOSPC | EBADF | EIO | ENOTCONN | ENOTSOCK | EMSGSIZE | ECONNRESET | EDESTADDRREQ | EISCONN | ENOBUFS | ENOMEM
  | EOPNOTSUPP | EAGAIN | EINPROGRESS | EALREADY | Errno nat

datatype IOError =
    IO_FAILED | IO_SERVICE_QUITTING | IO_FILE_DOES_NOT_EXIST | IO_NO_PERMISSION | IO_IS_DIR_SHOULD_BE_FILE
  | IO_IS_FILE_SHOULD_BE_DIR | IO_INTERRUPTED_BY_SIGNAL | IO_BASENAME_CONTAINS_INVALID_CHARACTERS
  | IO_TOO_MANY_SYMBOLIC_LINKS | IO_PER_PROCESS_LIMIT_REACHED | IO_FILEPATH_TOO_LONG | IO_SERVICE_STOPPED
  | IO_FILE_SIZE_TOO_BIG | IO_SYSTEM_BUG | IO_READ_ONLY_FS | IO_USER_QUOTA_REACHED | IO_NO_SPACE_LEFT | IO_IO_ERROR
  | IO_BAD_FILE_DESCRIPTOR | IO_NOT_CONNECTED | IO_NOT_A_SOCKET | IO_MESSAGE_SIZE_TOO_BIG | IO_CONNECTION_RESET
  | IO_DESTINATION_ADDRESS_REQUIRED | IO_ALREADY_CONNECTED | IO_NETWORK_INTERFACE_OUTPUT_QUEUE_FULL
  | IO_NO_MEMORY_AVAILABLE | IO_NOT_SUPPORTED | IO_KERNEL_TOO_OLD

definition mapErrnoToError :: "errno \<Rightarrow> IOError" where
  "mapErrnoToError err =
     (if err = EACCES \<or> err = EFAULT \<or> err = EPERM then IO_NO_PERMISSION
      else if err = EINTR then IO_INTERRUPTED_BY_SIGNAL
      else if err = EINVAL then IO_BASENAME_CONTAINS_INVALID_CHARACTERS
      else if err = ELOOP then IO_TOO_MANY_SYMBOLIC_LINKS
      else if err = EMFILE then IO_PER_PROCESS_LIMIT_REACHED
      else if err = ENAMETOOLONG then IO_FILEPATH_TOO_LONG
      else if err = ENOENT then IO_FILE_DOES_NOT_EXIST
      else if err = EISDIR then IO_IS_DIR_SHOULD_BE_FILE
      else if err = ENOTDIR then IO_IS_FILE_SHOULD_BE_DIR
      else if err = EROFS then IO_READ_ONLY_FS
      else if err = EDQUOT then IO_USER_QUOTA_REACHED
      else if err = ENOSPC then IO_NO_SPACE_LEFT
      else if err = EBADF then IO_BAD_FILE_DESCRIPTOR
      else if err = EIO then IO_IO_ERROR
      else if err = ENOTCONN then IO_NOT_CONNECTED
      else if err = ENOTSOCK then IO_NOT_A_SOCKET
      else if err = EMSGSIZE then IO_MESSAGE_SIZE_TOO_BIG
      else if err = ECONNRESET then IO_CONNECTION_RESET
      else if err = EDESTADDRREQ then IO_DESTINATION_ADDRESS_REQUIRED
      else if err = EISCONN then IO_ALREADY_CONNECTED
      else if err = ENOBUFS then IO_NETWORK_INTERFACE_OUTPUT_QUEUE_FULL
      else if err = ENOMEM then IO_NO_MEMORY_AVAILABLE
      else if err = EOPNOTSUPP then IO_NOT_SUPPORTED
      else IO_FAILED)"

text \<open>The names that the formatter prints.\<close>

fun IOError_name :: "IOError \<Rightarrow> string" where
  "IOError_name IO_FAILED = ''FAILED''"
| "IOError_name IO_SERVICE_QUITTING = ''SERVICE_QUITTING''"
| "IOError_name IO_FILE_DOES_NOT_EXIST = ''FILE_DOES_NOT_EXIST''"
| "IOError_name IO_NO_PERMISSION = ''NO_PERMISSION''"
| "IOError_name IO_IS_DIR_SHOULD_BE_FILE = ''IS_DIR_SHOULD_BE_FILE''"
| "IOError_name IO_IS_FILE_SHOULD_BE_DIR = ''IS_FILE_SHOULD_BE_DIR''"
| "IOError_name IO_INTERRUPTED_BY_SIGNAL = ''INTERRUPTED_BY_SIGNAL''"
| "IOError_name IO_BASENAME_CONTAINS_INVALID_CHARACTERS = ''BASENAME_CONTAINS_INVALID_CHARACTERS''"
| "IOError_name IO_TOO_MANY_SYMBOLIC_LINKS = ''TOO_MANY_SYMBOLIC_LINKS''"
| "IOError_name IO_PER_PROCESS_LIMIT_REACHED = ''PER_PROCESS_LIMIT_REACHED''"
| "IOError_name IO_FILEPATH_TOO_LONG = ''FILEPATH_TOO_LONG''"
| "IOError_name IO_SERVICE_STOPPED = ''SERVICE_STOPPED''"
| "IOError_name IO_FILE_SIZE_TOO_BIG = ''FILE_SIZE_TOO_BIG''"
| "IOError_name IO_SYSTEM_BUG = ''SYSTEM_BUG''"
| "IOError_name IO_READ_ONLY_FS = ''READ_ONLY_FS''"
| "IOError_name IO_USER_QUOTA_REACHED = ''USER_QUOTA_REACHED''"
| "IOError_name IO_NO_SPACE_LEFT = ''NO_SPACE_LEFT''"
| "IOError_name IO_IO_ERROR = ''IO_ERROR''"
| "IOError_name IO_BAD_FILE_DESCRIPTOR = ''BAD_FILE_DESCRIPTOR''"
| "IOError_name IO_NOT_CONNECTED = ''NOT_CONNECTED''"
| "IOError_name IO_NOT_A_SOCKET = ''NOT_A_SOCKET''"
| "IOError_name IO_MESSAGE_SIZE_TOO_BIG = ''MESSAGE_SIZE_TOO_BIG''"
| "IOError_name IO_CONNECTION_RESET = ''CONNECTION_RESET''"
| "IOError_name IO_DESTINATION_ADDRESS_REQUIRED = ''DESTINATION_ADDRESS_REQUIRED''"
| "IOError_name IO_ALREADY_CONNECTED = ''ALREADY_CONNECTED''"
| "IOError_name IO_NETWORK_INTERFACE_OUTPUT_QUEUE_FULL = ''NETWORK_INTERFACE_OUTPUT_QUEUE_FULL''"
| "IOError_name IO_NO_MEMORY_AVAILABLE = ''NO_MEMORY_AVAILABLE''"
| "IOError_name IO_NOT_SUPPORTED = ''NOT_SUPPORTED''"
| "IOError_name IO_KERNEL_TOO_OLD = ''KERNEL_TOO_OLD''"

lemma mapErrnoToError_unrecognised: "mapErrnoToError err = IO_FAILED \<longleftrightarrow> err \<in> {EAGAIN, EINPROGRESS, EALREADY} \<or> (\<exists>n. err = Errno n)"
  by (cases err) (simp_all add: mapErrnoToError_def)

lemma mapErrnoToError_inj:
  "mapErrnoToError e = mapErrnoToError e' \<Longrightarrow> mapErrnoToError e \<notin> {IO_FAILED, IO_NO_PERMISSION} \<Longrightarrow> e = e'"
  unfolding mapErrnoToError_def by (auto split: if_split_asm)

lemma IOError_name_inj: "IOError_name e = IOError_name e' \<longleftrightarrow> e = e'"
  by (cases e; cases e') simp_all

end
