(* ===== verification/Tcp.thy ===== *)
theory Tcp
  imports Timers Errno_Utils
begin

text \<open>
  The TCP services: \<^verbatim>\<open>src/src/services/network/tcp/TcpConnectionService.cpp\<close> and
  \<^verbatim>\<open>src/src/services/network/tcp/TcpHostService.cpp\<close>.

  The socket calls are the operating system: each operation takes the results of the calls it makes, in the
  order of the calls. When the results run out the operation has not returned, which is \<open>None\<close>. Bytes are
  characters, as in the HTTP services. Both services poll: a timer that fires once runs the handler in the
  event loop, and the handler starts the timer again. The timer is that of \<^verbatim>\<open>Timers\<close>; starting it joins its
  last thread, which is then at most one step away from its end.
\<close>

section \<open>The connection\<close>

datatype tcp_push = Push_Stop nat | Push_Restart_Timer

text \<open>
  The members, and what the service has done: \<open>tc_sent\<close> are the bytes the system took over, \<open>tc_received\<close> the
  calls of the receive handler, \<open>tc_pushed\<close> the events and \<open>tc_closed\<close> the sockets that were closed.
\<close>

record TcpConnectionService =
  tc_id :: service_id
  tc_socket :: int
  tc_attempts :: nat
  tc_priority :: nat
  tc_sendTimeout :: int
  tc_quit :: bool
  tc_timer :: "timer option"
  tc_recvHandler :: bool
  tc_queuedMessages :: "string list"
  tc_sent :: string
  tc_received :: "string list"
  tc_pushed :: "tcp_push list"
  tc_closed :: "int list"

definition new_connection :: "service_id \<Rightarrow> TcpConnectionService" where
  "new_connection sid =
     \<lparr>tc_id = sid, tc_socket = -1, tc_attempts = 0, tc_priority = 1000, tc_sendTimeout = 250000, tc_quit = False,
      tc_timer = None, tc_recvHandler = False, tc_queuedMessages = [], tc_sent = [], tc_received = [], tc_pushed = [],
      tc_closed = []\<rparr>"

text \<open>The properties that \<^verbatim>\<open>start\<close> reads.\<close>

record tcp_properties =
  tp_priority :: "nat option"
  tp_timeoutSendUs :: "int option"
  tp_socket :: "int option"
  tp_address :: "string option"
  tp_port :: "nat option"

text \<open>
  One round of the loop around \<^verbatim>\<open>connect\<close>: its result, \<^verbatim>\<open>errno\<close> afterwards, the result of \<^verbatim>\<open>poll\<close> with the flags
  \<^verbatim>\<open>POLLERR\<close>, \<^verbatim>\<open>POLLHUP\<close> and \<^verbatim>\<open>POLLOUT\<close>, and that of \<^verbatim>\<open>getsockopt\<close> with the error of the socket.
\<close>

record connect_round =
  cn_ret :: int
  cn_errno :: errno
  cn_poll :: int
  cn_pollerr :: bool
  cn_pollhup :: bool
  cn_pollout :: bool
  cn_getsockopt :: int
  cn_result :: int

datatype connect_outcome = Gave_Up nat | Connected nat | Getsockopt_Failed nat

fun connect_loop :: "bool \<Rightarrow> nat \<Rightarrow> connect_round list \<Rightarrow> connect_outcome option" where
  "connect_loop connected attempts [] =
     (if connected then Some (Connected attempts) else if \<not> attempts < 5 then Some (Gave_Up attempts) else None)"
| "connect_loop connected attempts (c # cs) =
     (if connected then Some (Connected attempts)
      else if \<not> attempts < 5 then Some (Gave_Up attempts)
      else if cn_ret c < 0 then Some (Connected attempts)
      else if cn_errno c = EINPROGRESS
      then (if cn_poll c < 0 then connect_loop False attempts cs
            else if cn_poll c = 0 then connect_loop False attempts cs
            else if cn_pollerr c then connect_loop False attempts cs
            else if cn_pollhup c then connect_loop False attempts cs
            else if cn_pollout c
            then (if cn_getsockopt c < 0 then Some (Getsockopt_Failed attempts)
                  else if cn_result c < 0 then Some (Gave_Up attempts)
                  else Some (Connected attempts))
            else connect_loop False attempts cs)
      else if cn_errno c = EISCONN then Some (Connected attempts)
      else if cn_errno c = EALREADY then connect_loop False attempts cs
      else connect_loop False (attempts + 1) cs)"

text \<open>The timer of a connection: created, set to fire once after 20 ms, with its callback, and started at once.\<close>

definition poll_timer :: "nat \<Rightarrow> timer option" where
  "poll_timer timer_id =
     Option.bind (setTimerCallback (Sync_Callback timer_id) (setInterval 20000000 (setFireOnce True (new_timer timer_id))))
       (\<lambda>t. case startTimer True t of Some (Some (_, t')) \<Rightarrow> Some t' | _ \<Rightarrow> None)"

definition read_properties :: "tcp_properties \<Rightarrow> TcpConnectionService \<Rightarrow> TcpConnectionService" where
  "read_properties p s =
     s\<lparr>tc_priority := (case tp_priority p of None \<Rightarrow> tc_priority s | Some x \<Rightarrow> x),
       tc_sendTimeout := (case tp_timeoutSendUs p of None \<Rightarrow> tc_sendTimeout s | Some x \<Rightarrow> x)\<rparr>"

text \<open>
  \<^verbatim>\<open>start\<close>: \<open>sock\<close> is the result of \<^verbatim>\<open>socket\<close>, \<open>pton\<close> that of \<^verbatim>\<open>inet_pton\<close> and \<open>first\<close> that of the first
  \<^verbatim>\<open>connect\<close>. The boolean is whether the service has started.
\<close>

definition connection_start ::
  "tcp_properties \<Rightarrow> int \<Rightarrow> int \<Rightarrow> int \<Rightarrow> connect_round list \<Rightarrow> nat \<Rightarrow> TcpConnectionService \<Rightarrow> (bool \<times> TcpConnectionService) option" where
  "connection_start p sock pton first rounds timer_id s0 =
     (let s = read_properties p s0;
          finish = (\<lambda>s. map_option (\<lambda>t. (True, s\<lparr>tc_timer := Some t\<rparr>)) (poll_timer timer_id))
      in case tp_socket p of
           Some fd \<Rightarrow> finish (s\<lparr>tc_socket := fd\<rparr>)
         | None \<Rightarrow>
             if tp_address p = None then Some (False, s)
             else if tp_port p = None then Some (False, s)
             else let s1 = (if tc_socket s = -1 then s\<lparr>tc_socket := sock\<rparr> else s)
                  in if tc_socket s1 = -1 then Some (False, s1)
                     else if pton = 0 then Some (False, s1)
                     else Option.bind (connect_loop (first < 0) (tc_attempts s1) rounds) (\<lambda>r.
                       case r of
                         Getsockopt_Failed n \<Rightarrow> Some (False, s1\<lparr>tc_attempts := n\<rparr>)
                       | Gave_Up n \<Rightarrow>
                           Some (False, s1\<lparr>tc_attempts := n, tc_pushed := tc_pushed s1 @ [Push_Stop (tc_id s1)]\<rparr>)
                       | Connected n \<Rightarrow> finish (s1\<lparr>tc_attempts := n\<rparr>)))"

definition connection_stop :: "TcpConnectionService \<Rightarrow> TcpConnectionService" where
  "connection_stop s =
     s\<lparr>tc_quit := True, tc_closed := (if tc_socket s \<ge> 0 then tc_closed s @ [tc_socket s] else tc_closed s), tc_timer := None\<rparr>"

fun send_loop :: "int list \<Rightarrow> string \<Rightarrow> nat \<Rightarrow> TcpConnectionService \<Rightarrow> (IOError option \<times> int list \<times> TcpConnectionService) option" where
  "send_loop rets msg sent_bytes s =
     (if \<not> sent_bytes < length msg then Some (None, rets, s)
      else case rets of
        [] \<Rightarrow> None
      | ret # rets' \<Rightarrow>
          if ret < 0 then Some (Some IO_FAILED, rets', s)
          else send_loop rets' msg (sent_bytes + nat ret) (s\<lparr>tc_sent := tc_sent s @ take (nat ret) (drop sent_bytes msg)\<rparr>))"

definition tcp_sendAsync :: "int list \<Rightarrow> string \<Rightarrow> TcpConnectionService \<Rightarrow> (IOError option \<times> TcpConnectionService) option" where
  "tcp_sendAsync rets msg s =
     (if tc_quit s then Some (Some IO_SERVICE_QUITTING, s)
      else map_option (\<lambda>(r, _, s'). (r, s')) (send_loop rets msg 0 s))"

fun send_each :: "int list \<Rightarrow> string list \<Rightarrow> TcpConnectionService \<Rightarrow> (IOError option \<times> TcpConnectionService) option" where
  "send_each rets [] s = Some (None, s)"
| "send_each rets (msg # msgs) s =
     Option.bind (send_loop rets msg 0 s) (\<lambda>(r, rets', s').
       case r of Some e \<Rightarrow> Some (Some e, s') | None \<Rightarrow> send_each rets' msgs s')"

definition tcp_sendAsync_all :: "int list \<Rightarrow> string list \<Rightarrow> TcpConnectionService \<Rightarrow> (IOError option \<times> TcpConnectionService) option" where
  "tcp_sendAsync_all rets msgs s = (if tc_quit s then Some (Some IO_SERVICE_QUITTING, s) else send_each rets msgs s)"

definition setReceiveHandler :: "TcpConnectionService \<Rightarrow> TcpConnectionService" where
  "setReceiveHandler s =
     s\<lparr>tc_recvHandler := True, tc_received := tc_received s @ tc_queuedMessages s, tc_queuedMessages := []\<rparr>"

text \<open>The results of \<^verbatim>\<open>recv\<close>.\<close>

datatype recv_result = Received string | Peer_Closed | Recv_Error errno

fun recv_loop :: "bool \<Rightarrow> recv_result list \<Rightarrow> string \<Rightarrow> (string \<times> recv_result) option" where
  "recv_loop quit [] msg = None"
| "recv_loop quit (r # rs) msg =
     (case r of
        Received bytes \<Rightarrow> if quit then Some (msg @ bytes, r) else recv_loop quit rs (msg @ bytes)
      | _ \<Rightarrow> Some (msg, r))"

definition join_thread :: "timer \<Rightarrow> timer" where
  "join_thread t = (if tm_thread t = Leaving then thread_leave t else t)"

text \<open>The scope guard of the handlers. Starting a timer whose thread has not ended does not return.\<close>

definition restart_poll :: "timer option \<Rightarrow> (bool \<times> timer option) option" where
  "restart_poll t =
     (case t of
        None \<Rightarrow> None
      | Some t \<Rightarrow> (case startTimer False (join_thread t) of Some (Some (b, t')) \<Rightarrow> Some (b, Some t') | _ \<Rightarrow> None))"

definition guard_recv :: "TcpConnectionService \<Rightarrow> TcpConnectionService option" where
  "guard_recv s =
     (if tc_quit s then Some s
      else map_option (\<lambda>(started, t). s\<lparr>tc_timer := t, tc_pushed := tc_pushed s @ (if started then [] else [Push_Restart_Timer])\<rparr>)
             (restart_poll (tc_timer s)))"

text \<open>The event \<open>Push_Restart_Timer\<close>: when the timer still does not start, the program ends.\<close>

definition restart_timer_event :: "TcpConnectionService \<Rightarrow> TcpConnectionService option" where
  "restart_timer_event s =
     Option.bind (restart_poll (tc_timer s)) (\<lambda>(started, t). if started then Some (s\<lparr>tc_timer := t\<rparr>) else None)"

definition deliver :: "string \<Rightarrow> TcpConnectionService \<Rightarrow> TcpConnectionService" where
  "deliver msg s =
     (if msg = [] then s
      else if tc_recvHandler s then s\<lparr>tc_received := tc_received s @ [msg]\<rparr>
      else s\<lparr>tc_queuedMessages := tc_queuedMessages s @ [msg]\<rparr>)"

definition recvHandler :: "recv_result list \<Rightarrow> TcpConnectionService \<Rightarrow> TcpConnectionService option" where
  "recvHandler rs s =
     Option.bind (recv_loop (tc_quit s) rs []) (\<lambda>(msg, ret).
       if tc_quit s then guard_recv s
       else let s1 = deliver msg s;
                s2 = (case ret of
                        Received _ \<Rightarrow> s1
                      | Peer_Closed \<Rightarrow> s1\<lparr>tc_pushed := tc_pushed s1 @ [Push_Stop (tc_id s1)]\<rparr>
                      | Recv_Error e \<Rightarrow> if e = EAGAIN then s1 else s1\<lparr>tc_pushed := tc_pushed s1 @ [Push_Stop (tc_id s1)]\<rparr>)
            in guard_recv s2)"

definition isClient :: "tcp_properties \<Rightarrow> bool" where
  "isClient p = (tp_socket p = None)"

definition setConnectionPriority :: "nat \<Rightarrow> TcpConnectionService \<Rightarrow> TcpConnectionService" where
  "setConnectionPriority prio s = s\<lparr>tc_priority := prio\<rparr>"

section \<open>The host\<close>

datatype host_push = Host_Push_Stop service_id | Host_Push_NewSocket nat int

record TcpHostService =
  th_id :: service_id
  th_socket :: int
  th_bindFd :: int
  th_priority :: nat
  th_sendTimeout :: int
  th_quit :: bool
  th_timer :: "timer option"
  th_connections :: "service_id list"
  th_registered :: bool
  th_created :: "(service_id \<times> tcp_properties \<times> service_id) list"
  th_pushed :: "host_push list"
  th_closed :: "int list"

text \<open>
  \<^verbatim>\<open>start\<close>: the results of \<^verbatim>\<open>socket\<close>, \<^verbatim>\<open>inet_aton\<close>, whether \<^verbatim>\<open>gethostbyname\<close> knows the name, \<^verbatim>\<open>bind\<close> and \<^verbatim>\<open>listen\<close>.
  Without a port the program ends: \<^verbatim>\<open>any_cast\<close> refuses the value that the look-up has just inserted.
\<close>

definition host_service_start ::
  "tcp_properties \<Rightarrow> int \<Rightarrow> int \<Rightarrow> bool \<Rightarrow> int \<Rightarrow> int \<Rightarrow> nat \<Rightarrow> TcpHostService \<Rightarrow> (bool \<times> TcpHostService) option" where
  "host_service_start p sock aton known bind_ret listen_ret timer_id s0 =
     (let s = s0\<lparr>th_priority := (case tp_priority p of None \<Rightarrow> th_priority s0 | Some x \<Rightarrow> x), th_registered := True,
                 th_socket := sock\<rparr>;
          give_up = (\<lambda>s. Some (False, s\<lparr>th_closed := th_closed s @ [th_socket s], th_socket := -1\<rparr>))
      in if sock = -1 then Some (False, s)
         else if tp_address p \<noteq> None \<and> aton \<noteq> 0 \<and> \<not> known then give_up s
         else if tp_port p = None then None
         else let s1 = s\<lparr>th_bindFd := bind_ret\<rparr>
              in if bind_ret = -1 then give_up s1
                 else if listen_ret \<noteq> 0 then give_up s1
                 else map_option (\<lambda>t. (True, s1\<lparr>th_timer := Some t\<rparr>)) (poll_timer timer_id))"

definition host_service_stop :: "TcpHostService \<Rightarrow> TcpHostService" where
  "host_service_stop s =
     s\<lparr>th_quit := True, th_closed := (if th_socket s \<ge> 0 then th_closed s @ [th_socket s] else th_closed s),
       th_registered := False, th_timer := None\<rparr>"

text \<open>The handler of \<^verbatim>\<open>NewSocketEvent\<close>: \<open>sid\<close> is the id of the service that is created.\<close>

definition handle_new_socket :: "int \<Rightarrow> service_id \<Rightarrow> TcpHostService \<Rightarrow> TcpHostService" where
  "handle_new_socket fd sid s =
     (let p = \<lparr>tp_priority = Some (th_priority s), tp_timeoutSendUs = Some (th_sendTimeout s), tp_socket = Some fd,
               tp_address = None, tp_port = None\<rparr>
      in s\<lparr>th_connections := th_connections s @ [sid], th_created := th_created s @ [(sid, p, th_id s)]\<rparr>)"

definition setHostPriority :: "nat \<Rightarrow> TcpHostService \<Rightarrow> TcpHostService" where
  "setHostPriority prio s = s\<lparr>th_priority := prio\<rparr>"

definition guard_accept :: "TcpHostService \<Rightarrow> TcpHostService option" where
  "guard_accept s =
     (if th_quit s then Some s else map_option (\<lambda>(_, t). s\<lparr>th_timer := t\<rparr>) (restart_poll (th_timer s)))"

definition acceptHandler :: "int \<Rightarrow> errno \<Rightarrow> TcpHostService \<Rightarrow> TcpHostService option" where
  "acceptHandler newConnection err s =
     (if th_quit s then guard_accept s
      else if newConnection = -1
      then (if err = EAGAIN then guard_accept s
            else guard_accept (s\<lparr>th_pushed := th_pushed s @ [Host_Push_Stop (th_id s)]\<rparr>))
      else guard_accept (s\<lparr>th_pushed := th_pushed s @ [Host_Push_NewSocket (th_priority s) newConnection]\<rparr>))"

section \<open>Sending\<close>

text \<open>
  The contract of \<^verbatim>\<open>send\<close> for \<open>n\<close> bytes: a call fails, or takes over at least one of the bytes that are left;
  there are calls until one fails or nothing is left.
\<close>

fun send_contract :: "int list \<Rightarrow> nat \<Rightarrow> bool" where
  "send_contract rets n =
     (n = 0 \<or> (case rets of [] \<Rightarrow> False | r # rs \<Rightarrow> r < 0 \<or> 0 < r \<and> nat r \<le> n \<and> send_contract rs (n - nat r)))"

lemma send_loop_contract:
  assumes "send_contract rets (length msg - i)" and "i \<le> length msg"
  shows "\<exists>e n rets'. send_loop rets msg i s = Some (e, rets', s\<lparr>tc_sent := tc_sent s @ take n (drop i msg)\<rparr>) \<and>
    n \<le> length msg - i \<and> (e = None \<longleftrightarrow> n = length msg - i) \<and> (e = None \<or> e = Some IO_FAILED)"
  using assms
proof (induction rets arbitrary: i s)
  case Nil
  then show ?case by (intro exI [of _ None] exI [of _ 0] exI [of _ "[]"]) auto
next
  case (Cons r rets)
  consider (finished) "i = length msg" | (failed) "i < length msg" "r < 0"
    | (some) "i < length msg" "0 < r" "nat r \<le> length msg - i" "send_contract rets (length msg - i - nat r)"
    using Cons.prems by fastforce
  then show ?case
  proof cases
    case finished
    then show ?thesis by (intro exI [of _ None] exI [of _ 0] exI [of _ "r # rets"]) auto
  next
    case failed
    then show ?thesis by (intro exI [of _ "Some IO_FAILED"] exI [of _ 0] exI [of _ rets]) auto
  next
    case some
    let ?s = "s\<lparr>tc_sent := tc_sent s @ take (nat r) (drop i msg)\<rparr>"
    have "send_contract rets (length msg - (i + nat r))" "i + nat r \<le> length msg" using some by simp_all
    from Cons.IH [OF this, of ?s] obtain e n rets' where
      e: "send_loop rets msg (i + nat r) ?s = Some (e, rets', ?s\<lparr>tc_sent := tc_sent ?s @ take n (drop (i + nat r) msg)\<rparr>)"
        "n \<le> length msg - (i + nat r)" "e = None \<longleftrightarrow> n = length msg - (i + nat r)" "e = None \<or> e = Some IO_FAILED"
      by blast
    have "take (nat r) (drop i msg) @ take n (drop (i + nat r) msg) = take (nat r + n) (drop i msg)"
      by (simp add: take_add drop_drop add.commute [of i])
    then show ?thesis using some e
      by (intro exI [of _ e] exI [of _ "nat r + n"] exI [of _ rets']) auto
  qed
qed

text \<open>
  C29. Sending is all or a prefix. When \<^verbatim>\<open>send\<close> keeps its contract, \<^verbatim>\<open>sendAsync\<close> of a running connection returns.
  It reports success exactly when every byte of the message has been handed to the system, in order; when it
  reports a failure, a proper prefix of the message has been handed over.
\<close>

theorem send_whole_or_prefix:
  assumes "send_contract rets (length msg)" and "\<not> tc_quit s"
  shows "\<exists>e n. tcp_sendAsync rets msg s = Some (e, s\<lparr>tc_sent := tc_sent s @ take n msg\<rparr>) \<and> n \<le> length msg \<and>
    (e = None \<longleftrightarrow> n = length msg) \<and> (e = None \<or> e = Some IO_FAILED)"
  using send_loop_contract [of rets msg 0 s] assms by (fastforce simp: tcp_sendAsync_def)

theorem send_whole_or_prefix_witness:
  "tcp_sendAsync [2, 1] ''abc'' (new_connection 1) = Some (None, (new_connection 1)\<lparr>tc_sent := ''abc''\<rparr>)"
proof -
  have "\<exists>e n. tcp_sendAsync [2, 1] ''abc'' (new_connection 1) = Some (e, (new_connection 1)\<lparr>tc_sent := tc_sent (new_connection 1) @ take n ''abc''\<rparr>) \<and>
      n \<le> length ''abc'' \<and> (e = None \<longleftrightarrow> n = length ''abc'') \<and> (e = None \<or> e = Some IO_FAILED)"
    by (rule send_whole_or_prefix) (simp_all add: new_connection_def)
  moreover have "\<exists>s. tcp_sendAsync [2, 1] ''abc'' (new_connection 1) = Some (None, s)"
    by (simp add: tcp_sendAsync_def new_connection_def)
  ultimately show ?thesis by (auto simp: new_connection_def)
qed

section \<open>Receiving\<close>

text \<open>The bytes that \<^verbatim>\<open>recv\<close> delivered up to the call that ended the loop.\<close>

fun bytes_of :: "recv_result list \<Rightarrow> string" where
  "bytes_of (Received bytes # rs) = bytes @ bytes_of rs"
| "bytes_of rs = []"

fun loop_ends :: "recv_result list \<Rightarrow> bool" where
  "loop_ends [] = False"
| "loop_ends (Received _ # rs) = loop_ends rs"
| "loop_ends _ = True"

lemma recv_loop_bytes:
  "loop_ends rs \<Longrightarrow> \<exists>r. recv_loop False rs msg = Some (msg @ bytes_of rs, r)"
  by (induction rs arbitrary: msg rule: loop_ends.induct) (auto, metis append.assoc)

lemma recv_loop_returns: "recv_loop False rs msg = Some (m, r) \<Longrightarrow> loop_ends rs \<and> m = msg @ bytes_of rs"
  by (induction rs arbitrary: msg rule: loop_ends.induct) (auto, metis append.assoc)

definition connection_ok :: "TcpConnectionService \<Rightarrow> bool" where
  "connection_ok s \<longleftrightarrow> (tc_recvHandler s \<longrightarrow> tc_queuedMessages s = []) \<and> [] \<notin> set (tc_queuedMessages s)"

definition stream :: "TcpConnectionService \<Rightarrow> string" where
  "stream s = concat (tc_received s) @ concat (tc_queuedMessages s)"

lemma deliver_stream: "connection_ok s \<Longrightarrow> stream (deliver msg s) = stream s @ msg \<and> connection_ok (deliver msg s)"
  by (auto simp: deliver_def stream_def connection_ok_def)

lemma guard_recv_keeps:
  "guard_recv s = Some s' \<Longrightarrow> stream s' = stream s \<and> connection_ok s' = connection_ok s \<and> tc_quit s' = tc_quit s \<and> tc_recvHandler s' = tc_recvHandler s"
  by (cases "tc_quit s"; cases "restart_poll (tc_timer s)") (auto simp: guard_recv_def stream_def connection_ok_def)

lemma recvHandler_stream:
  assumes "recvHandler rs s = Some s'" and "\<not> tc_quit s" and "connection_ok s"
  shows "stream s' = stream s @ bytes_of rs \<and> connection_ok s' \<and> \<not> tc_quit s' \<and> tc_recvHandler s' = tc_recvHandler s"
proof -
  obtain msg ret where r: "recv_loop False rs [] = Some (msg, ret)" using assms(1,2) by (auto simp: recvHandler_def bind_eq_Some_conv)
  have msg: "msg = bytes_of rs" using recv_loop_returns [OF r] by simp
  obtain pushes where "guard_recv ((deliver msg s)\<lparr>tc_pushed := pushes\<rparr>) = Some s'"
    using assms(1,2) r by (cases ret) (auto simp: recvHandler_def Let_def split: if_split_asm intro: that [of "tc_pushed (deliver msg s)"])
  note guarded = guard_recv_keeps [OF this]
  have "stream ((deliver msg s)\<lparr>tc_pushed := pushes\<rparr>) = stream (deliver msg s)"
    "connection_ok ((deliver msg s)\<lparr>tc_pushed := pushes\<rparr>) = connection_ok (deliver msg s)" by (simp_all add: stream_def connection_ok_def)
  moreover have "tc_quit (deliver msg s) = tc_quit s" "tc_recvHandler (deliver msg s) = tc_recvHandler s" by (simp_all add: deliver_def)
  ultimately show ?thesis using guarded deliver_stream [OF assms(3), of msg] assms(2) msg by simp
qed

text \<open>What happens to a connection: its poll handler runs, or the receive handler is set.\<close>

datatype connection_op = Poll "recv_result list" | Set_Handler

fun connection_run :: "connection_op list \<Rightarrow> TcpConnectionService \<Rightarrow> TcpConnectionService option" where
  "connection_run [] s = Some s"
| "connection_run (Poll rs # ops) s = Option.bind (recvHandler rs s) (connection_run ops)"
| "connection_run (Set_Handler # ops) s = connection_run ops (setReceiveHandler s)"

fun polled :: "connection_op list \<Rightarrow> string" where
  "polled [] = []"
| "polled (Poll rs # ops) = bytes_of rs @ polled ops"
| "polled (Set_Handler # ops) = polled ops"

lemma setReceiveHandler_stream:
  "connection_ok s \<Longrightarrow> stream (setReceiveHandler s) = stream s \<and> connection_ok (setReceiveHandler s)"
  by (simp add: setReceiveHandler_def stream_def connection_ok_def)

lemma connection_run_stream:
  assumes "connection_run ops s = Some s'" and "\<not> tc_quit s" and "connection_ok s"
  shows "stream s' = stream s @ polled ops \<and> connection_ok s' \<and> (tc_recvHandler s \<or> Set_Handler \<in> set ops \<longrightarrow> tc_recvHandler s')"
  using assms
proof (induction ops arbitrary: s rule: polled.induct)
  case (2 rs ops)
  then obtain s1 where s1: "recvHandler rs s = Some s1" "connection_run ops s1 = Some s'" by (auto simp: bind_eq_Some_conv)
  then show ?case using recvHandler_stream [OF s1(1) 2(3,4)] 2(1) [of s1] by auto
next
  case (3 ops)
  then show ?case using setReceiveHandler_stream [of s] by (auto simp: setReceiveHandler_def)
qed simp

text \<open>
  C28. A connection delivers the byte stream. Whatever the sizes in which \<^verbatim>\<open>recv\<close> hands out the bytes, and whenever
  the receive handler is set: once it is set, the calls of the handler together are exactly the bytes
  received from the socket, in order, those that arrived before the handler was set included.
\<close>

theorem connection_delivers_stream:
  assumes "connection_run ops s = Some s'" and "\<not> tc_quit s" and "tc_received s = []" and "tc_queuedMessages s = []"
    and "Set_Handler \<in> set ops"
  shows "concat (tc_received s') = polled ops \<and> tc_queuedMessages s' = []"
proof -
  have "connection_ok s" "stream s = []" using assms(3,4) by (simp_all add: connection_ok_def stream_def)
  with connection_run_stream [OF assms(1,2)] have "stream s' = polled ops" "connection_ok s'" "tc_recvHandler s'" using assms(5) by auto
  then show ?thesis by (simp add: connection_ok_def stream_def)
qed

theorem connection_delivers_stream_witness:
  "\<exists>s'. connection_run [Poll [Received ''ab'', Received ''c'', Recv_Error EAGAIN], Set_Handler]
       ((new_connection 1)\<lparr>tc_timer := Some ((new_timer 1)\<lparr>tm_callback := Sync_Callback 1\<rparr>)\<rparr>) = Some s' \<and>
     concat (tc_received s') = ''abc'' \<and> tc_queuedMessages s' = []"
proof -
  let ?s = "(new_connection 1)\<lparr>tc_timer := Some ((new_timer 1)\<lparr>tm_callback := Sync_Callback 1\<rparr>)\<rparr>"
  let ?ops = "[Poll [Received ''ab'', Received ''c'', Recv_Error EAGAIN], Set_Handler]"
  obtain s' where s': "connection_run ?ops ?s = Some s'"
    by (simp add: recvHandler_def guard_recv_def restart_poll_def join_thread_def startTimer_def joinable_def new_timer_def new_connection_def
        Let_def deliver_def)
  have "concat (tc_received s') = polled ?ops \<and> tc_queuedMessages s' = []"
    by (rule connection_delivers_stream [OF s']) (simp_all add: new_connection_def)
  then show ?thesis using s' by auto
qed

section \<open>Polling goes on\<close>

lemma fired_timer:
  assumes "tm_fireOnce t0" and "thread_step t0 t1"
    and "tm_pushed t1 = tm_pushed t0 @ [Push_Callback c p]"
  shows "tm_thread t1 = Leaving \<and> tm_state t1 = TIMER_STOPPING \<and> tm_callback t1 = tm_callback t0"
proof -
  have fire: "tm_thread t1 = Leaving \<and> tm_state t1 = TIMER_STOPPING \<and> tm_callback t1 = tm_callback t"
    if "fire_loop now t = Some t1" "tm_fireOnce t" "tm_state t = TIMER_RUNNING" "tm_pushed t = tm_pushed t0" for now t
    using that assms(3) by (auto simp: fire_loop.simps [of now t] Let_def split: if_split_asm)
  from assms(2) show ?thesis
  proof cases
    case (enter fi now)
    then show ?thesis
      using fire [of now "t0\<lparr>tm_next := (if fi then now else now + tm_interval t0), tm_state := TIMER_RUNNING\<rparr>"] assms(1,3)
      by (auto simp: thread_enter_def Let_def split: if_split_asm)
  next
    case (wake now)
    then show ?thesis using fire [of now t0] assms(1,3) by (auto simp: thread_wake_def split: if_split_asm)
  next
    case leave
    then show ?thesis using assms(3) by (simp add: thread_leave_def)
  qed
qed

lemma restart_fired:
  assumes "tm_thread t1 = Leaving" and "tm_state t1 = TIMER_STOPPING" and "tm_callback t1 \<noteq> No_Callback"
    and "t = t1 \<or> thread_step t1 t"
  shows "\<exists>t'. restart_poll (Some t) = Some (True, Some t') \<and> tm_state t' = TIMER_STARTING \<and> tm_thread t' = Entered False \<and>
    tm_callback t' = tm_callback t1"
proof -
  have "t = t1 \<or> t = thread_leave t1" using assms(1,4) by (auto elim: thread_step.cases)
  then show ?thesis using assms(1-3)
    by (auto simp: restart_poll_def join_thread_def startTimer_def joinable_def thread_leave_def)
qed


definition ex_fired :: timer where
  "ex_fired = (new_timer 1)\<lparr>tm_fireOnce := True, tm_interval := 20000000, tm_callback := Sync_Callback 1, tm_state := TIMER_STOPPING,
     tm_thread := Leaving, tm_next := 5, tm_pushed := [Push_Callback (Sync_Callback 1) 1000]\<rparr>"

lemma poll_timer_value:
  "poll_timer i = Some ((new_timer i)\<lparr>tm_fireOnce := True, tm_interval := 20000000, tm_callback := Sync_Callback i,
     tm_state := TIMER_STARTING, tm_thread := Entered True\<rparr>)"
  by (simp add: poll_timer_def setTimerCallback_def setInterval_def setFireOnce_def startTimer_def joinable_def new_timer_def)

lemma ex_fired_step: "thread_step (the (poll_timer 1)) ex_fired"
  by (rule enter [where fi = True and now = 5])
    (simp_all add: poll_timer_value thread_enter_def fire_loop.simps ex_fired_def new_timer_def)


section \<open>Starting and stopping\<close>

text \<open>
  A refused connection counts as connected. The result of \<^verbatim>\<open>connect\<close> is read the wrong way round: when the
  first call fails, for whatever reason and whatever the later calls would give, the service starts.
\<close>

theorem refused_connection_starts:
  assumes "tp_socket p = None" and "tp_address p = Some a" and "tp_port p = Some n" and "pton \<noteq> 0" and "refused < 0"
    and "tc_socket s \<noteq> -1 \<or> sock \<noteq> -1"
  shows "\<exists>s'. connection_start p sock pton refused rounds i s = Some (True, s') \<and> tc_attempts s' = tc_attempts s \<and> tc_timer s' \<noteq> None"
  using assms by (cases rounds) (auto simp: connection_start_def Let_def read_properties_def poll_timer_value)

theorem refused_connection_starts_witness:
  "\<exists>s'. connection_start \<lparr>tp_priority = None, tp_timeoutSendUs = None, tp_socket = None, tp_address = Some ''127.0.0.1'', tp_port = Some 80\<rparr>
     3 1 (-1) [] 1 (new_connection 1) = Some (True, s') \<and> tc_attempts s' = tc_attempts (new_connection 1) \<and> tc_timer s' \<noteq> None"
  by (rule refused_connection_starts [where a = "''127.0.0.1''" and n = 80]) simp_all

lemma connection_start_quit:
  assumes "connection_start p sock pton first rounds i s = Some (b, s')"
  shows "tc_quit s' = tc_quit s"
proof (cases "connect_loop (first < 0) (tc_attempts s) rounds")
  case None
  then show ?thesis using assms
    by (auto simp: connection_start_def Let_def read_properties_def poll_timer_value split: option.split_asm if_split_asm)
next
  case (Some r)
  then show ?thesis using assms
    by (cases r) (auto simp: connection_start_def Let_def read_properties_def poll_timer_value split: option.split_asm if_split_asm)
qed

text \<open>
  A connection that has been stopped is dead when it is started again. The flag that \<^verbatim>\<open>stop\<close> sets is never
  cleared: after any later start nothing is sent, and what the socket receives is dropped.
\<close>

theorem restarted_connection_is_dead:
  assumes "connection_start p sock pton first rounds i (connection_stop s) = Some (b, s')"
  shows "tcp_sendAsync rets msg s' = Some (Some IO_SERVICE_QUITTING, s') \<and> tcp_sendAsync_all rets msgs s' = Some (Some IO_SERVICE_QUITTING, s') \<and>
    (rs \<noteq> [] \<longrightarrow> recvHandler rs s' = Some s')"
proof -
  have quit: "tc_quit s'" using connection_start_quit [OF assms] by (simp add: connection_stop_def)
  have "\<exists>r. recv_loop True rs [] = Some r" if "rs \<noteq> []" using that by (cases rs) (auto split: recv_result.split)
  then show ?thesis using quit by (auto simp: tcp_sendAsync_def tcp_sendAsync_all_def recvHandler_def guard_recv_def)
qed

theorem restarted_connection_is_dead_witness:
  "\<exists>s'. connection_start \<lparr>tp_priority = None, tp_timeoutSendUs = None, tp_socket = Some 4, tp_address = None, tp_port = None\<rparr>
     3 1 (-1) [] 1 (connection_stop (new_connection 1)) = Some (True, s') \<and>
     tcp_sendAsync [1] ''a'' s' = Some (Some IO_SERVICE_QUITTING, s') \<and> recvHandler [Received ''a''] s' = Some s'"
proof -
  obtain s' where s': "connection_start \<lparr>tp_priority = None, tp_timeoutSendUs = None, tp_socket = Some 4, tp_address = None, tp_port = None\<rparr>
     3 1 (-1) [] 1 (connection_stop (new_connection 1)) = Some (True, s')"
    by (simp add: connection_start_def Let_def poll_timer_value)
  then show ?thesis using restarted_connection_is_dead [OF s', of "[1]" "''a''" "[]" "[Received ''a'']"] by auto
qed

section \<open>The host\<close>

lemma handle_new_socket_connects:
  assumes "handle_new_socket fd sid s = s'"
  shows "\<exists>p. th_created s' = th_created s @ [(sid, p, th_id s)] \<and> th_connections s' = th_connections s @ [sid] \<and> \<not> isClient p \<and>
    (\<exists>c. connection_start p sock pton first rounds i (new_connection sid) = Some (True, c) \<and> tc_socket c = fd \<and>
      tc_priority c = th_priority s \<and> tc_sendTimeout c = th_sendTimeout s)"
  using assms by (auto simp: handle_new_socket_def Let_def isClient_def connection_start_def read_properties_def poll_timer_value)

lemma accept_uses_priority:
  assumes "acceptHandler fd e (setHostPriority prio s) = Some s'" and "\<not> th_quit s" and "fd \<noteq> -1"
  shows "th_pushed s' = th_pushed s @ [Host_Push_NewSocket prio fd]"
  using assms by (auto simp: acceptHandler_def guard_accept_def setHostPriority_def)

lemma acceptHandler_pushes:
  assumes "acceptHandler fd e s = Some s'" and "\<not> th_quit s"
  shows "th_pushed s' = th_pushed s @
    (if fd \<noteq> -1 then [Host_Push_NewSocket (th_priority s) fd] else if e = EAGAIN then [] else [Host_Push_Stop (th_id s)])"
  using assms by (auto simp: acceptHandler_def guard_accept_def split: if_split_asm)

lemma host_start_closes:
  assumes "host_service_start p sock aton known b l i s = Some (False, s')" and "sock \<noteq> -1"
  shows "th_socket s' = -1 \<and> th_closed s' = th_closed s @ [sock] \<and> th_timer s' = th_timer s"
  using assms by (auto simp: host_service_start_def Let_def poll_timer_value split: if_split_asm)

lemma restarted_host_accepts_nothing:
  assumes "host_service_start p sock aton known b l i (host_service_stop s) = Some (r, s')"
  shows "acceptHandler fd e s' = Some s'"
proof -
  have "th_quit s'" using assms
    by (auto simp: host_service_start_def Let_def poll_timer_value host_service_stop_def split: if_split_asm)
  then show ?thesis by (simp add: acceptHandler_def guard_accept_def)
qed

end
