(* ===== verification/Http_Over_Tcp.thy ===== *)
theory Http_Over_Tcp
  imports Http_Responses Tcp
begin

text \<open>
  The HTTP client and the HTTP server over TCP connections. A connection hands out the byte stream in pieces
  of any size, and the server reads its buffer whenever the event loop gets to it. Requests and responses
  that arrive in pieces are kept until they are complete; every request is answered once and in order, and
  its response reaches the coroutine that sent it.
\<close>

section \<open>Beginnings of texts\<close>

lemma search_least: "prefix pat (drop i s) \<Longrightarrow> i \<le> length s \<Longrightarrow> search s pat \<le> i"
proof (induction s arbitrary: i)
  case (Cons c s)
  then show ?case by (cases i) auto
qed simp

lemma search_prefix:
  assumes "prefix p s" and "length p < search s pat + length pat"
  shows "search p pat = length p"
proof (rule ccontr)
  assume "search p pat \<noteq> length p"
  then have found: "search p pat < length p" using search_bound [of p pat] by simp
  obtain t where s: "s = p @ t" using assms(1) by (auto simp: prefix_def)
  have "prefix pat (drop (search p pat) s)" using search_found [OF found] found by (auto simp: s prefix_def)
  then have "search s pat \<le> search p pat" using found search_least [of pat "search p pat" s] by (simp add: s)
  then show False using search_room [OF found] assms(2) by simp
qed

lemma prefix_concat:
  assumes "prefix p (concat ts)" and "[] \<notin> set ts"
  obtains k rest where "k \<le> length ts" "p = concat (take k ts) @ rest" "if k < length ts then strict_prefix rest (ts ! k) else rest = []"
  using assms
proof (induction ts arbitrary: p thesis)
  case Nil
  then show ?case by (intro Nil(1) [of 0 "[]"]) simp_all
next
  case (Cons t ts)
  show ?case
  proof (cases "strict_prefix p t")
    case True
    then show ?thesis by (intro Cons(2) [of 0 p]) simp_all
  next
    case False
    then obtain p' where p: "p = t @ p'" "prefix p' (concat ts)"
      using Cons.prems(2) by (auto simp: prefix_append strict_prefix_def prefix_def append_eq_append_conv2)
    obtain k rest where k: "k \<le> length ts" "p' = concat (take k ts) @ rest" "if k < length ts then strict_prefix rest (ts ! k) else rest = []"
      by (rule Cons.IH [OF _ p(2)]) (use Cons.prems in auto)
    show ?thesis by (rule Cons(2) [of "Suc k" rest]) (use k p in auto)
  qed
qed

lemma length_nth_concat: "k < length ts \<Longrightarrow> length (ts ! k) \<le> length (concat ts)"
  by (simp add: length_concat member_le_sum_list)

lemma concat_take_all: "concat (take k ts) @ rest = concat ts \<Longrightarrow> strict_prefix rest (ts ! k) \<Longrightarrow> length ts \<le> k"
proof (rule ccontr)
  assume a: "concat (take k ts) @ rest = concat ts" "strict_prefix rest (ts ! k)" "\<not> length ts \<le> k"
  have "concat ts = concat (take k ts) @ concat (drop k ts)" by (simp flip: concat_append)
  moreover have "drop k ts = ts ! k # drop (Suc k) ts" using a(3) by (simp add: Cons_nth_drop_Suc)
  ultimately have "rest = ts ! k @ concat (drop (Suc k) ts)" using a(1) by simp
  then show False using a(2) prefix_length_less [OF a(2)] by simp
qed

lemma length_CRLFCRLF: "length CRLFCRLF = 4"
  by (simp add: CRLFCRLF_def CRLF_def)

lemma prefix_head:
  assumes "list_all plain_line ls" and "ls \<noteq> []" and "strict_prefix p (head_text ls @ msg)"
  shows "search p CRLFCRLF = length p \<or>
    (\<exists>b. p = head_text ls @ b \<and> strict_prefix b msg \<and> search p CRLFCRLF + 4 = length (head_text ls))"
proof (cases "length p < length (head_text ls)")
  case True
  then have "search p CRLFCRLF = length p"
    using assms head_end [OF assms(1,2), of msg] search_prefix [of p "head_text ls @ msg" CRLFCRLF] length_CRLFCRLF
    by (simp add: strict_prefix_def)
  then show ?thesis ..
next
  case False
  then obtain b where p: "p = head_text ls @ b" using assms(3) by (auto simp: strict_prefix_def prefix_def append_eq_append_conv2)
  then show ?thesis using assms(3) head_end [OF assms(1,2), of b] by (auto simp: strict_prefix_def)
qed

lemma incomplete_request_kept:
  assumes "decimal_notation fmt_u64" and "request_text fmt_u64 address r = Inr req"
    and "plain_request address (cr_target r) (cr_headers r)" and "length req < 2 ^ 64" and "strict_prefix p req"
  shows "receive_loop env sid buf p s = Some (Some p, s)"
proof -
  let ?msg = "cr_msg r" let ?hs = "cr_headers r @ host_header address (cr_headers r)"
  obtain mt where mt: "method_text (cr_method r) = Some mt"
    "req = head_text (request_head mt (cr_target r) # map header_line (?hs @ length_header fmt_u64 ?msg)) @ ?msg"
    using format_request_text assms(2) unfolding request_text_def by blast
  let ?ls = "request_head mt (cr_target r) # map header_line (?hs @ length_header fmt_u64 ?msg)"
  let ?h = "head_text ?ls"
  note hs = plain_request_headers [OF assms(3)]
  have target: "plain_target (cr_target r)" using assms(3) by (simp add: plain_request_def)
  have "list_all plain_line ?ls"
    using request_head_plain [OF mt(1) target] hs number_header [OF assms(1)] header_plain_line
    by (auto simp: plain_headers_def list_all_iff length_header_def)
  from prefix_head [OF this _ assms(5) [unfolded mt(2)]] consider (head) "search p CRLFCRLF = length p"
    | (body) b where "p = ?h @ b" "strict_prefix b ?msg" "search p CRLFCRLF + 4 = length ?h" by auto
  then show ?thesis
  proof cases
    case body
    have "?msg \<noteq> []" using body(2) by (auto simp: strict_prefix_def)
    then obtain q n where st: "request_state p (length ?h) =
      \<lparr>rp_method = cr_method r, rp_route = cr_target r, rp_headers = ?hs @ length_header fmt_u64 ?msg,
       rp_lineNo = n, rp_crlfCounter = 2, rp_protocolLength = q, rp_contentLength = word_of_nat (length ?msg), rp_badRequest = False,
       rp_contentLengthHeader = False, rp_contentLengthSet = True\<rparr>"
      using request_state_of_head [OF assms(1) mt(1) target hs, of ?msg b] unfolding body(1) by auto
    have q: "q = word_of_nat (length ?h)"
      using request_state_length [of "length ?h" p] unfolding st by (simp add: body(1) head_text_def suffix_def)
    have len: "length ?h + length ?msg < 2 ^ 64" using assms(4) by (simp add: mt(2))
    then have cl: "unat (word_of_nat (length ?msg) :: u64) = length ?msg" by (simp add: unat_of_nat take_bit_nat_eq_self)
    have fits: "unat (word_of_nat (length ?msg) :: u64) + length ?h < 2 ^ 64" unfolding cl using len by simp
    have less: "length p < length ?h + length ?msg" using body(1,2) prefix_length_less by auto
    then have "length p < 2 ^ 64" using len by simp
    then have "(word_of_nat (length p) :: u64) < word_of_nat (length ?h) + word_of_nat (length ?msg)"
      using no_wrap(1) [OF fits] less unfolding cl by blast
    then have "parseRequest p (length ?h) = Some (Inl PE_INCOMPLETEREQUEST, length ?h)"
      unfolding parseRequest_def st Let_def q request_parse.simps by simp
    then show ?thesis using body(1,3) by (subst receive_loop.simps) (simp add: Let_def)
  qed (rule receive_keeps_beginning)
qed

lemma incomplete_response_kept:
  assumes "decimal_notation fmt_u64" and "plain_response r" and "length (format_response fmt_u64 r) < 2 ^ 64"
    and "strict_prefix p (format_response fmt_u64 r)"
  shows "response_loop env p 0 s = Some (p, s)"
proof -
  let ?msg = "rs_body r" let ?hs = "rs_headers r @ type_header r"
  let ?ls = "status_line fmt_u64 (rs_status r) (reason_of (rs_status r)) # map header_line (?hs @ length_header fmt_u64 ?msg)"
  let ?h = "head_text ?ls"
  have r: "100 \<le> rs_status r" "rs_status r \<le> 599" "plain_response_headers ?hs" using assms(2) by (simp_all add: plain_response_def)
  have "list_all plain_line ?ls"
    using r(3) status_line_plain [OF assms(1)] number_header [OF assms(1)] header_plain_line
    by (auto simp: plain_response_headers_def plain_headers_def list_all_iff length_header_def)
  from prefix_head [OF this _ assms(4) [unfolded format_response_text]] consider (head) "search p CRLFCRLF = length p"
    | (body) b where "p = ?h @ b" "strict_prefix b ?msg" "search p CRLFCRLF + 4 = length ?h" by auto
  then show ?thesis
  proof cases
    case body
    have "?msg \<noteq> []" using body(2) by (auto simp: strict_prefix_def)
    then obtain q n where st: "response_state p (length ?h) =
      response_parse_init\<lparr>sp_status := rs_status r, sp_headers := ?hs @ length_header fmt_u64 ?msg, sp_lineNo := n, sp_crlfCounter := 2,
       sp_protocolLength := q, sp_contentLength := word_of_nat (length ?msg), sp_contentLengthSet := True\<rparr>"
      using response_state_of_head [OF assms(1) r, of ?msg b] unfolding body(1) by auto
    have q: "q = word_of_nat (length ?h)"
      using response_state_length [of "length ?h" p] unfolding st by (simp add: body(1) head_text_def suffix_def response_parse_init_def)
    have len: "length ?h + length ?msg < 2 ^ 64" using assms(3) by (simp add: format_response_text)
    then have cl: "unat (word_of_nat (length ?msg) :: u64) = length ?msg" by (simp add: unat_of_nat take_bit_nat_eq_self)
    have fits: "unat (word_of_nat (length ?msg) :: u64) + length ?h < 2 ^ 64" unfolding cl using len by simp
    have less: "length p < length ?h + length ?msg" using body(1,2) prefix_length_less by auto
    then have "length p < 2 ^ 64" using len by simp
    then have "(word_of_nat (length p) :: u64) < word_of_nat (length ?h) + word_of_nat (length ?msg)"
      using no_wrap(1) [OF fits] less unfolding cl by blast
    then have "parseResponse p (length ?h) = Some (Inl PE_INCOMPLETEREQUEST, length ?h)"
      unfolding parseResponse_def st Let_def q response_parse_init_def response_parse.simps by simp
    then show ?thesis using body(1,3) by (subst response_loop.simps) (simp add: Let_def)
  qed (rule response_keeps_beginning)
qed

section \<open>The server\<close>

text \<open>
  Handlers that answer from the request alone, and connections whose \<^verbatim>\<open>sendAsync\<close> leaves the server alone. The
  regular expressions of the routes have no parameters left over from an earlier match.
\<close>

definition stateless :: "http_env \<Rightarrow> (nat \<Rightarrow> HttpRequest \<Rightarrow> HttpResponse) \<Rightarrow> bool" where
  "stateless env reply \<longleftrightarrow> (\<forall>h req s. he_handler env h req s = (reply h req, s)) \<and> (\<forall>c resp s. he_send env c resp s = s)"

fun clean_matcher :: "RouteMatcher \<Rightarrow> bool" where
  "clean_matcher (StringRouteMatcher r) = True"
| "clean_matcher (RegexRouteMatch re params) = (params = [])"

definition clean_routes :: "HttpHostService \<Rightarrow> bool" where
  "clean_routes s \<longleftrightarrow> dm_ok (hs_handlers s) \<and> list_all (\<lambda>(m, rs). list_all (\<lambda>r. clean_matcher (ro_matcher r)) rs) (hs_handlers s)"

lemma matches_clean:
  "clean_matcher m \<Longrightarrow> matches m target = (False, m') \<Longrightarrow> m' = m"
  "clean_matcher m \<Longrightarrow> matches m target = (True, m') \<Longrightarrow> snd (route_params m') = m"
  by (cases m; auto split: option.split_asm)+

lemma route_loop_clean:
  "list_all (\<lambda>r. clean_matcher (ro_matcher r)) rs \<Longrightarrow> fst (route_loop rs target) = rs"
proof (induction rs)
  case (Cons r rs)
  obtain b m where m: "matches (ro_matcher r) target = (b, m)" by force
  obtain ps m' where p: "route_params m = (ps, m')" by force
  then show ?case using Cons m matches_clean [of "ro_matcher r" target m] by (cases b) (auto split: prod.splits)
qed simp

lemma answer_stateless:
  assumes "stateless env reply" and "clean_routes s"
  shows "snd (answer env req s) = s"
proof (cases "dm_find (rq_method req) (hs_handlers s)")
  case None
  then show ?thesis by (simp add: answer_def)
next
  case (Some routes)
  have ok: "dm_ok (hs_handlers s)" using assms(2) by (simp add: clean_routes_def)
  then have found: "(rq_method req, routes) \<in> set (hs_handlers s)" using Some by (simp add: dm_find_Some_iff)
  then have "fst (route_loop routes (rq_route req)) = routes"
    using assms(2) by (intro route_loop_clean) (auto simp: clean_routes_def list_all_iff)
  moreover have "dm_modify (rq_method req) (\<lambda>_. routes) (hs_handlers s) = hs_handlers s"
    unfolding dm_modify_def using found ok Some by (intro map_idI) (auto simp: dm_find_Some_iff [OF ok, symmetric])
  ultimately show ?thesis using Some assms(1) by (auto simp: answer_def stateless_def Let_def split: prod.splits option.splits)
qed

lemma answer_reply:
  assumes "stateless env reply" and "hs_handlers s = hs_handlers s'"
  shows "fst (answer env req s) = fst (answer env req s')"
  using assms by (auto simp: answer_def stateless_def Let_def split: prod.splits option.splits)

lemma stateless_keeps: "stateless env reply \<Longrightarrow> keeps_connections env"
  by (simp add: stateless_def keeps_connections_def)

definition reply_text :: "http_env \<Rightarrow> HttpHostService \<Rightarrow> HttpRequest \<Rightarrow> string" where
  "reply_text env s req = format_response (he_fmt env) (fst (answer env req s))"

lemma answer_request_stateless:
  assumes "stateless env reply" and "clean_routes s" and "sid \<in> set (hs_connections s)"
  shows "answer_request env sid req s = s\<lparr>hs_sent := hs_sent s @ [(sid, reply_text env s req)]\<rparr>"
  using assms answer_stateless [OF assms(1,2), of req]
  by (cases "answer env req s") (simp add: answer_request_def sendResponse_def stateless_def reply_text_def Let_def)

lemma answer_requests_stateless:
  assumes "stateless env reply" and "clean_routes s" and "sid \<in> set (hs_connections s)"
  shows "fold (\<lambda>r. answer_request env sid (f r)) rs s = s\<lparr>hs_sent := hs_sent s @ map (\<lambda>r. (sid, reply_text env s (f r))) rs\<rparr>"
proof (induction rs rule: rev_induct)
  case (snoc r rs)
  let ?s = "s\<lparr>hs_sent := hs_sent s @ map (\<lambda>r. (sid, reply_text env s (f r))) rs\<rparr>"
  have "clean_routes ?s" "sid \<in> set (hs_connections ?s)" using assms(2,3) by (simp_all add: clean_routes_def)
  moreover have "reply_text env ?s (f r) = reply_text env s (f r)"
    using answer_reply [OF assms(1), of ?s s "f r"] by (simp add: reply_text_def)
  ultimately show ?case using snoc answer_request_stateless [OF assms(1), of ?s sid "f r"] by simp
qed simp

text \<open>What happens to a connection of the server: bytes arrive, or its handler runs.\<close>

datatype server_op = Arrive string | Handle

fun server_run :: "http_env \<Rightarrow> service_id \<Rightarrow> server_op list \<Rightarrow> HttpHostService \<Rightarrow> HttpHostService option" where
  "server_run env sid [] s = Some s"
| "server_run env sid (Arrive c # ops) s = server_run env sid ops (receive sid c s)"
| "server_run env sid (Handle # ops) s = Option.bind (receiveRequestHandler env sid s) (server_run env sid ops)"

fun arrivals :: "server_op list \<Rightarrow> string list" where
  "arrivals [] = []"
| "arrivals (Arrive c # ops) = c # arrivals ops"
| "arrivals (Handle # ops) = arrivals ops"

definition buffer_of :: "service_id \<Rightarrow> HttpHostService \<Rightarrow> string" where
  "buffer_of sid s = (case dm_find sid (hs_connectionBuffers s) of None \<Rightarrow> [] | Some b \<Rightarrow> b)"

lemma dm_find_after_emplace: "dm_find k (dm_emplace k v m) = Some (case dm_find k m of None \<Rightarrow> v | Some v' \<Rightarrow> v')"
  by (auto simp: dm_find_emplace dm_find_None_iff [symmetric] split: option.splits)

lemma buffer_of_receive: "buffer_of sid (receive sid c s) = buffer_of sid s @ c"
  by (simp add: buffer_of_def receive_def dm_find_modify dm_find_after_emplace)

lemma buffer_of_set_buffer: "buffer_of sid (set_buffer sid b s) = b"
  by (simp add: buffer_of_def set_buffer_def dm_find_modify dm_find_after_emplace)

definition requests_ok :: "(u64 \<Rightarrow> string) \<Rightarrow> string option \<Rightarrow> client_request list \<Rightarrow> string list \<Rightarrow> bool" where
  "requests_ok fmt_u64 address rs reqs \<longleftrightarrow>
     list_all2 (\<lambda>r req. request_text fmt_u64 address r = Inr req \<and> plain_request address (cr_target r) (cr_headers r)) rs reqs"

lemma request_text_nonempty: "request_text fmt_u64 address r = Inr req \<Longrightarrow> req \<noteq> []"
  using format_request_text [of fmt_u64 address] by (fastforce simp: request_text_def head_text_def CRLF_def)

lemma requests_nonempty: "requests_ok fmt_u64 address rs reqs \<Longrightarrow> [] \<notin> set reqs"
  unfolding requests_ok_def by (induction rule: list_all2_induct) (auto dest: request_text_nonempty)

lemma handle_beginning:
  assumes "stateless env reply" and "decimal_notation fmt_u64" and "requests_ok fmt_u64 address rs reqs"
    and "clean_routes s" and "sid \<in> set (hs_connections s)"
    and "prefix (buffer_of sid s) (concat reqs)" and "length (concat reqs) \<le> buffer_limit"
  obtains k rest s1 where "k \<le> length rs" and "buffer_of sid s = concat (take k reqs) @ rest"
    and "buffer_of sid s = concat reqs \<longrightarrow> k = length rs" and "hs_handlers s1 = hs_handlers s" and "hs_connections s1 = hs_connections s"
    and "hs_sent s1 = hs_sent s @ map (\<lambda>r. (sid, reply_text env s (request_of fmt_u64 address r))) (take k rs)"
    and "receiveRequestHandler env sid s = Some (set_buffer sid rest s1)"
proof -
  have all2: "list_all2 (\<lambda>r req. request_text fmt_u64 address r = Inr req \<and> plain_request address (cr_target r) (cr_headers r)) rs reqs"
    using assms(3) by (simp add: requests_ok_def)
  then have same: "length rs = length reqs" by (rule list_all2_lengthD)
  obtain k rest where k: "k \<le> length reqs" "buffer_of sid s = concat (take k reqs) @ rest"
      "if k < length reqs then strict_prefix rest (reqs ! k) else rest = []"
    by (rule prefix_concat [OF assms(6) requests_nonempty [OF assms(3)]])
  let ?buf = "buffer_of sid s" let ?s0 = "s\<lparr>hs_connectionBuffers := dm_emplace sid [] (hs_connectionBuffers s)\<rparr>"
  let ?s1 = "?s0\<lparr>hs_sent := hs_sent s @ map (\<lambda>r. (sid, reply_text env s (request_of fmt_u64 address r))) (take k rs)\<rparr>"
  have buf: "dm_find sid (hs_connectionBuffers ?s0) = Some ?buf" by (simp add: dm_find_after_emplace buffer_of_def)
  have s0: "clean_routes ?s0" "sid \<in> set (hs_connections ?s0)" using assms(4,5) by (simp_all add: clean_routes_def)
  have len: "length (reqs ! k) < 2 ^ 64" if "k < length reqs"
    using that assms(7) length_nth_concat [of k reqs] by (simp add: buffer_limit_def)
  have kept: "receive_loop env sid ?buf rest t = Some (Some rest, t)" for t
  proof (cases "k < length reqs")
    case True
    have "strict_prefix rest (reqs ! k)" using k(3) True by simp
    then show ?thesis using list_all2_nthD2 [OF all2 True] by (intro incomplete_request_kept [OF assms(2) _ _ len [OF True]]) auto
  next
    case False
    then show ?thesis using k(3) by (intro receive_keeps_beginning) simp
  qed
  have short: "length ?buf \<le> buffer_limit" using assms(6,7) prefix_length_le by fastforce
  have fits: "length (concat (take k reqs) @ rest) < 2 ^ 64" using short unfolding k(2) by (simp add: buffer_limit_def)
  have "reply_text env ?s0 req = reply_text env s req" for req
    using answer_reply [OF assms(1), of ?s0 s] by (simp add: reply_text_def)
  then have "receive_loop env sid ?buf (concat (take k reqs) @ rest) ?s0 = Some (Some rest, ?s1)"
    using receive_all [OF stateless_keeps [OF assms(1)] assms(2) kept list_all2_takeI [OF all2, of k] fits s0(2) buf]
      answer_requests_stateless [OF assms(1) s0, of "request_of fmt_u64 address" "take k rs"] by simp
  then have "receive_loop env sid ?buf ?buf ?s0 = Some (Some rest, ?s1)" unfolding k(2) [symmetric] .
  then have handled: "receiveRequestHandler env sid s = Some (set_buffer sid rest ?s1)"
    using buf short by (simp add: receiveRequestHandler_def Let_def finish_receive_def)
  have whole: "k = length rs" if "?buf = concat reqs"
  proof (rule ccontr)
    assume "k \<noteq> length rs"
    then have "k < length reqs" using k(1) same by simp
    then show False using k(3) concat_take_all [of k reqs rest] k(2) that by simp
  qed
  show thesis
  proof (rule that [OF _ k(2) _ _ _ _ handled])
    show "k \<le> length rs" using k(1) same by simp
    show "?buf = concat reqs \<longrightarrow> k = length rs" using whole by blast
  qed simp_all
qed

text \<open>
  The state of a connection between two operations: the requests before \<open>k\<close> are answered, and the buffer
  followed by the bytes \<open>ahead\<close> is what remains of the stream.
\<close>

lemma server_run_stream:
  assumes "stateless env reply" and "decimal_notation fmt_u64" and "requests_ok fmt_u64 address rs reqs"
    and "clean_routes s" and "sid \<in> set (hs_connections s)" and "length (concat reqs) \<le> buffer_limit"
    and "prefix (buffer_of sid s @ concat (arrivals ops)) (concat reqs)"
  shows "\<exists>s' k. server_run env sid ops s = Some s' \<and>
    hs_sent s' = hs_sent s @ map (\<lambda>r. (sid, reply_text env s (request_of fmt_u64 address r))) (take k rs) \<and>
    (buffer_of sid s @ concat (arrivals ops) = concat reqs \<and> ops \<noteq> [] \<and> last ops = Handle \<longrightarrow> length rs \<le> k)"
  using assms(3-7)
proof (induction ops arbitrary: s rs reqs rule: arrivals.induct)
  case 1
  then show ?case by (intro exI [of _ s] exI [of _ 0]) simp
next
  case (2 c ops)
  let ?s = "receive sid c s"
  have s: "clean_routes ?s" "sid \<in> set (hs_connections ?s)" "hs_sent ?s = hs_sent s" "hs_handlers ?s = hs_handlers s"
    using "2.prems"(2,3) by (simp_all add: receive_def clean_routes_def)
  have "reply_text env ?s req = reply_text env s req" for req using answer_reply [OF assms(1) s(4)] by (simp add: reply_text_def)
  then show ?case
    using "2.IH" [OF "2.prems"(1) s(1,2) "2.prems"(4)] "2.prems"(5) s(3) by (auto simp: buffer_of_receive)
next
  case (3 ops)
  have "prefix (buffer_of sid s) (concat reqs)" using "3.prems"(5) by (auto simp: prefix_def)
  then obtain k rest s1 where h: "k \<le> length rs" "buffer_of sid s = concat (take k reqs) @ rest"
      "buffer_of sid s = concat reqs \<longrightarrow> k = length rs" "hs_handlers s1 = hs_handlers s" "hs_connections s1 = hs_connections s"
      "hs_sent s1 = hs_sent s @ map (\<lambda>r. (sid, reply_text env s (request_of fmt_u64 address r))) (take k rs)"
      "receiveRequestHandler env sid s = Some (set_buffer sid rest s1)"
    by (rule handle_beginning [OF assms(1,2) "3.prems"(1-3) _ "3.prems"(4)]) (rule that)
  let ?s = "set_buffer sid rest s1"
  have s: "clean_routes ?s" "sid \<in> set (hs_connections ?s)" "hs_sent ?s = hs_sent s1" "hs_handlers ?s = hs_handlers s" "buffer_of sid ?s = rest"
    using "3.prems"(2,3) h(4,5) by (simp_all add: set_buffer_def clean_routes_def buffer_of_set_buffer [unfolded set_buffer_def])
  have reply: "reply_text env ?s req = reply_text env s req" for req using answer_reply [OF assms(1) s(4)] by (simp add: reply_text_def)
  have split: "concat reqs = concat (take k reqs) @ concat (drop k reqs)" by (simp flip: concat_append)
  have ok: "requests_ok fmt_u64 address (drop k rs) (drop k reqs)" "length (concat (drop k reqs)) \<le> buffer_limit"
    using "3.prems"(1,4) split by (simp_all add: requests_ok_def list_all2_dropI)
  have "prefix (buffer_of sid ?s @ concat (arrivals ops)) (concat (drop k reqs))"
    using "3.prems"(5) split by (simp add: h(2) s(5))
  from "3.IH" [OF ok(1) s(1,2) ok(2) this] obtain s' j where j: "server_run env sid ops ?s = Some s'"
      "hs_sent s' = hs_sent s1 @ map (\<lambda>r. (sid, reply_text env s (request_of fmt_u64 address r))) (take j (drop k rs))"
      "rest @ concat (arrivals ops) = concat (drop k reqs) \<and> ops \<noteq> [] \<and> last ops = Handle \<longrightarrow> length (drop k rs) \<le> j"
    unfolding s(3,5) reply by blast
  have "take k rs @ take j (drop k rs) = take (k + j) rs" by (simp add: take_add)
  then have "hs_sent s' = hs_sent s @ map (\<lambda>r. (sid, reply_text env s (request_of fmt_u64 address r))) (take (k + j) rs)"
    using j(2) h(6) by (simp flip: map_append)
  moreover have "length rs \<le> k + j" if "buffer_of sid s @ concat (arrivals ops) = concat reqs" "ops \<noteq> [] \<longrightarrow> last ops = Handle"
  proof (cases "ops = []")
    case True
    then show ?thesis using that(1) h(3) by simp
  next
    case False
    have "rest @ concat (arrivals ops) = concat (drop k reqs)" using that(1) unfolding h(2) split by simp
    then have "length rs - k \<le> j" using j(3) that(2) False by simp
    then show ?thesis by simp
  qed
  ultimately show ?case using j(1) h(7) by (intro exI [of _ s'] exI [of _ "k + j"]) auto
qed

text \<open>
  C9. Requests may arrive in pieces. However the byte stream of the requests is cut, and whenever the handler of
  the server runs in between, the server never fails; at every moment it has answered the first requests of the
  stream, each once and in order, with the answers its routes give; and when everything has arrived and the
  handler has run, it has answered all of them.
\<close>

theorem segmented_requests_answered:
  assumes "stateless env reply" and "decimal_notation fmt_u64" and "requests_ok fmt_u64 address rs reqs"
    and "clean_routes s" and "sid \<in> set (hs_connections s)" and "length (concat reqs) \<le> buffer_limit"
    and "buffer_of sid s = []" and "prefix (concat (arrivals ops)) (concat reqs)"
  shows "\<exists>s' k. server_run env sid ops s = Some s' \<and>
    hs_sent s' = hs_sent s @ map (\<lambda>r. (sid, reply_text env s (request_of fmt_u64 address r))) (take k rs) \<and>
    (concat (arrivals ops) = concat reqs \<and> ops \<noteq> [] \<and> last ops = Handle \<longrightarrow> length rs \<le> k)"
  using server_run_stream [OF assms(1-6), of ops] assms(7,8) by simp

lemma ex_stateless: "stateless ex_http_env (\<lambda>_ req. empty_response\<lparr>rs_status := 200, rs_body := rq_route req\<rparr>)"
  by (simp add: stateless_def ex_http_env_def)

lemma ex_requests_ok: "requests_ok ex_fmt None [ex_get ''/'', ex_get ''/''] [ex_get_text ''/'', ex_get_text ''/'']"
  using ex_get_plain [of "''/''"] by (simp add: requests_ok_def plain_target_def)

lemma ex_host_ok: "clean_routes (ex_host [])" "7 \<in> set (hs_connections (ex_host []))" "buffer_of 7 (ex_host []) = []"
  by (simp_all add: clean_routes_def ex_host_def dm_ok_def buffer_of_def dm_find_def)

text \<open>Two requests in three pieces, with the handler running after the first one.\<close>

definition ex_pieces :: "server_op list" where
  "ex_pieces = [Arrive ''GET /'', Handle, Arrive ('' HTTP/1.1'' @ CRLF @ CRLF @ ''GE''), Arrive (''T / HTTP/1.1'' @ CRLF @ CRLF), Handle]"

lemma ex_pieces_last: "ex_pieces \<noteq> []" "last ex_pieces = Handle"
  by (simp_all add: ex_pieces_def)

lemma ex_pieces_stream: "concat (arrivals ex_pieces) = concat [ex_get_text ''/'', ex_get_text ''/'']"
  by (simp add: ex_pieces_def ex_get_text_def)

theorem segmented_requests_answered_witness:
  "\<exists>s'. server_run ex_http_env 7 ex_pieces (ex_host []) = Some s' \<and>
    hs_sent s' = replicate 2 (7, reply_text ex_http_env (ex_host []) (request_of ex_fmt None (ex_get ''/'')))"
proof -
  have "length (concat [ex_get_text ''/'', ex_get_text ''/'']) \<le> buffer_limit"
    by (simp add: ex_get_text_def CRLF_def buffer_limit_def)
  from segmented_requests_answered [OF ex_stateless ex_fmt_notation ex_requests_ok ex_host_ok(1,2) this ex_host_ok(3), of ex_pieces]
  obtain s' k where s': "server_run ex_http_env 7 ex_pieces (ex_host []) = Some s'"
    "hs_sent s' = hs_sent (ex_host []) @ map (\<lambda>r. (7, reply_text ex_http_env (ex_host []) (request_of ex_fmt None r))) (take k [ex_get ''/'', ex_get ''/''])"
    "length [ex_get ''/'', ex_get ''/''] \<le> k" unfolding ex_pieces_stream using ex_pieces_last by blast
  then have "take k [ex_get ''/'', ex_get ''/''] = replicate 2 (ex_get ''/'')" by (simp add: numeral_2_eq_2)
  then show ?thesis using s' by (simp add: ex_host_def numeral_2_eq_2)
qed

section \<open>The client\<close>

fun client_run :: "string list \<Rightarrow> HttpConnectionService \<Rightarrow> HttpConnectionService option" where
  "client_run [] s = Some s"
| "client_run (c # cs) s = Option.bind (client_receive (\<lambda>_ _. []) c s) (client_run cs)"

lemma hand_out_append: "hand_out fmt_u64 (xs @ ys) es = hand_out fmt_u64 xs es @ hand_out fmt_u64 ys (drop (length xs) es)"
proof -
  have "zip (take (length xs) es) (map f xs) = zip es (map f xs)" for f :: "HttpResponse \<Rightarrow> HttpParseError + HttpResponse"
    using zip_append2 [of es "map f xs" "[]"] by simp
  then show ?thesis by (simp add: hand_out_def zip_append2)
qed

lemma receive_responses:
  assumes "decimal_notation fmt_u64" and "list_all plain_response rs"
    and "length (concat (map (format_response fmt_u64) rs)) \<le> response_buffer_limit"
    and "hc_events s = map (\<lambda>e. (e, False)) es" and "length rs \<le> length es"
    and "prefix (hc_buffer s @ c) (concat (map (format_response fmt_u64) rs))"
  obtains k rest where "k \<le> length rs" and "hc_buffer s @ c = concat (map (format_response fmt_u64) (take k rs)) @ rest"
    and "hc_buffer s @ c = concat (map (format_response fmt_u64) rs) \<longrightarrow> k = length rs"
    and "client_receive (\<lambda>_ _. []) c s =
      Some (s\<lparr>hc_buffer := rest, hc_delivered := hc_delivered s @ hand_out fmt_u64 (take k rs) es, hc_events := drop k (hc_events s)\<rparr>)"
proof -
  let ?ts = "map (format_response fmt_u64) rs"
  have "[] \<notin> set ?ts" by (auto simp: format_response_text head_text_def CRLF_def)
  then obtain k rest where k: "k \<le> length ?ts" "hc_buffer s @ c = concat (take k ?ts) @ rest"
      "if k < length ?ts then strict_prefix rest (?ts ! k) else rest = []"
    by (rule prefix_concat [OF assms(6)])
  have kept: "response_loop (\<lambda>_ _. []) rest 0 t = Some (rest, t)" for t
  proof (cases "k < length rs")
    case True
    have "length (?ts ! k) < 2 ^ 64" using length_nth_concat [of k ?ts] True assms(3) by (simp add: response_buffer_limit_def)
    moreover have "plain_response (rs ! k)" using assms(2) True by (simp add: list_all_iff)
    moreover have "strict_prefix rest (format_response fmt_u64 (rs ! k))" using k(3) True by simp
    ultimately show ?thesis using True by (intro incomplete_response_kept [OF assms(1)]) simp_all
  next
    case False
    then show ?thesis using k(3) by (intro response_keeps_beginning) simp
  qed
  have short: "length (hc_buffer s @ c) \<le> response_buffer_limit" using assms(3) prefix_length_le [OF assms(6)] by simp
  let ?s = "s\<lparr>hc_buffer := hc_buffer s @ c\<rparr>"
  have cut: "hc_buffer s @ c = concat (map (format_response fmt_u64) (take k rs)) @ rest" using k(2) by (simp add: take_map)
  have "response_loop (\<lambda>_ _. []) (concat (map (format_response fmt_u64) (take k rs)) @ rest) 0 ?s =
    Some (rest, ?s\<lparr>hc_delivered := hc_delivered ?s @ hand_out fmt_u64 (take k rs) es, hc_events := drop (length (take k rs)) (hc_events ?s)\<rparr>)"
  proof (rule response_all [OF assms(1) _ kept])
    show "list_all plain_response (take k rs)" using assms(2) by (auto simp: list_all_iff dest: in_set_takeD)
    show "length (concat (map (format_response fmt_u64) (take k rs)) @ rest) < 2 ^ 64"
      using short unfolding cut by (simp add: response_buffer_limit_def)
  qed (use assms(4,5) k(1) in simp_all)
  then have "response_loop (\<lambda>_ _. []) (hc_buffer s @ c) 0 ?s =
      Some (rest, ?s\<lparr>hc_delivered := hc_delivered s @ hand_out fmt_u64 (take k rs) es, hc_events := drop k (hc_events s)\<rparr>)"
    using k(1) unfolding cut [symmetric] by (simp add: min_def)
  then have received: "client_receive (\<lambda>_ _. []) c s =
      Some (s\<lparr>hc_buffer := rest, hc_delivered := hc_delivered s @ hand_out fmt_u64 (take k rs) es, hc_events := drop k (hc_events s)\<rparr>)"
    using short by (simp add: client_receive_def Let_def)
  have whole: "k = length rs" if "hc_buffer s @ c = concat ?ts"
  proof (rule ccontr)
    assume "k \<noteq> length rs"
    then have "k < length ?ts" using k(1) by simp
    then show False using k(3) concat_take_all [of k ?ts rest] that unfolding k(2) by simp
  qed
  show thesis by (rule that [OF _ cut _ received]) (use k(1) whole in simp_all)
qed

lemma client_run_stream:
  assumes "decimal_notation fmt_u64" and "list_all plain_response rs"
    and "length (concat (map (format_response fmt_u64) rs)) \<le> response_buffer_limit"
    and "hc_events s = map (\<lambda>e. (e, False)) es" and "length rs \<le> length es"
    and "prefix (hc_buffer s @ concat cs) (concat (map (format_response fmt_u64) rs))"
  shows "\<exists>s' k. client_run cs s = Some s' \<and> k \<le> length rs \<and> hc_delivered s' = hc_delivered s @ hand_out fmt_u64 (take k rs) es \<and>
    hc_events s' = drop k (hc_events s) \<and>
    (hc_buffer s @ concat cs = concat (map (format_response fmt_u64) rs) \<and> cs \<noteq> [] \<longrightarrow> k = length rs)"
  using assms(2-6)
proof (induction cs arbitrary: s rs es)
  case Nil
  then show ?case by (intro exI [of _ s] exI [of _ 0]) (simp add: hand_out_def)
next
  case (Cons c cs)
  let ?t = "\<lambda>rs. concat (map (format_response fmt_u64) rs)"
  have "prefix (hc_buffer s @ c) (?t rs)" using Cons.prems(5) by (auto simp: prefix_def)
  then obtain k rest where k: "k \<le> length rs" "hc_buffer s @ c = ?t (take k rs) @ rest" "hc_buffer s @ c = ?t rs \<longrightarrow> k = length rs"
      "client_receive (\<lambda>_ _. []) c s =
       Some (s\<lparr>hc_buffer := rest, hc_delivered := hc_delivered s @ hand_out fmt_u64 (take k rs) es, hc_events := drop k (hc_events s)\<rparr>)"
    by (rule receive_responses [OF assms(1) Cons.prems(1-4)]) (rule that)
  let ?s = "s\<lparr>hc_buffer := rest, hc_delivered := hc_delivered s @ hand_out fmt_u64 (take k rs) es, hc_events := drop k (hc_events s)\<rparr>"
  have split: "?t rs = ?t (take k rs) @ ?t (drop k rs)" by (simp flip: map_append concat_append)
  have stream: "hc_buffer s @ concat (c # cs) = ?t (take k rs) @ rest @ concat cs" using k(2) by simp
  have "\<exists>s' j. client_run cs ?s = Some s' \<and> j \<le> length (drop k rs) \<and>
      hc_delivered s' = hc_delivered ?s @ hand_out fmt_u64 (take j (drop k rs)) (drop k es) \<and> hc_events s' = drop j (hc_events ?s) \<and>
      (hc_buffer ?s @ concat cs = ?t (drop k rs) \<and> cs \<noteq> [] \<longrightarrow> j = length (drop k rs))"
  proof (rule Cons.IH)
    show "list_all plain_response (drop k rs)" using Cons.prems(1) by (auto simp: list_all_iff dest: in_set_dropD)
    show "length (?t (drop k rs)) \<le> response_buffer_limit" using Cons.prems(2) unfolding split by simp
    show "hc_events ?s = map (\<lambda>e. (e, False)) (drop k es)" using Cons.prems(3) by (simp add: drop_map)
    show "prefix (hc_buffer ?s @ concat cs) (?t (drop k rs))" using Cons.prems(5) unfolding stream split by simp
  qed (use Cons.prems(4) in simp)
  then obtain s' j where j: "client_run cs ?s = Some s'" "j \<le> length rs - k"
      "hc_delivered s' = hc_delivered s @ hand_out fmt_u64 (take k rs) es @ hand_out fmt_u64 (take j (drop k rs)) (drop k es)"
      "hc_events s' = drop (k + j) (hc_events s)"
      "rest @ concat cs = ?t (drop k rs) \<and> cs \<noteq> [] \<longrightarrow> j = length rs - k" by (auto simp: add.commute)
  have "hand_out fmt_u64 (take (k + j) rs) es = hand_out fmt_u64 (take k rs) es @ hand_out fmt_u64 (take j (drop k rs)) (drop k es)"
    using hand_out_append [of fmt_u64 "take k rs" "take j (drop k rs)" es] k(1) by (simp add: take_add)
  moreover have "k + j = length rs" if "hc_buffer s @ concat (c # cs) = ?t rs"
  proof (cases "cs = []")
    case True
    then have "k = length rs" using that k(3) by simp
    then show ?thesis using j(2) by simp
  next
    case False
    have "rest @ concat cs = ?t (drop k rs)" using that unfolding stream split by simp
    then show ?thesis using j(5) False k(1) by simp
  qed
  ultimately show ?case using j(1-4) k(1,4) by (intro exI [of _ s'] exI [of _ "k + j"]) simp
qed

section \<open>Both together\<close>

text \<open>The coroutines \<open>es\<close> send the requests \<open>rs\<close> one after the other; the connection accepts every message.\<close>

fun send_requests :: "(u64 \<Rightarrow> string) \<Rightarrow> (nat \<times> client_request) list \<Rightarrow> HttpConnectionService \<Rightarrow> HttpConnectionService" where
  "send_requests fmt_u64 [] c = c"
| "send_requests fmt_u64 ((e, r) # ers) c =
     send_requests fmt_u64 ers (snd (sendAsync fmt_u64 True e (cr_method r) (cr_target r) (cr_headers r) (cr_msg r) c))"

lemma send_requests_sent:
  assumes "hc_connection c \<noteq> None" and "requests_ok fmt_u64 (hc_address c) rs reqs" and "length es = length rs"
  shows "send_requests fmt_u64 (zip es rs) c =
    c\<lparr>hc_sent := hc_sent c @ reqs, hc_events := hc_events c @ map (\<lambda>e. (e, False)) es\<rparr>"
  using assms
proof (induction rs arbitrary: c es reqs)
  case (Cons r rs)
  obtain e es' where es: "es = e # es'" using Cons.prems(3) by (cases es) auto
  obtain req reqs' where reqs: "reqs = req # reqs'" "request_text fmt_u64 (hc_address c) r = Inr req" "requests_ok fmt_u64 (hc_address c) rs reqs'"
    using Cons.prems(2) by (auto simp: requests_ok_def list_all2_Cons1)
  let ?c = "c\<lparr>hc_sent := hc_sent c @ [req], hc_events := hc_events c @ [(e, False)]\<rparr>"
  have "snd (sendAsync fmt_u64 True e (cr_method r) (cr_target r) (cr_headers r) (cr_msg r) c) = ?c"
    using Cons.prems(1) reqs(2) by (auto simp: sendAsync_def request_text_def Let_def)
  then show ?case using Cons.IH [of ?c reqs' es'] Cons.prems reqs es by simp
qed (simp add: requests_ok_def)

text \<open>
  The bytes that a new connection receives from the network, and the messages in which it hands them to its
  user: the poll handler runs and the receive handler is set as \<open>ops\<close> says.
\<close>

definition carried :: "connection_op list \<Rightarrow> TcpConnectionService \<Rightarrow> string \<Rightarrow> string list \<Rightarrow> bool" where
  "carried ops t bytes msgs \<longleftrightarrow> \<not> tc_quit t \<and> tc_received t = [] \<and> tc_queuedMessages t = [] \<and> Set_Handler \<in> set ops \<and>
     polled ops = bytes \<and> map_option tc_received (connection_run ops t) = Some msgs"

lemma carried_concat: "carried ops t bytes msgs \<Longrightarrow> concat msgs = bytes"
  using connection_run_stream [of ops t]
  by (auto simp: carried_def connection_ok_def stream_def)

text \<open>
  C3. HTTP over TCP works from end to end. Coroutines send requests through a client; a connection carries the
  bytes to a server, in pieces of any size; the server reads its buffer at any moments, the last time when
  everything is there; and a connection carries the bytes of the answers back, again in any pieces. Then
  every coroutine gets exactly the answer that the routes of the server give to its own request, in order,
  and no coroutine is left waiting.
\<close>

theorem http_over_tcp:
  assumes "decimal_notation (he_fmt env)" and "stateless env reply" and "clean_routes s" and "sid \<in> set (hs_connections s)"
    and "buffer_of sid s = []" and "hs_sent s = []"
    and "hc_connection c \<noteq> None" and "hc_events c = []" and "hc_buffer c = []" and "hc_sent c = []"
    and "requests_ok (he_fmt env) (hc_address c) rs reqs" and "length es = length rs" and "c1 = send_requests (he_fmt env) (zip es rs) c"
    and "carried to_ops t (concat (hc_sent c1)) (arrivals ops)" and "ops \<noteq> []" and "last ops = Handle"
    and "length (concat reqs) \<le> buffer_limit"
    and "carried back_ops u (concat (map snd (hs_sent (the (server_run env sid ops s))))) msgs"
    and "list_all (\<lambda>r. plain_response (fst (answer env (request_of (he_fmt env) (hc_address c) r) s))) rs"
    and "length (concat (map (\<lambda>r. reply_text env s (request_of (he_fmt env) (hc_address c) r)) rs)) \<le> response_buffer_limit"
  shows "\<exists>s' c2. server_run env sid ops s = Some s' \<and> client_run msgs c1 = Some c2 \<and> hc_events c2 = [] \<and>
    hc_delivered c2 = hc_delivered c @
      zip es (map (\<lambda>r. Inr (response_of (he_fmt env) (fst (answer env (request_of (he_fmt env) (hc_address c) r) s)))) rs)"
proof -
  let ?answers = "map (\<lambda>r. fst (answer env (request_of (he_fmt env) (hc_address c) r) s)) rs"
  have c1: "c1 = c\<lparr>hc_sent := reqs, hc_events := map (\<lambda>e. (e, False)) es\<rparr>"
    using send_requests_sent [OF assms(7,11,12)] assms(8,10,13) by simp
  have "concat (arrivals ops) = concat reqs" using carried_concat [OF assms(14)] by (simp add: c1)
  then obtain s' k where s': "server_run env sid ops s = Some s'" "length rs \<le> k"
      "hs_sent s' = map (\<lambda>r. (sid, reply_text env s (request_of (he_fmt env) (hc_address c) r))) (take k rs)"
    using server_run_stream [OF assms(2,1,11,3,4,17), of ops] assms(5,6,15,16) by auto
  have bytes: "concat msgs = concat (map (format_response (he_fmt env)) ?answers)"
    using carried_concat [OF assms(18)] s' by (simp add: comp_def reply_text_def)
  have "\<exists>c2 j. client_run msgs c1 = Some c2 \<and> j \<le> length ?answers \<and>
      hc_delivered c2 = hc_delivered c1 @ hand_out (he_fmt env) (take j ?answers) es \<and> hc_events c2 = drop j (hc_events c1) \<and>
      (hc_buffer c1 @ concat msgs = concat (map (format_response (he_fmt env)) ?answers) \<and> msgs \<noteq> [] \<longrightarrow> j = length ?answers)"
    using assms(9,12,19,20) bytes
    by (intro client_run_stream [OF assms(1)]) (simp_all add: c1 list_all_iff comp_def reply_text_def)
  then obtain c2 j where c2: "client_run msgs c1 = Some c2" "j \<le> length rs"
      "hc_delivered c2 = hc_delivered c @ hand_out (he_fmt env) (take j ?answers) es" "hc_events c2 = drop j (map (\<lambda>e. (e, False)) es)"
      "msgs \<noteq> [] \<longrightarrow> j = length rs"
    using assms(9) bytes by (auto simp: c1)
  have "rs = []" if "msgs = []"
    using bytes that by (cases rs) (auto simp: format_response_text head_text_def CRLF_def)
  then have "j = length rs" using c2(2,5) by auto
  then show ?thesis using c2 s'(1) assms(12) by (intro exI [of _ s'] exI [of _ c2]) (simp add: hand_out_def comp_def)
qed

definition ex_polls :: "string \<Rightarrow> string \<Rightarrow> connection_op list" where
  "ex_polls a b = [Poll [Received a, Recv_Error EAGAIN], Set_Handler, Poll [Received b, Recv_Error EAGAIN]]"

definition ex_connection :: TcpConnectionService where
  "ex_connection = (new_connection 1)\<lparr>tc_timer := Some ((new_timer 1)\<lparr>tm_callback := Sync_Callback 1\<rparr>)\<rparr>"

lemma ex_carried: "a \<noteq> [] \<Longrightarrow> b \<noteq> [] \<Longrightarrow> carried (ex_polls a b) ex_connection (a @ b) [a, b]"
  by (simp add: carried_def ex_polls_def ex_connection_def recvHandler_def guard_recv_def restart_poll_def join_thread_def startTimer_def
    joinable_def new_timer_def new_connection_def Let_def deliver_def setReceiveHandler_def)

definition ex_idle_client :: HttpConnectionService where
  "ex_idle_client = (ex_client [] [])\<lparr>hc_address := None\<rparr>"

lemma ex_answer: "fst (answer ex_http_env (request_of ex_fmt None (ex_get ''/'')) (ex_host [])) = empty_response\<lparr>rs_status := 200, rs_body := ''/''\<rparr>"
  by (simp add: answer_def ex_host_def ex_http_env_def request_of_def received_def ex_get_def dm_find_def)

lemma ex_reply_length: "length (reply_text ex_http_env (ex_host []) (request_of ex_fmt None (ex_get ''/''))) \<le> 100"
proof -
  have "length (ex_fmt 200) = 3" "length (ex_fmt 1) = 1" by (simp_all add: ex_fmt_def decimal_digits.simps)
  moreover have "he_fmt ex_http_env = ex_fmt" by (simp add: ex_http_env_def ex_fmt_def [abs_def])
  ultimately show ?thesis
    by (simp add: reply_text_def ex_answer format_response_def status_text_def ICHOR_STATUS_MATCHING_def format_header_def CRLF_def
      empty_response_def)
qed

lemma ex_one_request:
  assumes "a @ b = ex_get_text ''/''"
  shows "map snd (hs_sent (the (server_run ex_http_env 7 [Arrive a, Arrive b, Handle] (ex_host [])))) =
    [reply_text ex_http_env (ex_host []) (request_of ex_fmt None (ex_get ''/''))]"
proof -
  have one: "requests_ok ex_fmt None [ex_get ''/''] [ex_get_text ''/'']" "length (concat [ex_get_text ''/'']) \<le> buffer_limit"
    using ex_requests_ok by (simp_all add: requests_ok_def ex_get_text_def CRLF_def buffer_limit_def)
  have stream: "buffer_of 7 (ex_host []) @ concat (arrivals [Arrive a, Arrive b, Handle]) = concat [ex_get_text ''/'']"
    using assms ex_host_ok(3) by simp
  obtain s' k where "server_run ex_http_env 7 [Arrive a, Arrive b, Handle] (ex_host []) = Some s'"
    "hs_sent s' = hs_sent (ex_host []) @ map (\<lambda>r. (7, reply_text ex_http_env (ex_host []) (request_of ex_fmt None r))) (take k [ex_get ''/''])"
    "length [ex_get ''/''] \<le> k"
    using server_run_stream [OF ex_stateless ex_fmt_notation one(1) ex_host_ok(1,2) one(2), of "[Arrive a, Arrive b, Handle]"]
    unfolding stream by (metis last.simps list.distinct(1) prefix_order.refl)
  then show ?thesis by (cases k) (auto simp: ex_host_def)
qed

theorem http_over_tcp_witness:
  "\<exists>a b msgs s' c2. carried (ex_polls ''GE'' (drop 2 (ex_get_text ''/''))) ex_connection (ex_get_text ''/'') [''GE'', drop 2 (ex_get_text ''/'')] \<and>
     server_run ex_http_env 7 [Arrive ''GE'', Arrive (drop 2 (ex_get_text ''/'')), Handle] (ex_host []) = Some s' \<and>
     carried (ex_polls a b) ex_connection (concat (map snd (hs_sent s'))) msgs \<and>
     client_run msgs (send_requests ex_fmt [(11, ex_get ''/'')] ex_idle_client) = Some c2 \<and> hc_events c2 = [] \<and>
     hc_delivered c2 = [(11, Inr (response_of ex_fmt (empty_response\<lparr>rs_status := 200, rs_body := ''/''\<rparr>)))]"
proof -
  let ?a = "''GE''" let ?b = "drop 2 (ex_get_text ''/'')" let ?s = "ex_host []" let ?c = ex_idle_client
  let ?ops = "[Arrive ?a, Arrive ?b, Handle]"
  define r where "r = reply_text ex_http_env ?s (request_of ex_fmt None (ex_get ''/''))"
  define c1 where "c1 = send_requests ex_fmt (zip [11] [ex_get ''/'']) ?c"
  have fmt: "he_fmt ex_http_env = ex_fmt" by (simp add: ex_http_env_def ex_fmt_def [abs_def])
  have ab: "?a @ ?b = ex_get_text ''/''" "?b \<noteq> []" by (simp_all add: ex_get_text_def)
  have c: "hc_connection ?c \<noteq> None" "hc_events ?c = []" "hc_buffer ?c = []" "hc_sent ?c = []" "hc_address ?c = None" "hc_delivered ?c = []"
    by (simp_all add: ex_idle_client_def ex_client_def)
  have one: "requests_ok ex_fmt (hc_address ?c) [ex_get ''/''] [ex_get_text ''/'']" using ex_requests_ok by (simp add: requests_ok_def c(5))
  have sent: "hc_sent c1 = [ex_get_text ''/'']" using send_requests_sent [OF c(1) one, of "[11]"] c by (simp add: c1_def)
  have there: "carried (ex_polls ?a ?b) ex_connection (concat (hc_sent c1)) (arrivals ?ops)"
    using ex_carried [of ?a ?b] ab by (simp add: sent)
  have r: "take 1 r \<noteq> []" "drop 1 r \<noteq> []" by (simp_all add: r_def reply_text_def format_response_def)
  have home: "carried (ex_polls (take 1 r) (drop 1 r)) ex_connection (concat (map snd (hs_sent (the (server_run ex_http_env 7 ?ops ?s))))) [take 1 r, drop 1 r]"
    unfolding ex_one_request [OF ab(1)] r_def [symmetric] using ex_carried [OF r] by simp
  have "plain_response (empty_response\<lparr>rs_status := 200, rs_body := ''/''\<rparr>)"
    by (simp add: plain_response_def plain_response_headers_def plain_headers_def type_header_def dm_ok_def empty_response_def)
  then have plain: "list_all (\<lambda>r. plain_response (fst (answer ex_http_env (request_of ex_fmt (hc_address ?c) r) ?s))) [ex_get ''/'']"
    using ex_answer by (simp add: c(5))
  have short: "length (concat (map (\<lambda>r. reply_text ex_http_env ?s (request_of ex_fmt (hc_address ?c) r)) [ex_get ''/''])) \<le> response_buffer_limit"
    using ex_reply_length by (simp add: c(5) response_buffer_limit_def)
  have "length (concat [ex_get_text ''/'']) \<le> buffer_limit" by (simp add: ex_get_text_def CRLF_def buffer_limit_def)
  then obtain s' c2 where e: "server_run ex_http_env 7 ?ops ?s = Some s'" "client_run [take 1 r, drop 1 r] c1 = Some c2" "hc_events c2 = []"
      "hc_delivered c2 = hc_delivered ?c @ zip [11] (map (\<lambda>r. Inr (response_of ex_fmt (fst (answer ex_http_env (request_of ex_fmt (hc_address ?c) r) ?s)))) [ex_get ''/''])"
    using http_over_tcp [of ex_http_env _ ?s 7 ?c "[ex_get ''/'']" "[ex_get_text ''/'']" "[11]" c1, unfolded fmt,
        OF ex_fmt_notation ex_stateless ex_host_ok(1,2,3) _ c(1-4) one _ c1_def there _ _ _ home plain short]
    by (auto simp: ex_host_def)
  have delivered: "hc_delivered c2 = [(11, Inr (response_of ex_fmt (empty_response\<lparr>rs_status := 200, rs_body := ''/''\<rparr>)))]"
    using e(4) ex_answer by (simp add: c)
  have there': "carried (ex_polls ?a ?b) ex_connection (ex_get_text ''/'') [?a, ?b]" using there by (simp add: sent)
  have c1: "send_requests ex_fmt [(11, ex_get ''/'')] ?c = c1" by (simp add: c1_def)
  show ?thesis using there' home e(1-3) delivered unfolding c1 e(1) option.sel by blast
qed

end
