(* ===== verification/Spec2Isabelle.thy ===== *)
theory Spec2Isabelle
  imports Injection_Properties Manager_Properties Priority_Event_Queue Base64 Static_Vector
    Robin_Hood Http_Over_Tcp
begin

text \<open>
  A verification development for Ichor, a C++ framework for services that are wired together by dependency
  injection and run by an event loop (\<^verbatim>\<open>src/\<close>).

  \<^bold>\<open>The program.\<close> An event queue owns a dependency manager. Services are created with a lifecycle manager each and
  register what they depend on. The dependency manager takes events from the queue one at a time, moves the
  services through their lifecycle, injects a service into its consumers when it comes online and takes it
  away before it goes offline, and runs coroutines of the services until they suspend. On top of this core
  there are services of the framework: timers, TCP connections and hosts, and an HTTP client and server that
  use them. Below it there are containers and string functions of its own.

  \<^bold>\<open>How code becomes definitions.\<close> Classes are records, enumerations are datatypes, and every function that changes
  an object is a function from the old state to the new one. \<open>None\<close> stands for a call that does not return
  normally: \<^verbatim>\<open>std::terminate\<close>, undefined behaviour, or a loop that does not end. Numbers have the width of the
  code where overflow can matter (\<^typ>\<open>64 word\<close> for lengths in HTTP heads and for hashes, 8 bits in base64) and
  are natural numbers where they are counters. The code of the services of a user, of the operating system
  and of third-party libraries is a parameter: functions for what services do when they are started, stopped,
  injected or resumed; lists of results for socket calls, in the order of the calls; functions for the numbers
  that fmt prints and for the regular expressions that ctre compiles. What is assumed of such a parameter is a
  named definition that appears among the assumptions of a theorem: \<open>decimal_notation\<close> and \<open>hex_notation\<close> (numbers
  are printed so that the parsers read them back), \<open>send_contract\<close> (\<^verbatim>\<open>send\<close> fails or takes over some of the
  bytes), \<open>keeps_connections\<close> and \<open>stateless\<close> (handlers of routes do not change the server under its own loop).
  Each such theorem comes with an instance in which the assumptions hold.

  \<^bold>\<open>The core.\<close>
  \<^item> \<^verbatim>\<open>Ichor_Prelude\<close>: identifiers, priorities, and the dense maps and sets of \<^verbatim>\<open>ankerl/unordered_dense.h\<close> as lists
    in the order in which the code iterates over them, with the interface \<open>assoc_container\<close>.
  \<^item> \<^verbatim>\<open>Robin_Hood\<close>: the same table with its bucket array, as the header implements it: distances and fingerprints
    in 32 bits, the displacement of buckets on insertion, the backward shift on erasure, growth and rehashing.
    For every hash function, every sequence of operations ends, stays within the array, and gives the results
    and the vector of the list model. This is proved for up to 6,710,886 operations, so for up to \<open>2 ^ 23\<close> buckets:
    then a distance cannot overflow its 24 bits.
  \<^item> \<^verbatim>\<open>Sectional_Priority_Queue\<close> and \<^verbatim>\<open>Priority_Event_Queue\<close>: the vector heap of \<^verbatim>\<open>stl/SectionalPriorityQueue.h\<close> and
    the loop of \<^verbatim>\<open>event_queues/PriorityQueue.cpp\<close>. The interfaces \<open>strict_weak_order\<close>, \<open>priority_queue\<close> and \<open>event_order\<close>
    are interpreted for both comparators of the code. A round takes the event that is first by priority and,
    in the ordered queue, by age; draining the queue sorts it; SIGINT ends the loop.
  \<^item> \<^verbatim>\<open>Dependency_Register\<close> and \<^verbatim>\<open>Lifecycle_Manager\<close>: registrations with their counts, filters, and the managers of
    \<^verbatim>\<open>dependency_management/\<close> with the states of a service. \<open>injectable\<close> and \<open>startable\<close> are the interfaces between a
    manager and its service. \<^verbatim>\<open>Injection_Properties\<close> shows what injecting and taking away do to the bookkeeping.
  \<^item> \<^verbatim>\<open>Manager_State\<close> and \<^verbatim>\<open>Event_Processing\<close>: \<^verbatim>\<open>DependencyManager\<close> with its maps, the events, and one definition per
    event type for \<^verbatim>\<open>processEvent\<close>, with interceptors, trackers and suspended coroutines.
  \<^item> \<^verbatim>\<open>Manager_Steps\<close>: the locales \<open>user_relation\<close> and \<open>handler_relation\<close> carry a relation between states over every
    event once the elementary changes respect it. \<^verbatim>\<open>Manager_Invariants\<close> interprets them; \<^verbatim>\<open>Manager_Properties\<close> states
    the results: injected services stay alive, services move along their lifecycle only, event ids are fresh,
    interceptors can veto, quitting reaches every service, and a created service becomes active.
  \<^item> \<^verbatim>\<open>Waiting_Services\<close>: the coroutines that wait for services. The loop that wakes them has the fuel \<open>wait_fuel\<close>, two
    more than what the suspended coroutines can still do; the loop without fuel is shown to end with the same
    result, so the fuel is always enough.
  \<^item> \<^verbatim>\<open>Example_Runs\<close>: concrete runs on which the theorems are instantiated.

  \<^bold>\<open>Coroutines, timers and containers.\<close>
  \<^item> \<^verbatim>\<open>Async_Events\<close>: the events of \<^verbatim>\<open>coroutines/\<close> and the mutex of \<^verbatim>\<open>stl/AsyncSingleThreadedMutex.h\<close>. The auto reset event
    is a flag with a fair queue; the mutex excludes as long as at most one coroutine waits, and not beyond.
  \<^item> \<^verbatim>\<open>Timers\<close>: \<^verbatim>\<open>services/timer/Timer.cpp\<close> as two threads whose steps interleave, and the factories. A stop that is
    accepted takes effect.
  \<^item> \<^verbatim>\<open>Static_Vector\<close>: \<^verbatim>\<open>stl/StaticVector.h\<close> on raw storage, where each slot holds an object or not; it refines lists.
  \<^item> \<^verbatim>\<open>String_Utils\<close> and \<^verbatim>\<open>Base64\<close>: \<^verbatim>\<open>stl/StringUtils.h\<close> and \<^verbatim>\<open>base64/base64.cpp\<close>: exact values, round trips, and the inputs
    on which the code goes wrong. \<^verbatim>\<open>Errno_Utils\<close>: the error codes of \<^verbatim>\<open>stl/ErrnoUtils.h\<close>.

  \<^bold>\<open>The network.\<close>
  \<^item> \<^verbatim>\<open>Tcp\<close>: \<^verbatim>\<open>services/network/tcp/TcpConnectionService.cpp\<close> and \<^verbatim>\<open>TcpHostService.cpp\<close>, which poll their sockets with a timer
    of \<^verbatim>\<open>Timers\<close>. Sending is all or a prefix, receiving hands out the byte stream, and polling goes on.
  \<^item> \<^verbatim>\<open>Http_Common\<close>, \<^verbatim>\<open>Http_Server\<close>, \<^verbatim>\<open>Http_Client\<close>: the parsers, routes and buffers of \<^verbatim>\<open>services/network/http/\<close>. Both
    services refuse a buffer of more than 512 MiB, which is the bound in the theorems and keeps every position
    far below \<open>2 ^ 64\<close>. \<^verbatim>\<open>Http_Properties\<close> and \<^verbatim>\<open>Http_Responses\<close> show that each side reads what the other one composes.
  \<^item> \<^verbatim>\<open>Http_Over_Tcp\<close>: client, server and two connections together. However the streams are cut and whenever the
    server reads, every coroutine gets the answer to its own request.

  \<^bold>\<open>Flaws.\<close> Where the code does not do what it means to, the theories prove the behaviour it has: among others a
  coroutine in \<^verbatim>\<open>waitForServiceStarted\<close> is never resumed, a stop during an asynchronous start is lost, a second
  provider with a shared interface corrupts a count, the mutex has two holders when two coroutines wait, the
  length of a request wraps around, and a refused TCP connection counts as connected.

  \<^bold>\<open>Not modelled.\<close>
  \<^item> The queues and services on io_uring, sd-event, Boost.Asio and Boost.Beast, OpenSSL, hiredis and etcd: they
    translate calls to those libraries, whose behaviour is not part of the sources.
  \<^item> Files, loggers, statistics and memory usage: input and output.
  \<^item> The promise types of coroutines and the pointer classes: frames and addresses are below the model, in which
    a coroutine suspends and resumes in one step and an object is its value.
  \<^item> Concepts, type names and other code that runs in the compiler: a type is a number here.
  \<^item> Several event loops in one process and the channel between them: the model has one manager, and other
    threads appear as steps of the timers only. The locks around the shared state are not represented; what the
    code does under a lock is one step.
\<close>

end
